(* ===== verification/Prelude.thy ===== *)
theory Prelude
  imports Main "HOL-Library.Word"
begin

text \<open>
  Shared vocabulary of the development: the C integer type used for identifiers and enums,
  C character arrays and the string functions of \<^verbatim>\<open><string.h>\<close> the server uses, generic lemmas
  on lists and the named collections of rewrite rules that the component theories fill.

  A C array \<^verbatim>\<open>char x[n]\<close> is a list of \<open>n\<close> characters, terminator and padding included, so
  that a missing terminator or a write past the end of an array stays visible.
\<close>

type_synonym u32 = "32 word"

named_theorems frame_simps \<open>what an operation leaves untouched\<close>
named_theorems op_defs \<open>definitions of the operations, for symbolic execution\<close>
named_theorems exec_simps \<open>rules that evaluate an operation on a concrete input\<close>

section \<open>C strings\<close>

abbreviation NUL :: char where
  "NUL \<equiv> CHR 0x00"

abbreviation newline :: char where
  "newline \<equiv> CHR 0x0A"

definition cstring :: "char list \<Rightarrow> char list" where
  "cstring bs = takeWhile (\<lambda>c. c \<noteq> NUL) bs"

definition strncpy :: "char list \<Rightarrow> char list \<Rightarrow> nat \<Rightarrow> char list" where
  "strncpy dst src n =
     (let s = cstring (take n src) in s @ replicate (n - length s) NUL @ drop n dst)"

definition strncmp_eq :: "char list \<Rightarrow> char list \<Rightarrow> nat \<Rightarrow> bool" where
  \<comment> \<open>\<^verbatim>\<open>strncmp(a, b, n) == 0\<close>\<close>
  "strncmp_eq a b n \<longleftrightarrow> cstring (take n a) = cstring (take n b)"

definition strcspn_nl :: "char list \<Rightarrow> nat" where
  \<comment> \<open>\<^verbatim>\<open>strcspn(s, "\n")\<close>\<close>
  "strcspn_nl s = length (takeWhile (\<lambda>c. c \<noteq> NUL \<and> c \<noteq> newline) s)"

definition fgets :: "char list \<Rightarrow> nat \<Rightarrow> char list \<Rightarrow> char list" where
  \<comment> \<open>\<^verbatim>\<open>fgets(out, n, fp)\<close> with \<open>inp\<close> left to read on \<^verbatim>\<open>fp\<close>: at most \<open>n - 1\<close> characters, up to
     and including a newline, then a terminator; nothing is written at the end of file.\<close>
  "fgets out n inp =
     (let pre = takeWhile (\<lambda>c. c \<noteq> newline) inp;
          line = take (n - 1) (pre @ take 1 (drop (length pre) inp))
      in if line = [] then out else line @ [NUL] @ drop (length line + 1) out)"

definition c_array :: "nat \<Rightarrow> char list \<Rightarrow> char list" where
  \<comment> \<open>the text \<open>s\<close> in a zero-filled array of \<open>n\<close> characters\<close>
  "c_array n s = take n (s @ replicate n NUL)"

lemma cstring_Nil [simp]: "cstring [] = []"
  by (simp add: cstring_def)

lemma cstring_Cons [simp]: "cstring (c # cs) = (if c = NUL then [] else c # cstring cs)"
  by (simp add: cstring_def)

lemma cstring_replicate [simp]: "cstring (replicate n NUL) = []"
  by (cases n) (auto simp: cstring_def)

lemma cstring_id: "NUL \<notin> set s \<Longrightarrow> cstring s = s"
  by (auto simp: cstring_def takeWhile_eq_all_conv)

lemma cstring_append_pad [simp]: "cstring (s @ replicate n NUL) = cstring s"
  by (induction s) (auto simp: cstring_def)

lemma NUL_notin_cstring [simp]: "NUL \<notin> set (cstring s)"
  by (auto simp: cstring_def dest: set_takeWhileD)

lemma cstring_idem [simp]: "cstring (cstring s) = cstring s"
  by (simp add: cstring_id)

lemma length_cstring_le: "length (cstring s) \<le> length s"
  by (simp add: cstring_def length_takeWhile_le)

lemma length_strncpy [simp]: "n \<le> length dst \<Longrightarrow> length (strncpy dst src n) = length dst"
  using length_cstring_le [of "take n src"] by (simp add: strncpy_def Let_def)

lemma length_c_array [simp]: "length (c_array n s) = n"
  by (simp add: c_array_def)

lemma c_array_cstring:
  assumes "NUL \<notin> set s" and "length s \<le> n"
  shows "cstring (c_array n s) = s"
  using assms by (simp add: c_array_def cstring_id)

lemma cstring_strncpy_zero:
  "n \<le> m \<Longrightarrow> cstring (strncpy (replicate m NUL) src n) = cstring (take n src)"
  by (simp add: strncpy_def Let_def replicate_add [symmetric])

lemma cstring_take_strncpy: "n \<le> length dst \<Longrightarrow> cstring (take n (strncpy dst src n)) = cstring (take n src)"
  using length_cstring_le [of "take n src"] by (simp add: strncpy_def Let_def)

lemma strncmp_eq_refl [simp]: "strncmp_eq a a n"
  by (simp add: strncmp_eq_def)

section \<open>Lists and options\<close>

lemma list_all_update:
  "list_all P xs \<Longrightarrow> P x \<Longrightarrow> list_all P (xs[i := x])"
  by (auto simp: list_all_iff dest: set_update_subset_insert [THEN subsetD])

lemma find_Some_mem: "find P xs = Some x \<Longrightarrow> x \<in> set xs \<and> P x"
  by (auto simp: find_Some_iff)

lemma nth_map_upd_same: "(map f xs)[i := f x] = map f (xs[i := x])"
  by (simp add: map_update)

section \<open>32-bit identifiers and record slots\<close>

definition slot_of :: "u32 \<Rightarrow> nat" where
  \<comment> \<open>the record index of \<^verbatim>\<open>(off_t)(id - 1) * sizeof(Record)\<close>: the subtraction is unsigned\<close>
  "slot_of i = unat (i - 1)"

lemma slot_of_inj [simp]: "slot_of i = slot_of j \<longleftrightarrow> i = j"
  by (simp add: slot_of_def word_unat_eq_iff [symmetric])

lemma slot_of_Suc: "k < 2 ^ 32 \<Longrightarrow> slot_of (word_of_nat k + 1) = k"
  by (simp add: slot_of_def unat_of_nat take_bit_nat_eq_self)

lemma slot_of_0: "slot_of 0 = 2 ^ 32 - 1"
  by (simp add: slot_of_def unsigned_minus_1_eq_mask mask_eq_exp_minus_1)

lemma of_slot: "word_of_nat (slot_of i) + 1 = i"
  by (simp add: slot_of_def)

end
