(* ===== verification/Binary64.thy ===== *)
theory Binary64
  imports Prelude "HOL-Library.Log_Nat"
begin

text \<open>
  The C type \<^verbatim>\<open>double\<close>. Every amount of money in the program is a \<^verbatim>\<open>double\<close>, so the wallet
  guards are IEEE comparisons and the balances IEEE sums. A finite binary64 value is an integer
  multiple of \<open>2 ^ -1074\<close> (the smallest subnormal); \<open>Fin n\<close> is the value \<open>n * 2 ^ -1074\<close>.
  The sum of two finite values is the exact sum rounded to 53 significant bits, to nearest, ties
  to even, and overflows to an infinity from \<open>2 ^ 1024\<close> on. The sign of a zero is not
  represented: no comparison of the program can see it.

  \<open>rs n\<close> is the value \<open>n\<close> (whole rupees); sums and comparisons of such values are exact
  below \<open>2 ^ 53\<close>, which is what the functional results about money use.
\<close>

datatype dbl = NaN | PInf | MInf | Fin int

fun is_finite :: "dbl \<Rightarrow> bool" where
  "is_finite (Fin n) = True"
| "is_finite _ = False"

section \<open>Rounding\<close>

definition one :: int where
  \<comment> \<open>the value 1 as a multiple of the smallest subnormal\<close>
  "one = 2 ^ 1074"

definition overflow :: int where
  \<comment> \<open>\<open>2 ^ 1024\<close>, the first magnitude that rounds to an infinity\<close>
  "overflow = 2 ^ 1024 * one"

definition rne :: "nat \<Rightarrow> int \<Rightarrow> int" where
  \<comment> \<open>the multiple of \<open>2 ^ e\<close> nearest to \<open>n\<close>, the even multiple on a tie\<close>
  "rne e n =
     (let q = n div 2 ^ e; r = n mod 2 ^ e
      in (if 2 * r < 2 ^ e \<or> 2 * r = 2 ^ e \<and> even q then q else q + 1) * 2 ^ e)"

definition excess :: "int \<Rightarrow> nat" where
  \<comment> \<open>how many low bits of \<open>n\<close> do not fit into 53 significant bits\<close>
  "excess n = nat (bitlen \<bar>n\<bar> - 53)"

definition round_dbl :: "int \<Rightarrow> dbl" where
  "round_dbl n =
     (let m = rne (excess n) n
      in if overflow \<le> m then PInf else if m \<le> - overflow then MInf else Fin m)"

instantiation dbl :: "{zero, plus, uminus, minus, ord}"
begin

definition zero_dbl :: dbl where
  "zero_dbl = Fin 0"

fun plus_dbl :: "dbl \<Rightarrow> dbl \<Rightarrow> dbl" where
  "plus_dbl (Fin a) (Fin b) = round_dbl (a + b)"
| "plus_dbl NaN _ = NaN"
| "plus_dbl _ NaN = NaN"
| "plus_dbl PInf MInf = NaN"
| "plus_dbl MInf PInf = NaN"
| "plus_dbl PInf _ = PInf"
| "plus_dbl _ PInf = PInf"
| "plus_dbl MInf _ = MInf"
| "plus_dbl _ MInf = MInf"

fun uminus_dbl :: "dbl \<Rightarrow> dbl" where
  "uminus_dbl NaN = NaN"
| "uminus_dbl PInf = MInf"
| "uminus_dbl MInf = PInf"
| "uminus_dbl (Fin a) = Fin (- a)"

definition minus_dbl :: "dbl \<Rightarrow> dbl \<Rightarrow> dbl" where
  "minus_dbl x y = x + (- y)"

fun less_eq_dbl :: "dbl \<Rightarrow> dbl \<Rightarrow> bool" where
  "less_eq_dbl NaN _ = False"
| "less_eq_dbl _ NaN = False"
| "less_eq_dbl MInf _ = True"
| "less_eq_dbl _ PInf = True"
| "less_eq_dbl (Fin a) (Fin b) = (a \<le> b)"
| "less_eq_dbl _ _ = False"

fun less_dbl :: "dbl \<Rightarrow> dbl \<Rightarrow> bool" where
  "less_dbl NaN _ = False"
| "less_dbl _ NaN = False"
| "less_dbl MInf y = (y \<noteq> MInf)"
| "less_dbl x PInf = (x \<noteq> PInf)"
| "less_dbl (Fin a) (Fin b) = (a < b)"
| "less_dbl _ _ = False"

instance ..

end

definition dbl_eq :: "dbl \<Rightarrow> dbl \<Rightarrow> bool" where
  \<comment> \<open>the C operator \<^verbatim>\<open>==\<close>\<close>
  "dbl_eq x y \<longleftrightarrow> x \<le> y \<and> y \<le> x"

definition rs :: "int \<Rightarrow> dbl" where
  "rs n = Fin (n * one)"

section \<open>Comparisons\<close>

lemma dbl_not_less: "x \<noteq> NaN \<Longrightarrow> y \<noteq> NaN \<Longrightarrow> (\<not> x < y) \<longleftrightarrow> y \<le> (x::dbl)"
  by (cases x; cases y) auto

lemma dbl_not_le: "x \<noteq> NaN \<Longrightarrow> y \<noteq> NaN \<Longrightarrow> (\<not> x \<le> y) \<longleftrightarrow> y < (x::dbl)"
  by (cases x; cases y) auto

lemma dbl_le_refl: "x \<le> (x::dbl) \<longleftrightarrow> x \<noteq> NaN"
  by (cases x) auto

lemma dbl_le_trans: "x \<le> y \<Longrightarrow> y \<le> z \<Longrightarrow> x \<le> (z::dbl)"
  by (cases x; cases y; cases z) auto

lemma dbl_less_imp_le: "x < y \<Longrightarrow> x \<le> (y::dbl)"
  by (cases x; cases y) auto

lemma dbl_le_less_trans: "x \<le> y \<Longrightarrow> y < z \<Longrightarrow> x < (z::dbl)"
  by (cases x; cases y; cases z) auto

lemma dbl_less_le_trans: "x < y \<Longrightarrow> y \<le> z \<Longrightarrow> x < (z::dbl)"
  by (cases x; cases y; cases z) auto

lemma dbl_less_trans: "x < y \<Longrightarrow> y < z \<Longrightarrow> x < (z::dbl)"
  by (cases x; cases y; cases z) auto

lemma dbl_less_irrefl [simp]: "\<not> x < (x::dbl)"
  by (cases x) auto

lemma NaN_compare [simp]:
  "\<not> NaN < x" "\<not> x < NaN" "\<not> NaN \<le> x" "\<not> x \<le> NaN"
  by (cases x; simp)+

lemma NaN_add [simp]: "NaN + x = NaN" "x + NaN = NaN"
  by (cases x; simp)+

lemma dbl_le_not_NaN: "x \<le> (y::dbl) \<Longrightarrow> x \<noteq> NaN \<and> y \<noteq> NaN"
  by (cases x; cases y) auto

lemma is_finite_uminus [simp]: "is_finite (- x) = is_finite x"
  by (cases x) auto

lemma is_finite_not_NaN: "is_finite x \<Longrightarrow> x \<noteq> NaN"
  by (cases x) auto

lemma is_finite_zero [simp]: "is_finite (0::dbl)"
  by (simp add: zero_dbl_def)

lemma round_not_NaN [simp]: "round_dbl n \<noteq> NaN"
  by (simp add: round_dbl_def Let_def)

lemma plus_finite_not_NaN: "x \<noteq> NaN \<Longrightarrow> is_finite d \<Longrightarrow> x + d \<noteq> NaN"
  by (cases x; cases d) auto

section \<open>Exactness\<close>

lemma rne_dvd: "2 ^ e dvd n \<Longrightarrow> rne e n = n"
  by (auto simp: rne_def Let_def)

lemma rne_0 [simp]: "rne 0 n = n"
  by (rule rne_dvd) simp

lemma excess_small: "\<bar>n\<bar> < 2 ^ 53 \<Longrightarrow> excess n = 0"
proof -
  assume "\<bar>n\<bar> < 2 ^ 53"
  then have "bitlen \<bar>n\<bar> \<le> 53"
    by (simp add: bitlen_le_iff_power)
  then show ?thesis by (simp add: excess_def)
qed

lemma excess_scaled:
  assumes "\<bar>k\<bar> < 2 ^ 53"
  shows "excess (k * 2 ^ s) \<le> s"
proof -
  have "\<bar>k * 2 ^ s\<bar> < 2 ^ 53 * 2 ^ s"
    using assms by (simp add: abs_mult)
  then have "\<bar>k * 2 ^ s\<bar> < 2 ^ nat (53 + int s)"
    by (simp add: power_add nat_add_distrib)
  then have "bitlen \<bar>k * 2 ^ s\<bar> \<le> 53 + int s"
    by (simp add: bitlen_le_iff_power)
  then show ?thesis by (simp add: excess_def)
qed

lemma round_scaled:
  assumes "\<bar>k\<bar> < 2 ^ 53" and "\<bar>k * 2 ^ s\<bar> < overflow"
  shows "round_dbl (k * 2 ^ s) = Fin (k * 2 ^ s)"
proof -
  have "(2::int) ^ excess (k * 2 ^ s) dvd k * 2 ^ s"
    using excess_scaled [OF assms(1)] by (simp add: dvd_mult le_imp_power_dvd)
  then have "rne (excess (k * 2 ^ s)) (k * 2 ^ s) = k * 2 ^ s"
    by (rule rne_dvd)
  then show ?thesis
    using assms(2) by (auto simp: round_dbl_def Let_def abs_less_iff)
qed

lemma one_pos [simp]: "0 < one"
  unfolding one_def by (rule zero_less_power) simp

lemma one_facts [simp]: "one \<noteq> 0" "0 \<le> one" "\<not> one \<le> 0" "\<not> one < 0" "\<bar>one\<bar> = one"
  using one_pos by linarith+

lemma one_bound:
  assumes "\<bar>k\<bar> < 2 ^ 53"
  shows "\<bar>k * one\<bar> < overflow"
proof -
  have "(2::int) ^ 53 \<le> 2 ^ 1024" by (rule power_increasing) simp_all
  with assms have "\<bar>k\<bar> < 2 ^ 1024" by (rule less_le_trans)
  then have "\<bar>k\<bar> * one < 2 ^ 1024 * one" by (rule mult_strict_right_mono) simp
  then show ?thesis
    by (simp only: abs_mult overflow_def one_facts)
qed

lemma round_rs: "\<bar>k\<bar> < 2 ^ 53 \<Longrightarrow> round_dbl (k * one) = rs k"
  using round_scaled [of k 1074] one_bound [of k]
  by (metis one_def rs_def)

lemma zero_rs: "(0::dbl) = rs 0"
  by (simp add: rs_def zero_dbl_def)

lemma rs_uminus [simp]: "- rs a = rs (- a)"
  by (simp add: rs_def)

lemma rs_add: "\<bar>a + b\<bar> < 2 ^ 53 \<Longrightarrow> rs a + rs b = rs (a + b)"
  by (simp add: rs_def distrib_right [symmetric] round_rs)

lemma rs_minus: "\<bar>a - b\<bar> < 2 ^ 53 \<Longrightarrow> rs a - rs b = rs (a - b)"
  using rs_add [of a "- b"] by (simp add: minus_dbl_def)

lemma rs_le [simp]: "rs a \<le> rs b \<longleftrightarrow> a \<le> b"
  by (simp add: rs_def mult_le_cancel_right)

lemma rs_less [simp]: "rs a < rs b \<longleftrightarrow> a < b"
  by (simp add: rs_def mult_less_cancel_right)

lemma rs_inject [simp]: "rs a = rs b \<longleftrightarrow> a = b"
  by (simp add: rs_def)

lemma rs_finite [simp]: "is_finite (rs a)"
  by (simp add: rs_def)

lemma rs_not_NaN [simp]: "rs a \<noteq> NaN" "NaN \<noteq> rs a"
  by (simp_all add: rs_def)

lemma rs_zero_compare [simp]:
  "rs a \<le> 0 \<longleftrightarrow> a \<le> 0" "rs a < 0 \<longleftrightarrow> a < 0" "0 \<le> rs a \<longleftrightarrow> 0 \<le> a" "0 < rs a \<longleftrightarrow> 0 < a"
  by (simp_all add: zero_rs)

lemma rs_eq_zero [simp]: "dbl_eq (rs a) 0 \<longleftrightarrow> a = 0"
  by (auto simp: dbl_eq_def)

lemma rs_add_zero [simp]: "\<bar>a\<bar> < 2 ^ 53 \<Longrightarrow> rs a + 0 = rs a"
  using rs_add [of a 0] by (simp add: zero_rs)

end
