(* ===== verification/Models.thy ===== *)
theory Models
  imports Binary64
begin

text \<open>
  The data of \<^verbatim>\<open>common/models.h\<close>: the six record types stored in the data files, the enums,
  the message header and the error codes. A field that two structs share carries a prefix here
  (Isabelle field names are global). Flags that the code uses as truth values are \<open>bool\<close>;
  \<^verbatim>\<open>time_t\<close> and \<^verbatim>\<open>bid_count\<close> are unbounded integers.

  An enum whose values arrive from the network unchecked (\<open>Role\<close>, \<open>AccountStatus\<close>,
  \<open>DisputeStatus\<close>) keeps its C representation, an unsigned 32-bit integer with named values:
  a client can send a value outside the enumeration. Only the server writes an auction's status,
  so that one is a datatype.
\<close>

section \<open>Sizes\<close>

definition MAX_USERNAME :: nat where "MAX_USERNAME = 32"
definition MAX_PASSWORD :: nat where "MAX_PASSWORD = 64"
definition MAX_NAME :: nat where "MAX_NAME = 64"
definition MAX_DESC :: nat where "MAX_DESC = 256"
definition MAX_ITEM_NAME :: nat where "MAX_ITEM_NAME = 64"
definition MAX_FEEDBACK :: nat where "MAX_FEEDBACK = 256"
definition MAX_SESSIONS :: nat where "MAX_SESSIONS = 64"

section \<open>Enums\<close>

type_synonym Role = u32

definition ROLE_BIDDER :: Role where "ROLE_BIDDER = 0"
definition ROLE_AUCTIONEER :: Role where "ROLE_AUCTIONEER = 1"
definition ROLE_MODERATOR :: Role where "ROLE_MODERATOR = 2"
definition ROLE_ADMIN :: Role where "ROLE_ADMIN = 3"

lemmas role_defs = ROLE_BIDDER_def ROLE_AUCTIONEER_def ROLE_MODERATOR_def ROLE_ADMIN_def

type_synonym AccountStatus = u32

definition ACCOUNT_ACTIVE :: AccountStatus where "ACCOUNT_ACTIVE = 0"
definition ACCOUNT_INACTIVE :: AccountStatus where "ACCOUNT_INACTIVE = 1"
definition ACCOUNT_BANNED :: AccountStatus where "ACCOUNT_BANNED = 2"

lemmas account_defs = ACCOUNT_ACTIVE_def ACCOUNT_INACTIVE_def ACCOUNT_BANNED_def

datatype AuctionStatus =
    AUCTION_PENDING | AUCTION_OPEN | AUCTION_CLOSED | AUCTION_DISPUTED | AUCTION_CANCELLED

type_synonym DisputeStatus = u32

definition DISPUTE_OPEN :: DisputeStatus where "DISPUTE_OPEN = 0"
definition DISPUTE_RESOLVED :: DisputeStatus where "DISPUTE_RESOLVED = 1"
definition DISPUTE_REJECTED :: DisputeStatus where "DISPUTE_REJECTED = 2"

lemmas dispute_defs = DISPUTE_OPEN_def DISPUTE_RESOLVED_def DISPUTE_REJECTED_def

lemma role_distinct [simp]:
  "ROLE_BIDDER \<noteq> ROLE_ADMIN" "ROLE_AUCTIONEER \<noteq> ROLE_ADMIN" "ROLE_MODERATOR \<noteq> ROLE_ADMIN"
  "ROLE_BIDDER \<noteq> ROLE_AUCTIONEER" "ROLE_BIDDER \<noteq> ROLE_MODERATOR"
  "ROLE_AUCTIONEER \<noteq> ROLE_MODERATOR"
  by (simp_all add: role_defs)

lemma account_distinct [simp]:
  "ACCOUNT_ACTIVE \<noteq> ACCOUNT_INACTIVE" "ACCOUNT_ACTIVE \<noteq> ACCOUNT_BANNED"
  "ACCOUNT_INACTIVE \<noteq> ACCOUNT_ACTIVE" "ACCOUNT_BANNED \<noteq> ACCOUNT_ACTIVE"
  "ACCOUNT_INACTIVE \<noteq> ACCOUNT_BANNED" "ACCOUNT_BANNED \<noteq> ACCOUNT_INACTIVE"
  by (simp_all add: account_defs)

lemma dispute_distinct [simp]:
  "DISPUTE_OPEN \<noteq> DISPUTE_RESOLVED" "DISPUTE_OPEN \<noteq> DISPUTE_REJECTED"
  "DISPUTE_RESOLVED \<noteq> DISPUTE_OPEN" "DISPUTE_REJECTED \<noteq> DISPUTE_OPEN"
  "DISPUTE_RESOLVED \<noteq> DISPUTE_REJECTED" "DISPUTE_REJECTED \<noteq> DISPUTE_RESOLVED"
  by (simp_all add: dispute_defs)

section \<open>Stored records\<close>

type_synonym time_t = int

record User =
  user_id :: u32
  username :: "char list"
  password :: "char list"
  full_name :: "char list"
  role :: Role
  acct_status :: AccountStatus
  wallet_balance :: dbl
  wallet_hold :: dbl
  created_at :: time_t
  last_login :: time_t
  user_deleted :: bool

record Auction =
  auction_id :: u32
  item_name :: "char list"
  description :: "char list"
  seller_id :: u32
  start_price :: dbl
  reserve_price :: dbl
  current_bid :: dbl
  highest_bidder_id :: u32
  auction_status :: AuctionStatus
  start_time :: time_t
  end_time :: time_t
  bid_count :: int
  auction_deleted :: bool

record Bid =
  bid_id :: u32
  bid_auction_id :: u32
  bidder_id :: u32
  bid_amount :: dbl
  placed_at :: time_t
  is_winning :: bool

record Session =
  session_user_id :: u32
  session_fd :: int
  login_time :: time_t
  is_active :: bool

record Feedback =
  feedback_id :: u32
  from_user_id :: u32
  about_auction_id :: u32
  feedback_message :: "char list"
  submitted_at :: time_t
  reviewed :: bool

record Dispute =
  dispute_id :: u32
  dispute_auction_id :: u32
  raised_by_user_id :: u32
  resolved_by_user_id :: u32
  reason :: "char list"
  resolution :: "char list"
  dispute_status :: DisputeStatus
  raised_at :: time_t
  resolved_at :: time_t

text \<open>Zero-filled records: the result of \<^verbatim>\<open>memset(&r, 0, sizeof r)\<close> and the contents of a hole in
  a data file.\<close>

definition zero_User :: User where
  "zero_User =
     \<lparr>user_id = 0, username = replicate MAX_USERNAME NUL, password = replicate MAX_PASSWORD NUL,
      full_name = replicate MAX_NAME NUL, role = 0, acct_status = 0, wallet_balance = 0,
      wallet_hold = 0, created_at = 0, last_login = 0, user_deleted = False\<rparr>"

definition zero_Auction :: Auction where
  "zero_Auction =
     \<lparr>auction_id = 0, item_name = replicate MAX_ITEM_NAME NUL, description = replicate MAX_DESC NUL,
      seller_id = 0, start_price = 0, reserve_price = 0, current_bid = 0, highest_bidder_id = 0,
      auction_status = AUCTION_PENDING, start_time = 0, end_time = 0, bid_count = 0,
      auction_deleted = False\<rparr>"

definition zero_Session :: Session where
  "zero_Session = \<lparr>session_user_id = 0, session_fd = 0, login_time = 0, is_active = False\<rparr>"

definition zero_Dispute :: Dispute where
  "zero_Dispute =
     \<lparr>dispute_id = 0, dispute_auction_id = 0, raised_by_user_id = 0, resolved_by_user_id = 0,
      reason = replicate MAX_DESC NUL, resolution = replicate MAX_DESC NUL, dispute_status = 0,
      raised_at = 0, resolved_at = 0\<rparr>"

section \<open>Messages\<close>

datatype (plugins only: code size) MessageType =
    MSG_LOGIN_REQ | MSG_LOGIN_RESP | MSG_LOGOUT_REQ | MSG_LOGOUT_RESP
  | MSG_CHANGE_PASS_REQ | MSG_CHANGE_PASS_RESP
  | MSG_VIEW_AUCTIONS_REQ | MSG_VIEW_AUCTIONS_RESP | MSG_PLACE_BID_REQ | MSG_PLACE_BID_RESP
  | MSG_VIEW_BALANCE_REQ | MSG_VIEW_BALANCE_RESP | MSG_DEPOSIT_REQ | MSG_DEPOSIT_RESP
  | MSG_VIEW_MY_BIDS_REQ | MSG_VIEW_MY_BIDS_RESP
  | MSG_SUBMIT_FEEDBACK_REQ | MSG_SUBMIT_FEEDBACK_RESP
  | MSG_FILE_DISPUTE_REQ | MSG_FILE_DISPUTE_RESP
  | MSG_CREATE_AUCTION_REQ | MSG_CREATE_AUCTION_RESP
  | MSG_CLOSE_AUCTION_REQ | MSG_CLOSE_AUCTION_RESP
  | MSG_VIEW_DISPUTES_REQ | MSG_VIEW_DISPUTES_RESP
  | MSG_RESOLVE_DISPUTE_REQ | MSG_RESOLVE_DISPUTE_RESP
  | MSG_VIEW_FEEDBACK_REQ | MSG_VIEW_FEEDBACK_RESP
  | MSG_TOGGLE_ACCOUNT_REQ | MSG_TOGGLE_ACCOUNT_RESP
  | MSG_ADD_USER_REQ | MSG_ADD_USER_RESP | MSG_LIST_USERS_REQ | MSG_LIST_USERS_RESP
  | MSG_CHANGE_ROLE_REQ | MSG_CHANGE_ROLE_RESP
  | MSG_NOTIFY_OUTBID | MSG_NOTIFY_AUCTION_WON | MSG_NOTIFY_AUCTION_CLOSED
  | MSG_ERROR

datatype err =
    ERR_OK | ERR_AUTH_FAIL | ERR_ALREADY_LOGGED | ERR_PERMISSION | ERR_NOT_FOUND
  | ERR_BID_TOO_LOW | ERR_INSUFFICIENT | ERR_AUCTION_CLOSED | ERR_ACCOUNT_BANNED | ERR_INTERNAL

fun err_code :: "err \<Rightarrow> int" where
  "err_code ERR_OK = 0"
| "err_code ERR_AUTH_FAIL = 1"
| "err_code ERR_ALREADY_LOGGED = 2"
| "err_code ERR_PERMISSION = 3"
| "err_code ERR_NOT_FOUND = 4"
| "err_code ERR_BID_TOO_LOW = 5"
| "err_code ERR_INSUFFICIENT = 6"
| "err_code ERR_AUCTION_CLOSED = 7"
| "err_code ERR_ACCOUNT_BANNED = 8"
| "err_code ERR_INTERNAL = 99"

text \<open>The payloads that follow a header; an array of records is a list.\<close>

datatype payload =
    P_None
  | P_User User | P_Users "User list"
  | P_Auction Auction | P_Auctions "Auction list"
  | P_Bid Bid | P_Bids "Bid list"
  | P_Dispute Dispute | P_Disputes "Dispute list"
  | P_Feedbacks "Feedback list"
  | P_Outbid u32 dbl | P_AuctionWon u32 dbl | P_AuctionClosed u32

record message =
  msg_type :: MessageType
  msg_status :: err
  msg_payload :: payload

end
