(* ===== verification/File_IO.thy ===== *)
theory File_IO
  imports Models
begin

text \<open>
  \<^verbatim>\<open>common/file_io.h\<close>: the data files and their record operations, and the state of the server
  process that every operation works on.

  A data file of fixed-size records is \<open>None\<close> while it does not exist and otherwise the list of
  its records. \<^verbatim>\<open>open\<close> for writing succeeds when the file is \<open>writable\<close> (a fact about the file
  system that the program does not change) and creates it with \<^verbatim>\<open>O_CREAT\<close>; \<^verbatim>\<open>open\<close> for reading
  succeeds when the file exists. A \<^verbatim>\<open>write\<close> past the end leaves a hole of zero bytes. Short
  writes (a full disk) are in \<open>File_Bytes\<close>. Every function here runs under its file's mutex, so it
  is one atomic step on the state.
\<close>

datatype dbfile =
    FILE_USERS | FILE_AUCTIONS | FILE_BIDS | FILE_SESSIONS | FILE_FEEDBACK | FILE_DISPUTES
  | FILE_TXN_LOG

text \<open>The lines of the transaction log, one constructor per format string. The time stamp that
  \<^verbatim>\<open>log_txn\<close> puts in front is kept beside the entry.\<close>

datatype log_msg =
    L_LOGIN u32 "char list" | L_LOGOUT u32 | L_CHANGE_PASS u32
  | L_CREATE_AUCTION u32 u32 "char list" time_t | L_CLOSE_AUCTION u32 u32
  | L_WAL_SETTLE u32 u32 u32 dbl | L_TIMER_CLOSE u32
  | L_BID u32 u32 dbl
  | L_HOLD u32 dbl | L_RELEASE u32 dbl | L_SETTLE u32 dbl | L_CREDIT u32 dbl
  | L_FILE_DISPUTE u32 u32 u32 | L_WAL_REFUND u32 u32 u32 u32 dbl | L_REFUND_ANOMALY
  | L_RESOLVE_DISPUTE u32 DisputeStatus u32 | L_TOGGLE_ACCOUNT u32 AccountStatus u32
  | L_ADD_USER u32 "char list" Role | L_CHANGE_ROLE u32 Role Role
  | L_SOFT_DELETE u32 | L_MODIFY_USER u32

record RegistryEntry =
  reg_user_id :: u32
  reg_fd :: int
  reg_active :: bool

record world =
  users_file :: "User list option"
  auctions_file :: "Auction list option"
  bids_file :: "Bid list option"
  sessions_file :: "Session list option"
  feedback_file :: "Feedback list option"
  disputes_file :: "Dispute list option"
  txn_log :: "(time_t \<times> log_msg) list"
  writable :: "dbfile \<Rightarrow> bool"
  registry :: "RegistryEntry list"
  sent :: "(int \<times> message) list"
  now :: time_t

section \<open>Files of records\<close>

definition records :: "'r list option \<Rightarrow> 'r list" where
  \<comment> \<open>what a loop of \<^verbatim>\<open>read\<close>s from the start of the file sees\<close>
  "records f = (case f of None \<Rightarrow> [] | Some xs \<Rightarrow> xs)"

definition rec_read :: "nat \<Rightarrow> 'r list option \<Rightarrow> 'r option" where
  \<comment> \<open>\<^verbatim>\<open>open\<close>, \<^verbatim>\<open>lseek\<close> to record \<open>k\<close>, \<^verbatim>\<open>read\<close>\<close>
  "rec_read k f = (if k < length (records f) then Some (records f ! k) else None)"

definition rec_write :: "'r \<Rightarrow> nat \<Rightarrow> 'r \<Rightarrow> 'r list option \<Rightarrow> 'r list option" where
  \<comment> \<open>\<^verbatim>\<open>open\<close> with \<^verbatim>\<open>O_CREAT\<close>, \<^verbatim>\<open>lseek\<close> to record \<open>k\<close>, \<^verbatim>\<open>write\<close>\<close>
  "rec_write zero k r f =
     (let xs = records f
      in Some (if k < length xs then xs[k := r] else xs @ replicate (k - length xs) zero @ [r]))"

definition rec_append :: "'r \<Rightarrow> 'r list option \<Rightarrow> 'r list option" where
  "rec_append r f = Some (records f @ [r])"

definition next_id :: "'r list option \<Rightarrow> u32" where
  \<comment> \<open>one more than the number of records, in 32 bits\<close>
  "next_id f = (if records f = [] then 1 else word_of_nat (length (records f)) + 1)"

section \<open>Users\<close>

definition write_user :: "User \<Rightarrow> world \<Rightarrow> int \<times> world" where
  "write_user u w =
     (if \<not> writable w FILE_USERS then (-1, w)
      else (0, w\<lparr>users_file := rec_write zero_User (slot_of (user_id u)) u (users_file w)\<rparr>))"

definition read_user :: "u32 \<Rightarrow> world \<Rightarrow> User option" where
  \<comment> \<open>\<open>None\<close> is the return value -1, \<open>Some u\<close> is 0 with \<open>*out = u\<close>\<close>
  "read_user i w = rec_read (slot_of i) (users_file w)"

definition find_user_by_username :: "char list \<Rightarrow> world \<Rightarrow> User option" where
  "find_user_by_username name w =
     find (\<lambda>u. \<not> user_deleted u \<and> strncmp_eq (username u) name MAX_USERNAME)
       (records (users_file w))"

definition next_user_id :: "world \<Rightarrow> u32" where
  "next_user_id w = next_id (users_file w)"

section \<open>Auctions\<close>

definition write_auction :: "Auction \<Rightarrow> world \<Rightarrow> int \<times> world" where
  "write_auction a w =
     (if \<not> writable w FILE_AUCTIONS then (-1, w)
      else (0, w\<lparr>auctions_file :=
                 rec_write zero_Auction (slot_of (auction_id a)) a (auctions_file w)\<rparr>))"

definition read_auction :: "u32 \<Rightarrow> world \<Rightarrow> Auction option" where
  "read_auction i w = rec_read (slot_of i) (auctions_file w)"

definition next_auction_id :: "world \<Rightarrow> u32" where
  "next_auction_id w = next_id (auctions_file w)"

section \<open>Bids and feedback: append-only files\<close>

definition append_bid :: "Bid \<Rightarrow> world \<Rightarrow> int \<times> world" where
  "append_bid b w =
     (if \<not> writable w FILE_BIDS then (-1, w)
      else (0, w\<lparr>bids_file := rec_append b (bids_file w)\<rparr>))"

definition next_bid_id :: "world \<Rightarrow> u32" where
  "next_bid_id w = next_id (bids_file w)"

definition append_feedback :: "Feedback \<Rightarrow> world \<Rightarrow> int \<times> world" where
  "append_feedback f w =
     (if \<not> writable w FILE_FEEDBACK then (-1, w)
      else (0, w\<lparr>feedback_file := rec_append f (feedback_file w)\<rparr>))"

section \<open>Sessions\<close>

definition write_session :: "int \<Rightarrow> Session \<Rightarrow> world \<Rightarrow> int \<times> world" where
  "write_session slot s w =
     (if \<not> writable w FILE_SESSIONS then (-1, w)
      else (0, w\<lparr>sessions_file := rec_write zero_Session (nat slot) s (sessions_file w)\<rparr>))"

fun session_slot_loop :: "u32 \<Rightarrow> int \<Rightarrow> Session list \<Rightarrow> int" where
  \<comment> \<open>the \<^verbatim>\<open>while (read(...))\<close> loop with its counter \<^verbatim>\<open>slot\<close>\<close>
  "session_slot_loop uid slot [] = -1"
| "session_slot_loop uid slot (s # ss) =
     (if is_active s \<and> session_user_id s = uid then slot
      else session_slot_loop uid (slot + 1) ss)"

definition find_session_slot :: "u32 \<Rightarrow> world \<Rightarrow> int" where
  "find_session_slot uid w = session_slot_loop uid 0 (records (sessions_file w))"

fun free_slot_loop :: "int \<Rightarrow> Session list \<Rightarrow> int \<times> int" where
  \<comment> \<open>the pair of \<^verbatim>\<open>found\<close> and \<^verbatim>\<open>slot\<close> when the loop ends\<close>
  "free_slot_loop slot [] = (-1, slot)"
| "free_slot_loop slot (s # ss) =
     (if slot < int MAX_SESSIONS
      then (if \<not> is_active s then (slot, slot) else free_slot_loop (slot + 1) ss)
      else (-1, slot))"

definition find_free_slot :: "world \<Rightarrow> int \<times> world" where
  \<comment> \<open>the file is opened with \<^verbatim>\<open>O_CREAT\<close>, so it exists afterwards\<close>
  "find_free_slot w =
     (if \<not> writable w FILE_SESSIONS then (0, w)
      else let (found, slot) = free_slot_loop 0 (records (sessions_file w))
           in (if 0 \<le> found then found else if slot < int MAX_SESSIONS then slot else -1,
               w\<lparr>sessions_file := Some (records (sessions_file w))\<rparr>))"

section \<open>Disputes and the log\<close>

definition write_dispute :: "Dispute \<Rightarrow> world \<Rightarrow> int \<times> world" where
  "write_dispute d w =
     (if \<not> writable w FILE_DISPUTES then (-1, w)
      else (0, w\<lparr>disputes_file :=
                 rec_write zero_Dispute (slot_of (dispute_id d)) d (disputes_file w)\<rparr>))"

definition read_dispute :: "u32 \<Rightarrow> world \<Rightarrow> Dispute option" where
  "read_dispute i w = rec_read (slot_of i) (disputes_file w)"

definition next_dispute_id :: "world \<Rightarrow> u32" where
  "next_dispute_id w = next_id (disputes_file w)"

definition log_txn :: "log_msg \<Rightarrow> world \<Rightarrow> world" where
  "log_txn m w =
     (if \<not> writable w FILE_TXN_LOG then w else w\<lparr>txn_log := txn_log w @ [(now w, m)]\<rparr>)"

definition send_msg :: "int \<Rightarrow> MessageType \<Rightarrow> err \<Rightarrow> payload \<Rightarrow> world \<Rightarrow> world" where
  \<comment> \<open>\<^verbatim>\<open>send_msg\<close> of \<^verbatim>\<open>server/server.c\<close>: header and payload go out on \<open>fd\<close>; every handler
    ignores its result\<close>
  "send_msg fd t e p w =
     w\<lparr>sent := sent w @ [(fd, \<lparr>msg_type = t, msg_status = e, msg_payload = p\<rparr>)]\<rparr>"

section \<open>Reading after writing\<close>

lemma records_simps [simp]: "records None = []" "records (Some xs) = xs"
  by (simp_all add: records_def)

lemma rec_read_Some: "rec_read k f = Some r \<longleftrightarrow> k < length (records f) \<and> records f ! k = r"
  by (auto simp: rec_read_def)

lemma length_rec_write: "length (records (rec_write z k r f)) = max (Suc k) (length (records f))"
  by (simp add: rec_write_def Let_def)

lemma nth_rec_write: "records (rec_write z k r f) ! k = r"
  by (simp add: rec_write_def Let_def nth_append)

lemma records_write_existing:
  "k < length (records f) \<Longrightarrow> records (rec_write z k r f) = (records f)[k := r]"
  by (simp add: rec_write_def Let_def)

lemma records_write_end:
  "k = length (records f) \<Longrightarrow> records (rec_write z k r f) = records f @ [r]"
  by (simp add: rec_write_def Let_def)

lemma records_append [simp]: "records (rec_append r f) = records f @ [r]"
  by (simp add: rec_append_def)

lemma next_id_word: "next_id f = word_of_nat (length (records f)) + 1"
  by (simp add: next_id_def)

section \<open>The interface of an id-addressed file\<close>

definition numbered :: "('r \<Rightarrow> u32) \<Rightarrow> 'r list \<Rightarrow> bool" where
  \<comment> \<open>record \<open>k\<close> carries the identifier that addresses it, and no identifier wraps around\<close>
  "numbered ident xs \<longleftrightarrow>
     length xs < 2 ^ 32 \<and> (\<forall>k < length xs. ident (xs ! k) = word_of_nat k + 1)"

text \<open>
  Three files (users, auctions, disputes) are addressed by record number through a read, a write
  and a next-identifier function. The other components rely on the following contract only.
\<close>

locale record_table =
  fixes ident :: "'r \<Rightarrow> u32"
    and rd :: "u32 \<Rightarrow> world \<Rightarrow> 'r option"
    and wr :: "'r \<Rightarrow> world \<Rightarrow> int \<times> world"
    and fresh :: "world \<Rightarrow> u32"
    and ok :: "world \<Rightarrow> bool"
    and rows :: "world \<Rightarrow> 'r list"
  assumes wr_status: "fst (wr r w) = (if ok w then 0 else -1)"
    and wr_fail: "\<not> ok w \<Longrightarrow> snd (wr r w) = w"
    and ok_wr: "ok (snd (wr r w)) = ok w"
    and rd_rows: "rd i w = (if slot_of i < length (rows w) then Some (rows w ! slot_of i) else None)"
    and rd_same: "ok w \<Longrightarrow> rd (ident r) (snd (wr r w)) = Some r"
    and rows_existing:
      "ok w \<Longrightarrow> slot_of (ident r) < length (rows w) \<Longrightarrow>
       rows (snd (wr r w)) = (rows w)[slot_of (ident r) := r]"
    and rows_fresh:
      "ok w \<Longrightarrow> ident r = fresh w \<Longrightarrow> length (rows w) < 2 ^ 32 \<Longrightarrow>
       rows (snd (wr r w)) = rows w @ [r]"
    and fresh_def: "fresh w = word_of_nat (length (rows w)) + 1"
begin

lemma rd_Some: "rd i w = Some r \<longleftrightarrow> slot_of i < length (rows w) \<and> rows w ! slot_of i = r"
  by (auto simp: rd_rows)

lemma rd_mem: "rd i w = Some r \<Longrightarrow> r \<in> set (rows w)"
  by (auto simp: rd_Some)

lemma rd_all: "list_all P (rows w) \<Longrightarrow> rd i w = Some r \<Longrightarrow> P r"
  by (auto simp: list_all_iff dest: rd_mem)

lemma rd_ident: "numbered ident (rows w) \<Longrightarrow> rd i w = Some r \<Longrightarrow> ident r = i"
  by (auto simp: rd_Some numbered_def of_slot)

lemma rows_update:
  "rd i w = Some r \<Longrightarrow> ident r' = i \<Longrightarrow>
   rows (snd (wr r' w)) = (if ok w then (rows w)[slot_of i := r'] else rows w)"
  using rows_existing [of w r'] by (auto simp: rd_Some wr_fail)

lemma rd_update:
  "rd i w = Some r \<Longrightarrow> ident r' = i \<Longrightarrow>
   rd j (snd (wr r' w)) = (if ok w \<and> j = i then Some r' else rd j w)"
  by (auto simp: rd_rows [of j] rows_update rd_Some nth_list_update)

lemma numbered_update:
  "numbered ident (rows w) \<Longrightarrow> rd i w = Some r \<Longrightarrow> ident r' = i \<Longrightarrow>
   numbered ident (rows (snd (wr r' w)))"
proof -
  assume num: "numbered ident (rows w)" and rd: "rd i w = Some r" and id: "ident r' = i"
  have "ident ((rows w)[slot_of i := r'] ! k) = word_of_nat k + 1" if "k < length (rows w)" for k
    using num that id by (cases "k = slot_of i") (simp_all add: numbered_def of_slot)
  with num show ?thesis by (simp add: rows_update [OF rd id] numbered_def)
qed

lemma all_update:
  "list_all P (rows w) \<Longrightarrow> rd i w = Some r \<Longrightarrow> ident r' = i \<Longrightarrow> P r' \<Longrightarrow>
   list_all P (rows (snd (wr r' w)))"
  by (simp add: rows_update list_all_update)

lemma rows_create:
  "ident r = fresh w \<Longrightarrow> length (rows w) < 2 ^ 32 \<Longrightarrow>
   rows (snd (wr r w)) = (if ok w then rows w @ [r] else rows w)"
  by (simp add: rows_fresh wr_fail)

lemma numbered_create:
  "numbered ident (rows w) \<Longrightarrow> ident r = fresh w \<Longrightarrow> length (rows w) + 1 < 2 ^ 32 \<Longrightarrow>
   numbered ident (rows (snd (wr r w)))"
  by (auto simp: rows_create numbered_def nth_append fresh_def less_Suc_eq)

lemma rd_create_other:
  "ident r = fresh w \<Longrightarrow> length (rows w) < 2 ^ 32 \<Longrightarrow> rd i w = Some r' \<Longrightarrow>
   rd i (snd (wr r w)) = Some r'"
  by (auto simp: rd_Some rows_create nth_append)

lemma rd_create_same:
  "ok w \<Longrightarrow> ident r = fresh w \<Longrightarrow> rd (fresh w) (snd (wr r w)) = Some r"
  using rd_same [of w r] by simp

end

abbreviation users :: "world \<Rightarrow> User list" where
  "users w \<equiv> records (users_file w)"

abbreviation auctions :: "world \<Rightarrow> Auction list" where
  "auctions w \<equiv> records (auctions_file w)"

abbreviation bids :: "world \<Rightarrow> Bid list" where
  "bids w \<equiv> records (bids_file w)"

abbreviation sessions :: "world \<Rightarrow> Session list" where
  "sessions w \<equiv> records (sessions_file w)"

abbreviation disputes :: "world \<Rightarrow> Dispute list" where
  "disputes w \<equiv> records (disputes_file w)"

abbreviation feedbacks :: "world \<Rightarrow> Feedback list" where
  "feedbacks w \<equiv> records (feedback_file w)"

interpretation ut: record_table user_id read_user write_user next_user_id "\<lambda>w. writable w FILE_USERS" users
  by unfold_locales
    (auto simp: read_user_def write_user_def next_user_id_def rec_read_def length_rec_write nth_rec_write
      records_write_existing records_write_end next_id_word slot_of_Suc)

interpretation at: record_table auction_id read_auction write_auction next_auction_id "\<lambda>w. writable w FILE_AUCTIONS" auctions
  by unfold_locales
    (auto simp: read_auction_def write_auction_def next_auction_id_def rec_read_def length_rec_write nth_rec_write
      records_write_existing records_write_end next_id_word slot_of_Suc)

interpretation dt: record_table dispute_id read_dispute write_dispute next_dispute_id "\<lambda>w. writable w FILE_DISPUTES" disputes
  by unfold_locales
    (auto simp: read_dispute_def write_dispute_def next_dispute_id_def rec_read_def length_rec_write nth_rec_write
      records_write_existing records_write_end next_id_word slot_of_Suc)

section \<open>What each operation leaves untouched\<close>

lemma write_user_frame [simp, frame_simps]:
  "auctions_file (snd (write_user u w)) = auctions_file w"
  "bids_file (snd (write_user u w)) = bids_file w"
  "sessions_file (snd (write_user u w)) = sessions_file w"
  "feedback_file (snd (write_user u w)) = feedback_file w"
  "disputes_file (snd (write_user u w)) = disputes_file w"
  "txn_log (snd (write_user u w)) = txn_log w"
  "writable (snd (write_user u w)) = writable w"
  "registry (snd (write_user u w)) = registry w"
  "sent (snd (write_user u w)) = sent w"
  "now (snd (write_user u w)) = now w"
  by (simp_all add: write_user_def)

lemma write_auction_frame [simp, frame_simps]:
  "users_file (snd (write_auction a w)) = users_file w"
  "bids_file (snd (write_auction a w)) = bids_file w"
  "sessions_file (snd (write_auction a w)) = sessions_file w"
  "feedback_file (snd (write_auction a w)) = feedback_file w"
  "disputes_file (snd (write_auction a w)) = disputes_file w"
  "txn_log (snd (write_auction a w)) = txn_log w"
  "writable (snd (write_auction a w)) = writable w"
  "registry (snd (write_auction a w)) = registry w"
  "sent (snd (write_auction a w)) = sent w"
  "now (snd (write_auction a w)) = now w"
  by (simp_all add: write_auction_def)

lemma append_bid_frame [simp, frame_simps]:
  "users_file (snd (append_bid b w)) = users_file w"
  "auctions_file (snd (append_bid b w)) = auctions_file w"
  "sessions_file (snd (append_bid b w)) = sessions_file w"
  "feedback_file (snd (append_bid b w)) = feedback_file w"
  "disputes_file (snd (append_bid b w)) = disputes_file w"
  "txn_log (snd (append_bid b w)) = txn_log w"
  "writable (snd (append_bid b w)) = writable w"
  "registry (snd (append_bid b w)) = registry w"
  "sent (snd (append_bid b w)) = sent w"
  "now (snd (append_bid b w)) = now w"
  by (simp_all add: append_bid_def)

lemma append_feedback_frame [simp, frame_simps]:
  "users_file (snd (append_feedback f w)) = users_file w"
  "auctions_file (snd (append_feedback f w)) = auctions_file w"
  "bids_file (snd (append_feedback f w)) = bids_file w"
  "sessions_file (snd (append_feedback f w)) = sessions_file w"
  "disputes_file (snd (append_feedback f w)) = disputes_file w"
  "txn_log (snd (append_feedback f w)) = txn_log w"
  "writable (snd (append_feedback f w)) = writable w"
  "registry (snd (append_feedback f w)) = registry w"
  "sent (snd (append_feedback f w)) = sent w"
  "now (snd (append_feedback f w)) = now w"
  by (simp_all add: append_feedback_def)

lemma write_session_frame [simp, frame_simps]:
  "users_file (snd (write_session k s w)) = users_file w"
  "auctions_file (snd (write_session k s w)) = auctions_file w"
  "bids_file (snd (write_session k s w)) = bids_file w"
  "feedback_file (snd (write_session k s w)) = feedback_file w"
  "disputes_file (snd (write_session k s w)) = disputes_file w"
  "txn_log (snd (write_session k s w)) = txn_log w"
  "writable (snd (write_session k s w)) = writable w"
  "registry (snd (write_session k s w)) = registry w"
  "sent (snd (write_session k s w)) = sent w"
  "now (snd (write_session k s w)) = now w"
  by (simp_all add: write_session_def)

lemma find_free_slot_frame [simp, frame_simps]:
  "users_file (snd (find_free_slot w)) = users_file w"
  "auctions_file (snd (find_free_slot w)) = auctions_file w"
  "bids_file (snd (find_free_slot w)) = bids_file w"
  "feedback_file (snd (find_free_slot w)) = feedback_file w"
  "disputes_file (snd (find_free_slot w)) = disputes_file w"
  "txn_log (snd (find_free_slot w)) = txn_log w"
  "writable (snd (find_free_slot w)) = writable w"
  "registry (snd (find_free_slot w)) = registry w"
  "sent (snd (find_free_slot w)) = sent w"
  "now (snd (find_free_slot w)) = now w"
  by (simp_all add: find_free_slot_def Let_def split: prod.split)

lemma write_dispute_frame [simp, frame_simps]:
  "users_file (snd (write_dispute d w)) = users_file w"
  "auctions_file (snd (write_dispute d w)) = auctions_file w"
  "bids_file (snd (write_dispute d w)) = bids_file w"
  "sessions_file (snd (write_dispute d w)) = sessions_file w"
  "feedback_file (snd (write_dispute d w)) = feedback_file w"
  "txn_log (snd (write_dispute d w)) = txn_log w"
  "writable (snd (write_dispute d w)) = writable w"
  "registry (snd (write_dispute d w)) = registry w"
  "sent (snd (write_dispute d w)) = sent w"
  "now (snd (write_dispute d w)) = now w"
  by (simp_all add: write_dispute_def)

lemma log_txn_frame [simp, frame_simps]:
  "users_file (log_txn m w) = users_file w"
  "auctions_file (log_txn m w) = auctions_file w"
  "bids_file (log_txn m w) = bids_file w"
  "sessions_file (log_txn m w) = sessions_file w"
  "feedback_file (log_txn m w) = feedback_file w"
  "disputes_file (log_txn m w) = disputes_file w"
  "writable (log_txn m w) = writable w"
  "registry (log_txn m w) = registry w"
  "sent (log_txn m w) = sent w"
  "now (log_txn m w) = now w"
  by (simp_all add: log_txn_def)

lemma send_msg_frame [simp, frame_simps]:
  "users_file (send_msg fd t e p w) = users_file w"
  "auctions_file (send_msg fd t e p w) = auctions_file w"
  "bids_file (send_msg fd t e p w) = bids_file w"
  "sessions_file (send_msg fd t e p w) = sessions_file w"
  "feedback_file (send_msg fd t e p w) = feedback_file w"
  "disputes_file (send_msg fd t e p w) = disputes_file w"
  "txn_log (send_msg fd t e p w) = txn_log w"
  "writable (send_msg fd t e p w) = writable w"
  "registry (send_msg fd t e p w) = registry w"
  "now (send_msg fd t e p w) = now w"
  by (simp_all add: send_msg_def)

text \<open>Reads depend on their own file only.\<close>

lemma read_user_frame [simp, frame_simps]:
  "read_user i (snd (write_auction a w)) = read_user i w"
  "read_user i (snd (append_bid b w)) = read_user i w"
  "read_user i (snd (append_feedback f w)) = read_user i w"
  "read_user i (snd (write_session k s w)) = read_user i w"
  "read_user i (snd (find_free_slot w)) = read_user i w"
  "read_user i (snd (write_dispute d w)) = read_user i w"
  "read_user i (log_txn m w) = read_user i w"
  "read_user i (send_msg fd t e p w) = read_user i w"
  by (simp_all add: read_user_def)

lemma read_auction_frame [simp, frame_simps]:
  "read_auction i (snd (write_user u w)) = read_auction i w"
  "read_auction i (snd (append_bid b w)) = read_auction i w"
  "read_auction i (snd (append_feedback f w)) = read_auction i w"
  "read_auction i (snd (write_session k s w)) = read_auction i w"
  "read_auction i (snd (find_free_slot w)) = read_auction i w"
  "read_auction i (snd (write_dispute d w)) = read_auction i w"
  "read_auction i (log_txn m w) = read_auction i w"
  "read_auction i (send_msg fd t e p w) = read_auction i w"
  by (simp_all add: read_auction_def)

lemma read_dispute_frame [simp, frame_simps]:
  "read_dispute i (snd (write_user u w)) = read_dispute i w"
  "read_dispute i (snd (write_auction a w)) = read_dispute i w"
  "read_dispute i (snd (append_bid b w)) = read_dispute i w"
  "read_dispute i (snd (append_feedback f w)) = read_dispute i w"
  "read_dispute i (snd (write_session k s w)) = read_dispute i w"
  "read_dispute i (snd (find_free_slot w)) = read_dispute i w"
  "read_dispute i (log_txn m w) = read_dispute i w"
  "read_dispute i (send_msg fd t e p w) = read_dispute i w"
  by (simp_all add: read_dispute_def)

lemma read_user_cong: "users_file w = users_file w' \<Longrightarrow> read_user i w = read_user i w'"
  by (simp add: read_user_def)

lemma read_auction_cong: "auctions_file w = auctions_file w' \<Longrightarrow> read_auction i w = read_auction i w'"
  by (simp add: read_auction_def)

section \<open>Session slots\<close>

lemma session_slot_loop_found:
  "0 \<le> slot \<Longrightarrow> session_slot_loop uid slot ss = k \<Longrightarrow> 0 \<le> k \<Longrightarrow>
   slot \<le> k \<and> nat (k - slot) < length ss \<and> is_active (ss ! nat (k - slot)) \<and>
   session_user_id (ss ! nat (k - slot)) = uid \<and>
   (\<forall>j < nat (k - slot). \<not> (is_active (ss ! j) \<and> session_user_id (ss ! j) = uid))"
proof (induction uid slot ss rule: session_slot_loop.induct)
  case (1 uid slot)
  then show ?case by simp
next
  case (2 uid slot s ss)
  show ?case
  proof (cases "is_active s \<and> session_user_id s = uid")
    case True
    with 2 show ?thesis by auto
  next
    case False
    with 2 have *: "slot + 1 \<le> k \<and> nat (k - (slot + 1)) < length ss \<and>
        is_active (ss ! nat (k - (slot + 1))) \<and> session_user_id (ss ! nat (k - (slot + 1))) = uid \<and>
        (\<forall>j < nat (k - (slot + 1)). \<not> (is_active (ss ! j) \<and> session_user_id (ss ! j) = uid))"
      by auto
    then have "nat (k - slot) = Suc (nat (k - (slot + 1)))" by linarith
    with * False show ?thesis by (auto simp: less_Suc_eq_0_disj)
  qed
qed

lemma session_slot_loop_none:
  "0 \<le> slot \<Longrightarrow> session_slot_loop uid slot ss < 0 \<longleftrightarrow>
   (\<forall>s \<in> set ss. \<not> (is_active s \<and> session_user_id s = uid))"
  by (induction uid slot ss rule: session_slot_loop.induct) auto

lemma free_slot_loop_spec:
  "0 \<le> slot \<Longrightarrow> free_slot_loop slot ss = (found, end_slot) \<Longrightarrow>
   (found \<ge> 0 \<and> slot \<le> found \<and> found < int MAX_SESSIONS \<and> nat (found - slot) < length ss \<and>
      \<not> is_active (ss ! nat (found - slot)))
   \<or> (found = -1 \<and> (end_slot = slot + int (length ss) \<or> (int MAX_SESSIONS \<le> end_slot)) \<and>
      (slot + int (length ss) \<le> int MAX_SESSIONS \<longrightarrow> (\<forall>s \<in> set ss. is_active s)))"
proof (induction slot ss arbitrary: found end_slot rule: free_slot_loop.induct)
  case (1 slot)
  then show ?case by auto
next
  case (2 slot s ss)
  show ?case
  proof (cases "slot < int MAX_SESSIONS \<and> is_active s")
    case True
    then have "free_slot_loop (slot + 1) ss = (found, end_slot)" and "0 \<le> slot + 1"
      using 2 by auto
    from 2(1) [OF _ _ this(2,1)] True
    have IH: "(found \<ge> 0 \<and> slot + 1 \<le> found \<and> found < int MAX_SESSIONS \<and>
        nat (found - (slot + 1)) < length ss \<and> \<not> is_active (ss ! nat (found - (slot + 1))))
      \<or> (found = -1 \<and> (end_slot = slot + 1 + int (length ss) \<or> (int MAX_SESSIONS \<le> end_slot)) \<and>
        (slot + 1 + int (length ss) \<le> int MAX_SESSIONS \<longrightarrow> (\<forall>s \<in> set ss. is_active s)))"
      by auto
    moreover have "slot + 1 \<le> found \<Longrightarrow> nat (found - slot) = Suc (nat (found - (slot + 1)))"
      by linarith
    ultimately show ?thesis using True by auto
  next
    case False
    with 2 show ?thesis by (auto split: if_splits)
  qed
qed

end
