(* ===== verification/Notify.thy ===== *)
theory Notify
  imports File_IO
begin

text \<open>
  \<^verbatim>\<open>server/notify.c\<close>: the registry of logged-in users and the push notifications. The registry is
  an array of \<open>MAX_REGISTRY\<close> entries; every function runs under \<^verbatim>\<open>registry_lock\<close>. As a map from
  users to socket descriptors it refines the usual insert, delete and lookup, as long as a user
  has at most one active entry.
\<close>

definition MAX_REGISTRY :: nat where "MAX_REGISTRY = 128"

definition empty_registry :: "RegistryEntry list" where
  \<comment> \<open>a static array starts zero-filled\<close>
  "empty_registry =
     replicate MAX_REGISTRY \<lparr>reg_user_id = 0, reg_fd = 0, reg_active = False\<rparr>"

fun register_loop :: "u32 \<Rightarrow> int \<Rightarrow> RegistryEntry list \<Rightarrow> RegistryEntry list" where
  "register_loop uid fd [] = []"
| "register_loop uid fd (e # es) =
     (if \<not> reg_active e then e\<lparr>reg_user_id := uid, reg_fd := fd, reg_active := True\<rparr> # es
      else e # register_loop uid fd es)"

definition notify_register :: "u32 \<Rightarrow> int \<Rightarrow> world \<Rightarrow> world" where
  "notify_register uid fd w = w\<lparr>registry := register_loop uid fd (registry w)\<rparr>"

fun unregister_loop :: "u32 \<Rightarrow> RegistryEntry list \<Rightarrow> RegistryEntry list" where
  "unregister_loop uid [] = []"
| "unregister_loop uid (e # es) =
     (if reg_active e \<and> reg_user_id e = uid then e\<lparr>reg_active := False, reg_fd := -1\<rparr> # es
      else e # unregister_loop uid es)"

definition notify_unregister :: "u32 \<Rightarrow> world \<Rightarrow> world" where
  "notify_unregister uid w = w\<lparr>registry := unregister_loop uid (registry w)\<rparr>"

fun lookup_fd :: "u32 \<Rightarrow> RegistryEntry list \<Rightarrow> int" where
  "lookup_fd uid [] = -1"
| "lookup_fd uid (e # es) =
     (if reg_active e \<and> reg_user_id e = uid then reg_fd e else lookup_fd uid es)"

definition push_notification :: "u32 \<Rightarrow> MessageType \<Rightarrow> payload \<Rightarrow> world \<Rightarrow> world" where
  "push_notification uid t p w =
     (let fd = lookup_fd uid (registry w)
      in if fd < 0 then w else send_msg fd t ERR_OK p w)"

definition notify_outbid :: "u32 \<Rightarrow> u32 \<Rightarrow> dbl \<Rightarrow> world \<Rightarrow> world" where
  "notify_outbid uid aid new_highest_bid w =
     push_notification uid MSG_NOTIFY_OUTBID (P_Outbid aid new_highest_bid) w"

definition notify_auction_won :: "u32 \<Rightarrow> u32 \<Rightarrow> dbl \<Rightarrow> world \<Rightarrow> world" where
  "notify_auction_won uid aid winning_amount w =
     push_notification uid MSG_NOTIFY_AUCTION_WON (P_AuctionWon aid winning_amount) w"

definition notify_auction_closed :: "u32 \<Rightarrow> u32 \<Rightarrow> world \<Rightarrow> world" where
  "notify_auction_closed uid aid w =
     push_notification uid MSG_NOTIFY_AUCTION_CLOSED (P_AuctionClosed aid) w"

section \<open>Frames\<close>

lemma notify_register_frame [simp, frame_simps]:
  "users_file (notify_register uid fd w) = users_file w"
  "auctions_file (notify_register uid fd w) = auctions_file w"
  "bids_file (notify_register uid fd w) = bids_file w"
  "sessions_file (notify_register uid fd w) = sessions_file w"
  "feedback_file (notify_register uid fd w) = feedback_file w"
  "disputes_file (notify_register uid fd w) = disputes_file w"
  "txn_log (notify_register uid fd w) = txn_log w"
  "writable (notify_register uid fd w) = writable w"
  "sent (notify_register uid fd w) = sent w"
  "now (notify_register uid fd w) = now w"
  "read_user i (notify_register uid fd w) = read_user i w"
  "read_auction i (notify_register uid fd w) = read_auction i w"
  "read_dispute i (notify_register uid fd w) = read_dispute i w"
  by (simp_all add: notify_register_def read_user_def read_auction_def read_dispute_def)

lemma notify_unregister_frame [simp, frame_simps]:
  "users_file (notify_unregister uid w) = users_file w"
  "auctions_file (notify_unregister uid w) = auctions_file w"
  "bids_file (notify_unregister uid w) = bids_file w"
  "sessions_file (notify_unregister uid w) = sessions_file w"
  "feedback_file (notify_unregister uid w) = feedback_file w"
  "disputes_file (notify_unregister uid w) = disputes_file w"
  "txn_log (notify_unregister uid w) = txn_log w"
  "writable (notify_unregister uid w) = writable w"
  "sent (notify_unregister uid w) = sent w"
  "now (notify_unregister uid w) = now w"
  "read_user i (notify_unregister uid w) = read_user i w"
  "read_auction i (notify_unregister uid w) = read_auction i w"
  "read_dispute i (notify_unregister uid w) = read_dispute i w"
  by (simp_all add: notify_unregister_def read_user_def read_auction_def read_dispute_def)

lemma push_notification_frame [simp, frame_simps]:
  "users_file (push_notification uid t p w) = users_file w"
  "auctions_file (push_notification uid t p w) = auctions_file w"
  "bids_file (push_notification uid t p w) = bids_file w"
  "sessions_file (push_notification uid t p w) = sessions_file w"
  "feedback_file (push_notification uid t p w) = feedback_file w"
  "disputes_file (push_notification uid t p w) = disputes_file w"
  "txn_log (push_notification uid t p w) = txn_log w"
  "writable (push_notification uid t p w) = writable w"
  "registry (push_notification uid t p w) = registry w"
  "now (push_notification uid t p w) = now w"
  "read_user i (push_notification uid t p w) = read_user i w"
  "read_auction i (push_notification uid t p w) = read_auction i w"
  "read_dispute i (push_notification uid t p w) = read_dispute i w"
  by (simp_all add: push_notification_def Let_def read_user_def read_auction_def read_dispute_def)

lemma notify_outbid_frame [simp, frame_simps]:
  "users_file (notify_outbid uid aid x w) = users_file w"
  "auctions_file (notify_outbid uid aid x w) = auctions_file w"
  "bids_file (notify_outbid uid aid x w) = bids_file w"
  "sessions_file (notify_outbid uid aid x w) = sessions_file w"
  "feedback_file (notify_outbid uid aid x w) = feedback_file w"
  "disputes_file (notify_outbid uid aid x w) = disputes_file w"
  "txn_log (notify_outbid uid aid x w) = txn_log w"
  "writable (notify_outbid uid aid x w) = writable w"
  "registry (notify_outbid uid aid x w) = registry w"
  "now (notify_outbid uid aid x w) = now w"
  "read_user i (notify_outbid uid aid x w) = read_user i w"
  "read_auction i (notify_outbid uid aid x w) = read_auction i w"
  "read_dispute i (notify_outbid uid aid x w) = read_dispute i w"
  by (simp_all add: notify_outbid_def read_user_def read_auction_def read_dispute_def)

lemma notify_auction_won_frame [simp, frame_simps]:
  "users_file (notify_auction_won uid aid x w) = users_file w"
  "auctions_file (notify_auction_won uid aid x w) = auctions_file w"
  "bids_file (notify_auction_won uid aid x w) = bids_file w"
  "sessions_file (notify_auction_won uid aid x w) = sessions_file w"
  "feedback_file (notify_auction_won uid aid x w) = feedback_file w"
  "disputes_file (notify_auction_won uid aid x w) = disputes_file w"
  "txn_log (notify_auction_won uid aid x w) = txn_log w"
  "writable (notify_auction_won uid aid x w) = writable w"
  "registry (notify_auction_won uid aid x w) = registry w"
  "now (notify_auction_won uid aid x w) = now w"
  "read_user i (notify_auction_won uid aid x w) = read_user i w"
  "read_auction i (notify_auction_won uid aid x w) = read_auction i w"
  "read_dispute i (notify_auction_won uid aid x w) = read_dispute i w"
  by (simp_all add: notify_auction_won_def read_user_def read_auction_def read_dispute_def)

lemma notify_auction_closed_frame [simp, frame_simps]:
  "users_file (notify_auction_closed uid aid w) = users_file w"
  "auctions_file (notify_auction_closed uid aid w) = auctions_file w"
  "bids_file (notify_auction_closed uid aid w) = bids_file w"
  "sessions_file (notify_auction_closed uid aid w) = sessions_file w"
  "feedback_file (notify_auction_closed uid aid w) = feedback_file w"
  "disputes_file (notify_auction_closed uid aid w) = disputes_file w"
  "txn_log (notify_auction_closed uid aid w) = txn_log w"
  "writable (notify_auction_closed uid aid w) = writable w"
  "registry (notify_auction_closed uid aid w) = registry w"
  "now (notify_auction_closed uid aid w) = now w"
  "read_user i (notify_auction_closed uid aid w) = read_user i w"
  "read_auction i (notify_auction_closed uid aid w) = read_auction i w"
  "read_dispute i (notify_auction_closed uid aid w) = read_dispute i w"
  by (simp_all add: notify_auction_closed_def read_user_def read_auction_def read_dispute_def)

section \<open>The registry as a map\<close>

definition active_users :: "RegistryEntry list \<Rightarrow> u32 list" where
  "active_users es = map reg_user_id (filter reg_active es)"

definition registry_inv :: "RegistryEntry list \<Rightarrow> bool" where
  \<comment> \<open>the array keeps its size, no user has two active entries, active descriptors are sockets\<close>
  "registry_inv es \<longleftrightarrow>
     length es = MAX_REGISTRY \<and> distinct (active_users es) \<and>
     (\<forall>e \<in> set es. reg_active e \<longrightarrow> 0 < reg_fd e)"

text \<open>What the users of the registry (login, logout, the notifications) rely on.\<close>

locale connection_registry =
  fixes empty :: 'g
    and reg :: "u32 \<Rightarrow> int \<Rightarrow> 'g \<Rightarrow> 'g"
    and unreg :: "u32 \<Rightarrow> 'g \<Rightarrow> 'g"
    and look :: "u32 \<Rightarrow> 'g \<Rightarrow> int"
    and room :: "'g \<Rightarrow> bool"
    and inv :: "'g \<Rightarrow> bool"
  assumes inv_empty: "inv empty"
    and look_empty: "look u empty < 0"
    and inv_reg: "inv g \<Longrightarrow> look u g < 0 \<Longrightarrow> 0 < fd \<Longrightarrow> inv (reg u fd g)"
    and inv_unreg: "inv g \<Longrightarrow> inv (unreg u g)"
    and look_reg: "inv g \<Longrightarrow> look u g < 0 \<Longrightarrow> room g \<Longrightarrow>
          look v (reg u fd g) = (if v = u then fd else look v g)"
    and reg_full: "\<not> room g \<Longrightarrow> reg u fd g = g"
    and look_unreg: "inv g \<Longrightarrow> look v (unreg u g) = (if v = u then -1 else look v g)"
begin

lemma look_reg_other:
  "inv g \<Longrightarrow> look u g < 0 \<Longrightarrow> v \<noteq> u \<Longrightarrow> look v (reg u fd g) = look v g"
  by (cases "room g") (simp_all add: look_reg reg_full)

lemma look_reg_unreg:
  assumes "inv g" and "look u g < 0" and "0 < fd"
  shows "look v (unreg u (reg u fd g)) = (if v = u then -1 else look v g)"
  using assms by (simp add: look_unreg inv_reg look_reg_other)

lemma look_unreg_same: "inv g \<Longrightarrow> look u (unreg u g) < 0"
  by (simp add: look_unreg)

end

lemma active_users_simps [simp]:
  "active_users [] = []"
  "active_users (e # es) =
     (if reg_active e then reg_user_id e # active_users es else active_users es)"
  by (simp_all add: active_users_def)

lemma lookup_neg_iff:
  "\<forall>e \<in> set es. reg_active e \<longrightarrow> 0 < reg_fd e \<Longrightarrow>
   lookup_fd uid es < 0 \<longleftrightarrow> uid \<notin> set (active_users es)"
  by (induction es) auto

lemma lookup_absent: "uid \<notin> set (active_users es) \<Longrightarrow> lookup_fd uid es = -1"
  by (induction es) (auto split: if_splits)

lemma length_register [simp]: "length (register_loop uid fd es) = length es"
  by (induction es) auto

lemma length_unregister [simp]: "length (unregister_loop uid es) = length es"
  by (induction es) auto

lemma active_unregister: "active_users (unregister_loop uid es) = remove1 uid (active_users es)"
  by (induction es) auto

lemma set_active_register:
  "set (active_users (register_loop uid fd es)) \<subseteq> insert uid (set (active_users es))"
  by (induction es) auto

lemma distinct_register:
  "distinct (active_users es) \<Longrightarrow> uid \<notin> set (active_users es) \<Longrightarrow>
   distinct (active_users (register_loop uid fd es))"
proof (induction es)
  case Nil
  then show ?case by simp
next
  case (Cons e es)
  then show ?case
    using set_active_register [of uid fd es] by (cases "reg_active e") auto
qed

lemma lookup_register:
  "\<exists>e \<in> set es. \<not> reg_active e \<Longrightarrow> uid \<notin> set (active_users es) \<Longrightarrow>
   lookup_fd v (register_loop uid fd es) = (if v = uid then fd else lookup_fd v es)"
proof (induction es)
  case Nil
  then show ?case by simp
next
  case (Cons e es)
  then show ?case by (cases "reg_active e") auto
qed

lemma register_full: "\<not> (\<exists>e \<in> set es. \<not> reg_active e) \<Longrightarrow> register_loop uid fd es = es"
  by (induction es) auto

lemma lookup_unregister:
  "distinct (active_users es) \<Longrightarrow>
   lookup_fd v (unregister_loop uid es) = (if v = uid then -1 else lookup_fd v es)"
proof (induction es)
  case Nil
  then show ?case by simp
next
  case (Cons e es)
  show ?case
  proof (cases "reg_active e \<and> reg_user_id e = uid")
    case True
    with Cons.prems have "uid \<notin> set (active_users es)" by simp
    with True show ?thesis by (auto simp: lookup_absent)
  next
    case False
    with Cons show ?thesis by (cases "reg_active e") auto
  qed
qed

lemma fd_pos_register:
  "\<forall>e \<in> set es. reg_active e \<longrightarrow> 0 < reg_fd e \<Longrightarrow> 0 < fd \<Longrightarrow>
   \<forall>e \<in> set (register_loop uid fd es). reg_active e \<longrightarrow> 0 < reg_fd e"
  by (induction es) auto

lemma fd_pos_unregister:
  "\<forall>e \<in> set es. reg_active e \<longrightarrow> 0 < reg_fd e \<Longrightarrow>
   \<forall>e \<in> set (unregister_loop uid es). reg_active e \<longrightarrow> 0 < reg_fd e"
  by (induction es) auto

interpretation rg: connection_registry empty_registry register_loop unregister_loop lookup_fd
  "\<lambda>es. \<exists>e \<in> set es. \<not> reg_active e" registry_inv
proof (unfold_locales, goal_cases)
  case 1
  show ?case by (simp add: registry_inv_def empty_registry_def active_users_def)
next
  case (2 u)
  show ?case by (simp add: empty_registry_def active_users_def lookup_absent)
next
  case (3 g u fd)
  then show ?case
    using fd_pos_register [of g fd u]
    by (simp add: registry_inv_def lookup_neg_iff distinct_register)
next
  case (4 g u)
  then show ?case
    using fd_pos_unregister [of g u]
    by (simp add: registry_inv_def active_unregister)
next
  case (5 g u v fd)
  then show ?case by (simp add: registry_inv_def lookup_neg_iff lookup_register)
next
  case (6 g u fd)
  then show ?case by (simp add: register_full)
next
  case (7 g v u)
  then show ?case by (simp add: registry_inv_def lookup_unregister)
qed

end
