(* ===== verification/Sample.thy ===== *)
theory Sample
  imports Notify
begin

text \<open>
  A concrete state of the server on which the witnesses evaluate the operations: five users (an
  administrator, an auctioneer, two bidders, a moderator) and four auctions of user 2. Auction 1
  is open without bids, auction 2 is led by user 3 at 300, auction 3 is led by user 4 at 200
  below its reserve of 500, auction 4 has closed without a bid.
\<close>

definition sample_user :: "u32 \<Rightarrow> string \<Rightarrow> Role \<Rightarrow> int \<Rightarrow> int \<Rightarrow> User" where
  "sample_user i name r b h =
     zero_User\<lparr>user_id := i, username := c_array MAX_USERNAME name,
               password := replicate 64 CHR ''a'', role := r,
               wallet_balance := rs b, wallet_hold := rs h\<rparr>"

definition sample_auction :: "u32 \<Rightarrow> AuctionStatus \<Rightarrow> int \<Rightarrow> int \<Rightarrow> u32 \<Rightarrow> time_t \<Rightarrow> Auction" where
  "sample_auction i st reserve bid bidder fin =
     zero_Auction\<lparr>auction_id := i, seller_id := 2, start_price := rs 100,
                  reserve_price := rs reserve, current_bid := rs bid,
                  highest_bidder_id := bidder, auction_status := st, end_time := fin\<rparr>"

definition sample_world :: world where
  "sample_world =
     \<lparr>users_file = Some [sample_user 1 ''admin'' ROLE_ADMIN 0 0,
                         sample_user 2 ''sam'' ROLE_AUCTIONEER 150 0,
                         sample_user 3 ''bob'' ROLE_BIDDER 1000 300,
                         sample_user 4 ''ann'' ROLE_BIDDER 800 200,
                         sample_user 5 ''mod'' ROLE_MODERATOR 0 0],
      auctions_file = Some [sample_auction 1 AUCTION_OPEN 0 100 0 60,
                            sample_auction 2 AUCTION_OPEN 0 300 3 70,
                            sample_auction 3 AUCTION_OPEN 500 200 4 80,
                            sample_auction 4 AUCTION_CLOSED 0 100 0 40],
      bids_file = None, sessions_file = None, feedback_file = None, disputes_file = None,
      txn_log = [], writable = (\<lambda>_. True), registry = empty_registry, sent = [], now = 65\<rparr>"

lemma sample_user_fields [simp]:
  "user_id (sample_user i n r b h) = i" "username (sample_user i n r b h) = c_array MAX_USERNAME n"
  "role (sample_user i n r b h) = r" "acct_status (sample_user i n r b h) = ACCOUNT_ACTIVE"
  "wallet_balance (sample_user i n r b h) = rs b" "wallet_hold (sample_user i n r b h) = rs h"
  "user_deleted (sample_user i n r b h) = False"
  "password (sample_user i n r b h) = replicate 64 CHR ''a''"
  by (simp_all add: sample_user_def zero_User_def ACCOUNT_ACTIVE_def)

lemma sample_auction_fields [simp]:
  "auction_id (sample_auction i st re b w e) = i" "seller_id (sample_auction i st re b w e) = 2"
  "start_price (sample_auction i st re b w e) = rs 100"
  "reserve_price (sample_auction i st re b w e) = rs re"
  "current_bid (sample_auction i st re b w e) = rs b"
  "highest_bidder_id (sample_auction i st re b w e) = w"
  "auction_status (sample_auction i st re b w e) = st"
  "end_time (sample_auction i st re b w e) = e"
  "auction_deleted (sample_auction i st re b w e) = False"
  by (simp_all add: sample_auction_def zero_Auction_def)

lemma sample_files [simp]:
  "users sample_world = [sample_user 1 ''admin'' ROLE_ADMIN 0 0,
     sample_user 2 ''sam'' ROLE_AUCTIONEER 150 0, sample_user 3 ''bob'' ROLE_BIDDER 1000 300,
     sample_user 4 ''ann'' ROLE_BIDDER 800 200, sample_user 5 ''mod'' ROLE_MODERATOR 0 0]"
  "auctions sample_world = [sample_auction 1 AUCTION_OPEN 0 100 0 60,
     sample_auction 2 AUCTION_OPEN 0 300 3 70, sample_auction 3 AUCTION_OPEN 500 200 4 80,
     sample_auction 4 AUCTION_CLOSED 0 100 0 40]"
  "bids sample_world = []" "sessions sample_world = []" "disputes sample_world = []"
  "feedbacks sample_world = []" "writable sample_world f" "registry sample_world = empty_registry"
  "now sample_world = 65" "sent sample_world = []"
  by (simp_all add: sample_world_def)

lemma all_less_Suc_iff: "(\<forall>k < Suc n. P k) \<longleftrightarrow> P 0 \<and> (\<forall>k < n. P (Suc k))"
  by (auto simp: less_Suc_eq_0_disj)

fun numbered_from :: "('r \<Rightarrow> u32) \<Rightarrow> u32 \<Rightarrow> 'r list \<Rightarrow> bool" where
  "numbered_from ident i [] = True"
| "numbered_from ident i (x # xs) = (ident x = i \<and> numbered_from ident (i + 1) xs)"

lemma numbered_from_nth:
  "numbered_from ident i xs \<longleftrightarrow> (\<forall>k < length xs. ident (xs ! k) = word_of_nat k + i)"
  by (induction ident i xs rule: numbered_from.induct)
    (auto simp: all_less_Suc_iff nth_Cons' algebra_simps)

lemma numbered_eval: "numbered ident xs \<longleftrightarrow> length xs < 2 ^ 32 \<and> numbered_from ident 1 xs"
  by (simp add: numbered_def numbered_from_nth)

lemma sample_numbered [simp]:
  "numbered user_id (users sample_world)" "numbered auction_id (auctions sample_world)"
  "numbered dispute_id (disputes sample_world)"
  by (simp_all add: numbered_eval)

lemma sample_reads [simp]:
  "read_user 1 sample_world = Some (sample_user 1 ''admin'' ROLE_ADMIN 0 0)"
  "read_user 2 sample_world = Some (sample_user 2 ''sam'' ROLE_AUCTIONEER 150 0)"
  "read_user 3 sample_world = Some (sample_user 3 ''bob'' ROLE_BIDDER 1000 300)"
  "read_user 4 sample_world = Some (sample_user 4 ''ann'' ROLE_BIDDER 800 200)"
  "read_user 5 sample_world = Some (sample_user 5 ''mod'' ROLE_MODERATOR 0 0)"
  "read_auction 1 sample_world = Some (sample_auction 1 AUCTION_OPEN 0 100 0 60)"
  "read_auction 2 sample_world = Some (sample_auction 2 AUCTION_OPEN 0 300 3 70)"
  "read_auction 3 sample_world = Some (sample_auction 3 AUCTION_OPEN 500 200 4 80)"
  "read_auction 4 sample_world = Some (sample_auction 4 AUCTION_CLOSED 0 100 0 40)"
  by (simp_all add: ut.rd_rows at.rd_rows slot_of_def)

end
