(* ===== verification/Wallet.thy ===== *)
theory Wallet
  imports Sample
begin

text \<open>
  \<^verbatim>\<open>server/wallet.c\<close>: the four wallet operations over one guarded read-modify-write of the user
  record, and the two client requests on the wallet. Each operation runs under the user's wallet
  mutex. Results: 0 or -1 as in the code.

  The theory shows the guard's invariant (\<open>0 \<le> hold \<le> balance\<close>, in IEEE order), that a
  rejected operation changes no record, the frame that every client relies on (a locale
  interpreted by all four operations), and that on whole amounts the operations are the ledger
  arithmetic their comments promise.
\<close>

section \<open>Operations\<close>

definition apply_wallet_delta :: "u32 \<Rightarrow> dbl \<Rightarrow> dbl \<Rightarrow> world \<Rightarrow> int \<times> world" where
  "apply_wallet_delta uid balance_delta hold_delta w =
     (case read_user uid w of
        None \<Rightarrow> (-1, w)
      | Some u \<Rightarrow>
          let new_balance = wallet_balance u + balance_delta;
              new_hold = wallet_hold u + hold_delta
          in if new_balance < 0 then (-1, w)
             else let new_hold = (if new_hold < 0 then 0 else new_hold)
                  in if new_hold > new_balance then (-1, w)
                     else write_user (u\<lparr>wallet_balance := new_balance, wallet_hold := new_hold\<rparr>) w)"

definition place_hold :: "u32 \<Rightarrow> dbl \<Rightarrow> world \<Rightarrow> int \<times> world" where
  "place_hold uid amount w =
     (case read_user uid w of
        None \<Rightarrow> (-1, w)
      | Some u \<Rightarrow>
          let available = wallet_balance u - wallet_hold u
          in if amount > available then (-1, w)
             else let (result, w) = apply_wallet_delta uid 0 amount w
                  in (result, log_txn (L_HOLD uid amount) w))"

definition release_hold :: "u32 \<Rightarrow> dbl \<Rightarrow> world \<Rightarrow> int \<times> world" where
  "release_hold uid amount w =
     (let (result, w) = apply_wallet_delta uid 0 (- amount) w
      in (result, log_txn (L_RELEASE uid amount) w))"

definition settle_payment :: "u32 \<Rightarrow> dbl \<Rightarrow> world \<Rightarrow> int \<times> world" where
  "settle_payment uid amount w =
     (let (result, w) = apply_wallet_delta uid (- amount) (- amount) w
      in (result, log_txn (L_SETTLE uid amount) w))"

definition credit_wallet :: "u32 \<Rightarrow> dbl \<Rightarrow> world \<Rightarrow> int \<times> world" where
  "credit_wallet uid amount w =
     (let (result, w) = apply_wallet_delta uid amount 0 w
      in (result, log_txn (L_CREDIT uid amount) w))"

record DepositPayload =
  deposit_amount :: dbl

definition handle_deposit :: "int \<Rightarrow> DepositPayload \<Rightarrow> User \<Rightarrow> world \<Rightarrow> User \<times> world" where
  \<comment> \<open>the result is the connection's copy \<open>*u\<close> and the state. The code does not check the last
    \<^verbatim>\<open>read_user\<close>; it cannot fail after a successful credit (\<open>deposit_rereads\<close> below).\<close>
  "handle_deposit client_fd req u w =
     (if deposit_amount req \<le> 0
      then (u, send_msg client_fd MSG_DEPOSIT_RESP ERR_INTERNAL P_None w)
      else
        let (result, w) = credit_wallet (user_id u) (deposit_amount req) w
        in if result < 0 then (u, send_msg client_fd MSG_DEPOSIT_RESP ERR_INTERNAL P_None w)
           else
             case read_user (user_id u) w of
               None \<Rightarrow> (u, w)
             | Some updated \<Rightarrow>
                 (updated, send_msg client_fd MSG_DEPOSIT_RESP ERR_OK (P_User updated) w))"

definition handle_view_balance :: "int \<Rightarrow> User \<Rightarrow> world \<Rightarrow> world" where
  "handle_view_balance client_fd u w =
     (case read_user (user_id u) w of
        None \<Rightarrow> send_msg client_fd MSG_VIEW_BALANCE_RESP ERR_INTERNAL P_None w
      | Some fresh \<Rightarrow> send_msg client_fd MSG_VIEW_BALANCE_RESP ERR_OK (P_User fresh) w)"

section \<open>The contract of a wallet operation\<close>

definition wallet_ok :: "User \<Rightarrow> bool" where
  "wallet_ok u \<longleftrightarrow> 0 \<le> wallet_hold u \<and> wallet_hold u \<le> wallet_balance u"

definition same_account :: "User \<Rightarrow> User \<Rightarrow> bool" where
  \<comment> \<open>equal but for the two wallet fields\<close>
  "same_account u v \<longleftrightarrow> v\<lparr>wallet_balance := 0, wallet_hold := 0\<rparr>
                        = u\<lparr>wallet_balance := 0, wallet_hold := 0\<rparr>"

lemma same_account_refl [simp]: "same_account u u"
  by (simp add: same_account_def)

lemma same_account_upd [simp]:
  "same_account u (u\<lparr>wallet_balance := b, wallet_hold := h\<rparr>)"
  by (simp add: same_account_def)

lemma same_account_fields:
  "same_account u v \<Longrightarrow>
     user_id v = user_id u \<and> username v = username u \<and> password v = password u \<and>
     full_name v = full_name u \<and> role v = role u \<and> acct_status v = acct_status u \<and>
     created_at v = created_at u \<and> last_login v = last_login u \<and> user_deleted v = user_deleted u"
  by (cases u; cases v) (simp add: same_account_def)

lemma same_account_trans: "same_account u v \<Longrightarrow> same_account v x \<Longrightarrow> same_account u x"
  by (simp add: same_account_def)

definition accounts_kept :: "world \<Rightarrow> world \<Rightarrow> bool" where
  \<comment> \<open>the user file holds the same accounts, only wallets may differ\<close>
  "accounts_kept w w' \<longleftrightarrow> list_all2 same_account (users w) (users w')"

locale wallet_op =
  fixes op :: "u32 \<Rightarrow> dbl \<Rightarrow> world \<Rightarrow> int \<times> world"
  assumes op_files:
      "auctions_file (snd (op i a w)) = auctions_file w"
      "bids_file (snd (op i a w)) = bids_file w"
      "sessions_file (snd (op i a w)) = sessions_file w"
      "feedback_file (snd (op i a w)) = feedback_file w"
      "disputes_file (snd (op i a w)) = disputes_file w"
      "writable (snd (op i a w)) = writable w"
      "registry (snd (op i a w)) = registry w"
      "sent (snd (op i a w)) = sent w"
      "now (snd (op i a w)) = now w"
    and op_result: "fst (op i a w) = 0 \<or> fst (op i a w) = -1"
    and op_rejected: "fst (op i a w) = -1 \<Longrightarrow> users_file (snd (op i a w)) = users_file w"
    and op_accepted:
      "fst (op i a w) = 0 \<Longrightarrow> numbered user_id (users w) \<Longrightarrow>
       \<exists>u b h. read_user i w = Some u \<and>
         users_file (snd (op i a w)) =
           Some ((users w)[slot_of i := u\<lparr>wallet_balance := b, wallet_hold := h\<rparr>]) \<and>
         (wallet_ok u \<longrightarrow> is_finite a \<longrightarrow> 0 \<le> h \<and> h \<le> b)"
begin

lemma op_reads [simp]:
  "read_auction j (snd (op i a w)) = read_auction j w"
  "read_dispute j (snd (op i a w)) = read_dispute j w"
  by (simp_all add: read_auction_def read_dispute_def op_files)

lemma op_cases:
  assumes "numbered user_id (users w)"
  obtains (rejected) "users_file (snd (op i a w)) = users_file w"
  | (accepted) u b h where "read_user i w = Some u"
      and "users_file (snd (op i a w)) =
             Some ((users w)[slot_of i := u\<lparr>wallet_balance := b, wallet_hold := h\<rparr>])"
      and "wallet_ok u \<Longrightarrow> is_finite a \<Longrightarrow> 0 \<le> h \<and> h \<le> b"
  using op_result [of i a w] op_rejected [of i a w] op_accepted [of i a w] assms by blast

lemma op_accounts:
  assumes "numbered user_id (users w)"
  shows "accounts_kept w (snd (op i a w))"
  using assms
proof (cases rule: op_cases [where i = i and a = a])
  case rejected
  then show ?thesis by (simp add: accounts_kept_def list_all2_refl)
next
  case (accepted u b h)
  then show ?thesis
    by (auto simp: accounts_kept_def list_all2_conv_all_nth nth_list_update ut.rd_Some)
qed

lemma op_wallets_ok:
  assumes "numbered user_id (users w)" and "is_finite a" and "list_all wallet_ok (users w)"
  shows "list_all wallet_ok (users (snd (op i a w)))"
  using assms(1)
proof (cases rule: op_cases [where i = i and a = a])
  case rejected
  with assms(3) show ?thesis by simp
next
  case (accepted u b h)
  moreover have "wallet_ok u" using accepted(1) assms(3) by (rule ut.rd_all [rotated])
  ultimately show ?thesis
    using assms(2,3) by (simp add: list_all_update wallet_ok_def)
qed

end

text \<open>What follows from keeping the accounts.\<close>

lemma accounts_kept_refl: "accounts_kept w w"
  by (simp add: accounts_kept_def list_all2_refl)

lemma accounts_kept_trans:
  "accounts_kept w w' \<Longrightarrow> accounts_kept w' w'' \<Longrightarrow> accounts_kept w w''"
  unfolding accounts_kept_def by (rule list_all2_trans [of same_account]) (rule same_account_trans)

lemma accounts_kept_cong:
  "users_file w' = users_file v \<Longrightarrow> accounts_kept w w' = accounts_kept w v"
  "users_file w = users_file v \<Longrightarrow> accounts_kept w w' = accounts_kept v w'"
  by (simp_all add: accounts_kept_def)

lemma accounts_kept_numbered:
  "accounts_kept w w' \<Longrightarrow> numbered user_id (users w') = numbered user_id (users w)"
  by (auto simp: accounts_kept_def numbered_def list_all2_conv_all_nth dest!: same_account_fields)

lemma accounts_kept_length: "accounts_kept w w' \<Longrightarrow> length (users w') = length (users w)"
  by (simp add: accounts_kept_def list_all2_lengthD)

definition users_inv :: "world \<Rightarrow> bool" where
  \<comment> \<open>the invariant of the user file\<close>
  "users_inv w \<longleftrightarrow> numbered user_id (users w) \<and> list_all wallet_ok (users w)"

lemma users_inv_cong: "users_file w = users_file v \<Longrightarrow> users_inv w = users_inv v"
  by (simp add: users_inv_def)

context wallet_op begin

lemma op_kept:
  "accounts_kept v w \<Longrightarrow> numbered user_id (users v) \<Longrightarrow> accounts_kept v (snd (op i a w))"
  using accounts_kept_trans [OF _ op_accounts, of v w i a] accounts_kept_numbered [of v w] by simp

lemma op_inv: "users_inv w \<Longrightarrow> is_finite a \<Longrightarrow> users_inv (snd (op i a w))"
  using op_wallets_ok [of w a i] accounts_kept_numbered [OF op_accounts, of w i a]
  by (simp add: users_inv_def)

end

section \<open>The guarded update\<close>

lemma apply_files [simp, frame_simps]:
  "auctions_file (snd (apply_wallet_delta i b h w)) = auctions_file w"
  "bids_file (snd (apply_wallet_delta i b h w)) = bids_file w"
  "sessions_file (snd (apply_wallet_delta i b h w)) = sessions_file w"
  "feedback_file (snd (apply_wallet_delta i b h w)) = feedback_file w"
  "disputes_file (snd (apply_wallet_delta i b h w)) = disputes_file w"
  "writable (snd (apply_wallet_delta i b h w)) = writable w"
  "registry (snd (apply_wallet_delta i b h w)) = registry w"
  "sent (snd (apply_wallet_delta i b h w)) = sent w"
  "now (snd (apply_wallet_delta i b h w)) = now w"
  by (simp_all add: apply_wallet_delta_def Let_def split: option.split)

lemma apply_result: "fst (apply_wallet_delta i b h w) = 0 \<or> fst (apply_wallet_delta i b h w) = -1"
  by (simp add: apply_wallet_delta_def Let_def write_user_def split: option.split)

lemma apply_rejected: "fst (apply_wallet_delta i b h w) = -1 \<Longrightarrow> snd (apply_wallet_delta i b h w) = w"
  by (auto simp: apply_wallet_delta_def Let_def write_user_def split: option.splits if_splits)

lemma apply_accepted:
  assumes "fst (apply_wallet_delta i db dh w) = 0" and "numbered user_id (users w)"
  shows "\<exists>u b h. read_user i w = Some u \<and>
    users_file (snd (apply_wallet_delta i db dh w)) =
      Some ((users w)[slot_of i := u\<lparr>wallet_balance := b, wallet_hold := h\<rparr>]) \<and>
    (wallet_ok u \<longrightarrow> is_finite db \<longrightarrow> is_finite dh \<longrightarrow> 0 \<le> h \<and> h \<le> b)"
proof -
  from assms(1) obtain u where u: "read_user i w = Some u"
    and nb: "\<not> wallet_balance u + db < 0"
    and nh: "\<not> (if wallet_hold u + dh < 0 then 0 else wallet_hold u + dh) > wallet_balance u + db"
    and wr: "writable w FILE_USERS"
    by (auto simp: apply_wallet_delta_def Let_def write_user_def split: option.splits if_splits)
  let ?b = "wallet_balance u + db"
  let ?h = "if wallet_hold u + dh < 0 then 0 else wallet_hold u + dh"
  let ?u = "u\<lparr>wallet_balance := ?b, wallet_hold := ?h\<rparr>"
  have "user_id u = i" using assms(2) u by (rule ut.rd_ident)
  then have "users_file (snd (write_user ?u w)) = Some ((users w)[slot_of i := ?u])"
    using u wr by (simp add: write_user_def rec_write_def Let_def ut.rd_Some)
  moreover have "snd (apply_wallet_delta i db dh w) = snd (write_user ?u w)"
    using u nb nh by (simp add: apply_wallet_delta_def Let_def)
  moreover have "0 \<le> ?h \<and> ?h \<le> ?b" if "wallet_ok u" "is_finite db" "is_finite dh"
  proof -
    from that have b: "?b \<noteq> NaN" and h: "wallet_hold u + dh \<noteq> NaN"
      by (auto simp: wallet_ok_def plus_finite_not_NaN dest!: dbl_le_not_NaN)
    have z: "(0::dbl) \<noteq> NaN" by (simp add: zero_dbl_def)
    have "?h \<noteq> NaN" using h z by simp
    with b nh have "?h \<le> ?b" using dbl_not_less by blast
    moreover have "0 \<le> ?h" using dbl_not_less [OF h z] by (simp add: zero_rs)
    ultimately show ?thesis by simp
  qed
  ultimately show ?thesis using u by metis
qed

lemmas wallet_op_defs = place_hold_def release_hold_def settle_payment_def credit_wallet_def

lemma place_hold_shape:
  "place_hold i a w =
     (if (\<exists>u. read_user i w = Some u \<and> \<not> a > wallet_balance u - wallet_hold u)
      then (fst (apply_wallet_delta i 0 a w),
            log_txn (L_HOLD i a) (snd (apply_wallet_delta i 0 a w)))
      else (-1, w))"
  by (auto simp: place_hold_def Let_def split: option.split prod.split)

lemma release_hold_shape:
  "release_hold i a w =
     (fst (apply_wallet_delta i 0 (- a) w),
      log_txn (L_RELEASE i a) (snd (apply_wallet_delta i 0 (- a) w)))"
  by (simp add: release_hold_def split: prod.split)

lemma settle_payment_shape:
  "settle_payment i a w =
     (fst (apply_wallet_delta i (- a) (- a) w),
      log_txn (L_SETTLE i a) (snd (apply_wallet_delta i (- a) (- a) w)))"
  by (simp add: settle_payment_def split: prod.split)

lemma credit_wallet_shape:
  "credit_wallet i a w =
     (fst (apply_wallet_delta i a 0 w),
      log_txn (L_CREDIT i a) (snd (apply_wallet_delta i a 0 w)))"
  by (simp add: credit_wallet_def split: prod.split)

lemmas wallet_shapes =
  place_hold_shape release_hold_shape settle_payment_shape credit_wallet_shape

interpretation ph: wallet_op place_hold
proof (unfold_locales, goal_cases)
  case (10 i a w)
  show ?case using apply_result [of i 0 a w] by (auto simp: place_hold_shape)
next
  case (11 i a w)
  then show ?case by (auto simp: place_hold_shape apply_rejected split: if_splits)
next
  case (12 i a w)
  then show ?case
    using apply_accepted [of i 0 a w] by (auto simp: place_hold_shape split: if_splits)
qed (simp_all add: place_hold_shape)

interpretation rh: wallet_op release_hold
proof (unfold_locales, goal_cases)
  case (10 i a w)
  show ?case using apply_result [of i 0 "- a" w] by (simp add: release_hold_shape)
next
  case (11 i a w)
  then show ?case by (simp add: release_hold_shape apply_rejected)
next
  case (12 i a w)
  then show ?case using apply_accepted [of i 0 "- a" w] by (simp add: release_hold_shape)
qed (simp_all add: release_hold_shape)

interpretation sp: wallet_op settle_payment
proof (unfold_locales, goal_cases)
  case (10 i a w)
  show ?case using apply_result [of i "- a" "- a" w] by (simp add: settle_payment_shape)
next
  case (11 i a w)
  then show ?case by (simp add: settle_payment_shape apply_rejected)
next
  case (12 i a w)
  then show ?case using apply_accepted [of i "- a" "- a" w] by (simp add: settle_payment_shape)
qed (simp_all add: settle_payment_shape)

interpretation cw: wallet_op credit_wallet
proof (unfold_locales, goal_cases)
  case (10 i a w)
  show ?case using apply_result [of i a 0 w] by (simp add: credit_wallet_shape)
next
  case (11 i a w)
  then show ?case by (simp add: credit_wallet_shape apply_rejected)
next
  case (12 i a w)
  then show ?case using apply_accepted [of i a 0 w] by (simp add: credit_wallet_shape)
qed (simp_all add: credit_wallet_shape)

lemmas wallet_files [simp, frame_simps] = ph.op_files rh.op_files sp.op_files cw.op_files

lemmas wallet_kept = ph.op_kept rh.op_kept sp.op_kept cw.op_kept

lemmas wallet_inv = ph.op_inv rh.op_inv sp.op_inv cw.op_inv

lemma accounts_kept_log [simp]: "accounts_kept v (log_txn m w) = accounts_kept v w"
  by (simp add: accounts_kept_def)

lemma users_inv_frame [simp]:
  "users_inv (log_txn m w) = users_inv w" "users_inv (send_msg fd t e p w) = users_inv w"
  "users_inv (snd (write_auction x w)) = users_inv w" "users_inv (snd (append_bid y w)) = users_inv w"
  "users_inv (snd (write_dispute z w)) = users_inv w"
  by (simp_all add: users_inv_def)

section \<open>The ledger the wallets implement\<close>

text \<open>
  On whole rupee amounts below \<open>2 ^ 52\<close> no sum rounds, and the wallets are a ledger of integer
  balances and holds.
\<close>

type_synonym ledger = "u32 \<rightharpoonup> int \<times> int"

definition exact_limit :: int where
  "exact_limit = 2 ^ 52"

definition ledger_delta :: "ledger \<Rightarrow> u32 \<Rightarrow> int \<Rightarrow> int \<Rightarrow> ledger option" where
  "ledger_delta L i db dh =
     (case L i of
        None \<Rightarrow> None
      | Some (b, h) \<Rightarrow>
          if b + db < 0 \<or> max 0 (h + dh) > b + db then None
          else Some (L(i \<mapsto> (b + db, max 0 (h + dh)))))"

definition ledger_hold :: "ledger \<Rightarrow> u32 \<Rightarrow> int \<Rightarrow> ledger option" where
  "ledger_hold L i a =
     (case L i of
        None \<Rightarrow> None
      | Some (b, h) \<Rightarrow> if a > b - h then None else ledger_delta L i 0 a)"

definition ledger_release :: "ledger \<Rightarrow> u32 \<Rightarrow> int \<Rightarrow> ledger option" where
  "ledger_release L i a = ledger_delta L i 0 (- a)"

definition ledger_settle :: "ledger \<Rightarrow> u32 \<Rightarrow> int \<Rightarrow> ledger option" where
  "ledger_settle L i a = ledger_delta L i (- a) (- a)"

definition ledger_credit :: "ledger \<Rightarrow> u32 \<Rightarrow> int \<Rightarrow> ledger option" where
  "ledger_credit L i a = ledger_delta L i a 0"

definition exact_wallet :: "User \<Rightarrow> int \<Rightarrow> int \<Rightarrow> bool" where
  "exact_wallet u b h \<longleftrightarrow>
     wallet_balance u = rs b \<and> wallet_hold u = rs h \<and> 0 \<le> h \<and> h \<le> b \<and> b < exact_limit"

definition ledger_rel :: "world \<Rightarrow> ledger \<Rightarrow> bool" where
  "ledger_rel w L \<longleftrightarrow>
     (\<forall>i. L i = None \<longrightarrow> read_user i w = None) \<and>
     (\<forall>i b h. L i = Some (b, h) \<longrightarrow> (\<exists>u. read_user i w = Some u \<and> exact_wallet u b h))"

definition ledger_bounded :: "ledger \<Rightarrow> bool" where
  "ledger_bounded L \<longleftrightarrow> (\<forall>i b h. L i = Some (b, h) \<longrightarrow> b < exact_limit)"

lemma exact_sum: "\<bar>a\<bar> \<le> exact_limit \<Longrightarrow> \<bar>b\<bar> < exact_limit \<Longrightarrow> \<bar>a + b\<bar> < 2 ^ 53"
  by (simp add: exact_limit_def)

lemma ledger_rel_Some:
  "ledger_rel w L \<Longrightarrow> L i = Some (b, h) \<Longrightarrow> \<exists>u. read_user i w = Some u \<and> exact_wallet u b h"
  by (simp add: ledger_rel_def)

lemma ledger_rel_None: "ledger_rel w L \<Longrightarrow> L i = None \<Longrightarrow> read_user i w = None"
  by (simp add: ledger_rel_def)

lemma ledger_rel_cong: "users_file w = users_file w' \<Longrightarrow> ledger_rel w L = ledger_rel w' L"
  by (simp add: ledger_rel_def read_user_def)

lemma ledger_rel_update:
  assumes rel: "ledger_rel w L" and u: "read_user i w = Some u" and num: "numbered user_id (users w)"
    and "writable w FILE_USERS" and "exact_wallet u' b h" and "user_id u' = user_id u"
  shows "ledger_rel (snd (write_user u' w)) (L(i \<mapsto> (b, h)))"
proof -
  have id: "user_id u' = i" using ut.rd_ident [OF num u] assms(6) by simp
  have r: "read_user j (snd (write_user u' w)) = (if j = i then Some u' else read_user j w)" for j
    using ut.rd_update [OF u id] assms(4) by simp
  show ?thesis
    using rel assms(5) by (auto simp: ledger_rel_def r)
qed

lemma ledger_bounded_updD: "ledger_bounded (L(i \<mapsto> (b, h))) \<Longrightarrow> b < exact_limit"
  unfolding ledger_bounded_def by (metis fun_upd_same)

lemma ledger_bounded_upd: "ledger_bounded L \<Longrightarrow> b < exact_limit \<Longrightarrow> ledger_bounded (L(i \<mapsto> (b, h)))"
  by (auto simp: ledger_bounded_def)

lemma ledger_rel_bounded: "ledger_rel w L \<Longrightarrow> ledger_bounded L"
  by (force simp: ledger_rel_def ledger_bounded_def exact_wallet_def)

lemma apply_exact:
  assumes rel: "ledger_rel w L" and num: "numbered user_id (users w)"
    and wr: "writable w FILE_USERS" and "\<bar>db\<bar> \<le> exact_limit" and "\<bar>dh\<bar> \<le> exact_limit"
  shows "case ledger_delta L i db dh of
      None \<Rightarrow> apply_wallet_delta i (rs db) (rs dh) w = (-1, w)
    | Some L' \<Rightarrow> fst (apply_wallet_delta i (rs db) (rs dh) w) = 0 \<and>
        (ledger_bounded L' \<longrightarrow> ledger_rel (snd (apply_wallet_delta i (rs db) (rs dh) w)) L')"
proof (cases "L i")
  case None
  with rel show ?thesis
    by (simp add: ledger_delta_def apply_wallet_delta_def ledger_rel_None)
next
  case (Some bh)
  obtain b h where L: "L i = Some (b, h)" using Some by (cases bh) simp
  with rel obtain u where u: "read_user i w = Some u" and ex: "exact_wallet u b h"
    by (blast dest: ledger_rel_Some)
  have sums: "wallet_balance u + rs db = rs (b + db)" "wallet_hold u + rs dh = rs (h + dh)"
    using ex assms(4,5) exact_sum [of db b] exact_sum [of dh h]
    by (simp_all add: exact_wallet_def rs_add add.commute)
  let ?u = "u\<lparr>wallet_balance := rs (b + db), wallet_hold := rs (max 0 (h + dh))\<rparr>"
  have ap: "apply_wallet_delta i (rs db) (rs dh) w =
      (if b + db < 0 \<or> max 0 (h + dh) > b + db then (-1, w) else write_user ?u w)"
    using u sums by (auto simp: apply_wallet_delta_def Let_def zero_rs max_def)
  show ?thesis
  proof (cases "b + db < 0 \<or> max 0 (h + dh) > b + db")
    case True
    with L ap show ?thesis by (simp add: ledger_delta_def)
  next
    case False
    have "exact_wallet ?u (b + db) (max 0 (h + dh))"
      if "ledger_bounded (L(i \<mapsto> (b + db, max 0 (h + dh))))"
      using that False by (auto simp: exact_wallet_def dest: ledger_bounded_updD)
    then have "ledger_rel (snd (write_user ?u w)) (L(i \<mapsto> (b + db, max 0 (h + dh))))"
      if "ledger_bounded (L(i \<mapsto> (b + db, max 0 (h + dh))))"
      using ledger_rel_update [OF rel u num wr] that by simp
    moreover have "fst (write_user ?u w) = 0" using wr by (simp add: write_user_def)
    ultimately show ?thesis using False L by (simp add: ap ledger_delta_def)
  qed
qed

text \<open>The four operations refine their ledger counterparts.\<close>

locale ledger_op = wallet_op +
  fixes spec :: "ledger \<Rightarrow> u32 \<Rightarrow> int \<Rightarrow> ledger option"
  assumes refines:
    "ledger_rel w L \<Longrightarrow> numbered user_id (users w) \<Longrightarrow> writable w FILE_USERS \<Longrightarrow>
     \<bar>a\<bar> \<le> exact_limit \<Longrightarrow>
     (case spec L i a of
        None \<Rightarrow> fst (op i (rs a) w) = -1 \<and> users_file (snd (op i (rs a) w)) = users_file w
      | Some L' \<Rightarrow> fst (op i (rs a) w) = 0 \<and>
          (ledger_bounded L' \<longrightarrow> ledger_rel (snd (op i (rs a) w)) L'))"
begin

lemma refines_Some:
  "ledger_rel w L \<Longrightarrow> numbered user_id (users w) \<Longrightarrow> writable w FILE_USERS \<Longrightarrow>
   \<bar>a\<bar> \<le> exact_limit \<Longrightarrow> spec L i a = Some L' \<Longrightarrow> ledger_bounded L' \<Longrightarrow>
   fst (op i (rs a) w) = 0 \<and> ledger_rel (snd (op i (rs a) w)) L'"
  using refines [of w L a i] by simp

lemma refines_None:
  "ledger_rel w L \<Longrightarrow> numbered user_id (users w) \<Longrightarrow> writable w FILE_USERS \<Longrightarrow>
   \<bar>a\<bar> \<le> exact_limit \<Longrightarrow> spec L i a = None \<Longrightarrow>
   fst (op i (rs a) w) = -1 \<and> ledger_rel (snd (op i (rs a) w)) L"
  using refines [of w L a i] by (auto cong: ledger_rel_cong)

lemma numbered_after:
  "numbered user_id (users w) \<Longrightarrow> numbered user_id (users (snd (op i a w)))"
  using op_accounts [of w i a] by (simp add: accounts_kept_numbered)

end

interpretation rl: ledger_op release_hold ledger_release
proof (unfold_locales, goal_cases)
  case (1 w L a i)
  then show ?case
    using apply_exact [of w L 0 "- a" i]
    by (auto simp: release_hold_shape ledger_release_def zero_rs [symmetric] exact_limit_def
        cong: ledger_rel_cong split: option.splits)
qed

interpretation sl: ledger_op settle_payment ledger_settle
proof (unfold_locales, goal_cases)
  case (1 w L a i)
  then show ?case
    using apply_exact [of w L "- a" "- a" i]
    by (auto simp: settle_payment_shape ledger_settle_def exact_limit_def
        cong: ledger_rel_cong split: option.splits)
qed

interpretation cl: ledger_op credit_wallet ledger_credit
proof (unfold_locales, goal_cases)
  case (1 w L a i)
  then show ?case
    using apply_exact [of w L a 0 i]
    by (auto simp: credit_wallet_shape ledger_credit_def zero_rs [symmetric] exact_limit_def
        cong: ledger_rel_cong split: option.splits)
qed

interpretation pl: ledger_op place_hold ledger_hold
proof (unfold_locales, goal_cases)
  case (1 w L a i)
  show ?case
  proof (cases "L i")
    case None
    with 1 show ?thesis by (simp add: place_hold_shape ledger_hold_def ledger_rel_None)
  next
    case (Some bh)
    obtain b h where L: "L i = Some (b, h)" using Some by (cases bh) simp
    with 1 obtain u where u: "read_user i w = Some u" and ex: "exact_wallet u b h"
      by (blast dest: ledger_rel_Some)
    have "wallet_balance u - wallet_hold u = rs (b - h)"
      using ex by (simp add: exact_wallet_def rs_minus exact_limit_def)
    with u L 1 show ?thesis
      using apply_exact [of w L 0 a i]
      by (auto simp: place_hold_shape ledger_hold_def zero_rs [symmetric] exact_limit_def
          cong: ledger_rel_cong split: option.splits)
  qed
qed

text \<open>Every operation keeps \<open>0 \<le> hold \<le> balance\<close> in the ledger, and says how it moves a user.\<close>

lemma ledger_delta_Some:
  "ledger_delta L i db dh = Some L' \<longleftrightarrow>
     (\<exists>b h. L i = Some (b, h) \<and> 0 \<le> b + db \<and> max 0 (h + dh) \<le> b + db \<and>
            L' = L(i \<mapsto> (b + db, max 0 (h + dh))))"
  by (auto simp: ledger_delta_def split: option.split)

lemma ledger_release_Some:
  "L i = Some (b, h) \<Longrightarrow> 0 \<le> a \<Longrightarrow> a \<le> h \<Longrightarrow> h \<le> b \<Longrightarrow>
   ledger_release L i a = Some (L(i \<mapsto> (b, h - a)))"
  by (simp add: ledger_release_def ledger_delta_def)

lemma ledger_settle_Some:
  "L i = Some (b, h) \<Longrightarrow> 0 \<le> a \<Longrightarrow> a \<le> h \<Longrightarrow> h \<le> b \<Longrightarrow>
   ledger_settle L i a = Some (L(i \<mapsto> (b - a, h - a)))"
  by (simp add: ledger_settle_def ledger_delta_def)

lemma ledger_credit_Some:
  "L i = Some (b, h) \<Longrightarrow> 0 \<le> a \<Longrightarrow> 0 \<le> h \<Longrightarrow> h \<le> b \<Longrightarrow>
   ledger_credit L i a = Some (L(i \<mapsto> (b + a, h)))"
  by (simp add: ledger_credit_def ledger_delta_def)

lemma ledger_hold_Some:
  "L i = Some (b, h) \<Longrightarrow> 0 \<le> a \<Longrightarrow> 0 \<le> h \<Longrightarrow> a \<le> b - h \<Longrightarrow>
   ledger_hold L i a = Some (L(i \<mapsto> (b, h + a)))"
  by (simp add: ledger_hold_def ledger_delta_def)

lemmas ledger_simps =
  ledger_release_Some ledger_settle_Some ledger_credit_Some ledger_hold_Some

section \<open>Requests\<close>

lemma apply_length: "length (users w) \<le> length (users (snd (apply_wallet_delta i b h w)))"
  by (simp add: apply_wallet_delta_def write_user_def Let_def length_rec_write split: option.split)

lemma deposit_rereads:
  "fst (credit_wallet i a w) = 0 \<Longrightarrow> \<exists>u. read_user i (snd (credit_wallet i a w)) = Some u"
proof -
  assume ok: "fst (credit_wallet i a w) = 0"
  then have "slot_of i < length (users w)"
    by (auto simp: credit_wallet_shape apply_wallet_delta_def ut.rd_Some split: option.splits)
  then have "slot_of i < length (users (snd (credit_wallet i a w)))"
    using apply_length [of w i a 0] by (simp add: credit_wallet_shape)
  then show ?thesis by (simp add: ut.rd_rows)
qed

lemma handle_deposit_world:
  "snd (handle_deposit fd req u w) =
     (if deposit_amount req \<le> 0 then send_msg fd MSG_DEPOSIT_RESP ERR_INTERNAL P_None w
      else let w' = snd (credit_wallet (user_id u) (deposit_amount req) w)
           in if fst (credit_wallet (user_id u) (deposit_amount req) w) = 0
              then send_msg fd MSG_DEPOSIT_RESP ERR_OK
                     (P_User (the (read_user (user_id u) w'))) w'
              else send_msg fd MSG_DEPOSIT_RESP ERR_INTERNAL P_None w')"
  using cw.op_result [of "user_id u" "deposit_amount req" w]
    deposit_rereads [of "user_id u" "deposit_amount req" w]
  by (auto simp: handle_deposit_def Let_def split: prod.split)

lemma handle_deposit_frame [simp, frame_simps]:
  "auctions_file (snd (handle_deposit fd req u w)) = auctions_file w"
  "bids_file (snd (handle_deposit fd req u w)) = bids_file w"
  "sessions_file (snd (handle_deposit fd req u w)) = sessions_file w"
  "feedback_file (snd (handle_deposit fd req u w)) = feedback_file w"
  "disputes_file (snd (handle_deposit fd req u w)) = disputes_file w"
  "writable (snd (handle_deposit fd req u w)) = writable w"
  "registry (snd (handle_deposit fd req u w)) = registry w"
  "now (snd (handle_deposit fd req u w)) = now w"
  by (simp_all add: handle_deposit_world Let_def)

lemma handle_view_balance_frame [simp, frame_simps]:
  "users_file (handle_view_balance fd u w) = users_file w"
  "auctions_file (handle_view_balance fd u w) = auctions_file w"
  "bids_file (handle_view_balance fd u w) = bids_file w"
  "sessions_file (handle_view_balance fd u w) = sessions_file w"
  "feedback_file (handle_view_balance fd u w) = feedback_file w"
  "disputes_file (handle_view_balance fd u w) = disputes_file w"
  "txn_log (handle_view_balance fd u w) = txn_log w"
  "writable (handle_view_balance fd u w) = writable w"
  "registry (handle_view_balance fd u w) = registry w"
  "now (handle_view_balance fd u w) = now w"
  by (simp_all add: handle_view_balance_def split: option.split)

section \<open>Properties\<close>

text \<open>C8: No wallet operation of the server, whatever its amount (short of a NaN or an infinity),
  breaks \<open>0 \<le> hold \<le> balance\<close> for any user on file, rounding and overflow of the IEEE sums
  included.\<close>

theorem wallet_guard:
  assumes "numbered user_id (users w)" and "list_all wallet_ok (users w)" and "is_finite a"
  shows "list_all wallet_ok (users (snd (place_hold i a w)))
       \<and> list_all wallet_ok (users (snd (release_hold i a w)))
       \<and> list_all wallet_ok (users (snd (settle_payment i a w)))
       \<and> list_all wallet_ok (users (snd (credit_wallet i a w)))"
  using assms by (simp_all add: ph.op_wallets_ok rh.op_wallets_ok sp.op_wallets_ok cw.op_wallets_ok)

lemma sample_wallets_ok: "list_all wallet_ok (users sample_world)"
  by (simp add: wallet_ok_def)

theorem wallet_guard_witness:
  "list_all wallet_ok (users (snd (place_hold 3 (rs 500) sample_world)))"
  using wallet_guard [OF sample_numbered(1) sample_wallets_ok rs_finite] by blast

text \<open>A wallet operation reports either success or failure, and one that reports failure leaves
  the whole user file as it was: there is no partial update.\<close>

lemma wallet_all_or_nothing:
  "fst (place_hold i a w) \<in> {0, -1} \<and> fst (release_hold i a w) \<in> {0, -1} \<and>
   fst (settle_payment i a w) \<in> {0, -1} \<and> fst (credit_wallet i a w) \<in> {0, -1} \<and>
   (users_file (snd (place_hold i a w)) \<noteq> users_file w \<longrightarrow> fst (place_hold i a w) = 0) \<and>
   (users_file (snd (release_hold i a w)) \<noteq> users_file w \<longrightarrow> fst (release_hold i a w) = 0) \<and>
   (users_file (snd (settle_payment i a w)) \<noteq> users_file w \<longrightarrow> fst (settle_payment i a w) = 0) \<and>
   (users_file (snd (credit_wallet i a w)) \<noteq> users_file w \<longrightarrow> fst (credit_wallet i a w) = 0)"
  using ph.op_result [of i a w] rh.op_result [of i a w] sp.op_result [of i a w]
    cw.op_result [of i a w] ph.op_rejected [of i a w] rh.op_rejected [of i a w]
    sp.op_rejected [of i a w] cw.op_rejected [of i a w]
  by auto

definition refined :: "int \<times> world \<Rightarrow> world \<Rightarrow> ledger option \<Rightarrow> bool" where
  "refined r w s \<longleftrightarrow>
     (case s of
        None \<Rightarrow> fst r = -1 \<and> users_file (snd r) = users_file w
      | Some L' \<Rightarrow> fst r = 0 \<and> (ledger_bounded L' \<longrightarrow> ledger_rel (snd r) L'))"

text \<open>C7: On whole amounts below \<open>2 ^ 52\<close> the four operations are exactly the ledger operations
  their comments describe: a hold freezes available funds or fails, a release unfreezes, a
  settlement takes the amount from balance and hold, a credit adds to the balance; each fails
  exactly when the ledger operation does.\<close>

theorem wallet_refines_ledger:
  assumes "ledger_rel w L" and "numbered user_id (users w)" and "writable w FILE_USERS"
    and "\<bar>a\<bar> \<le> exact_limit"
  shows "refined (place_hold i (rs a) w) w (ledger_hold L i a)
       \<and> refined (release_hold i (rs a) w) w (ledger_release L i a)
       \<and> refined (settle_payment i (rs a) w) w (ledger_settle L i a)
       \<and> refined (credit_wallet i (rs a) w) w (ledger_credit L i a)"
  unfolding refined_def
  using pl.refines [OF assms, of i] rl.refines [OF assms, of i] sl.refines [OF assms, of i]
    cl.refines [OF assms, of i] by blast

definition sample_ledger :: ledger where
  "sample_ledger i =
     (if i \<in> {1, 5} then Some (0, 0) else if i = 2 then Some (150, 0)
      else if i = 3 then Some (1000, 300) else if i = 4 then Some (800, 200) else None)"

lemma sample_slots: "slot_of i < 5 \<longleftrightarrow> i \<in> {1, 2, 3, 4, 5}"
proof
  assume "slot_of i < 5"
  then have "slot_of i \<in> {0, 1, 2, 3, 4}" by auto
  then have "word_of_nat (slot_of i) + 1 \<in> {1, 2, 3, 4, 5 :: u32}" by auto
  then show "i \<in> {1, 2, 3, 4, 5}" by (simp add: of_slot)
qed (auto simp: slot_of_def)

lemma sample_ledger_rel: "ledger_rel sample_world sample_ledger"
  unfolding ledger_rel_def
proof (intro conjI allI impI)
  fix i
  assume "sample_ledger i = None"
  then have "\<not> slot_of i < 5" by (auto simp: sample_slots sample_ledger_def split: if_splits)
  then show "read_user i sample_world = None" by (simp add: ut.rd_rows)
next
  fix i b h
  assume "sample_ledger i = Some (b, h)"
  then show "\<exists>u. read_user i sample_world = Some u \<and> exact_wallet u b h"
    by (auto simp: sample_ledger_def exact_wallet_def exact_limit_def split: if_splits)
qed

theorem wallet_refines_ledger_witness:
  "refined (place_hold 3 (rs 500) sample_world) sample_world (ledger_hold sample_ledger 3 500)"
proof -
  have "\<bar>500\<bar> \<le> exact_limit" by (simp add: exact_limit_def)
  from wallet_refines_ledger [OF sample_ledger_rel sample_numbered(1) sample_files(7) this, of 3]
  show ?thesis by blast
qed

text \<open>Releasing a hold undoes placing it: after a successful hold of a whole amount, a release of
  the same amount succeeds and the user has the balance and the hold of before.\<close>

lemma hold_release_roundtrip:
  assumes "numbered user_id (users w)" and "writable w FILE_USERS"
    and "read_user i w = Some u" and "exact_wallet u b h" and "0 \<le> a" and "a \<le> b - h"
  shows "fst (place_hold i (rs a) w) = 0 \<and>
    fst (release_hold i (rs a) (snd (place_hold i (rs a) w))) = 0 \<and>
    (\<exists>u'. read_user i (snd (release_hold i (rs a) (snd (place_hold i (rs a) w)))) = Some u' \<and>
       exact_wallet u' b h \<and> same_account u u')"
proof -
  have id: "user_id u = i" using assms(1,3) by (rule ut.rd_ident)
  have *: "b < exact_limit" "0 \<le> h" "h \<le> b" "wallet_balance u = rs b" "wallet_hold u = rs h"
    using assms(4) by (simp_all add: exact_wallet_def)
  then have **: "\<bar>b - h\<bar> < 2 ^ 53" "\<bar>h + a\<bar> < 2 ^ 53" "\<bar>h\<bar> < 2 ^ 53" "\<bar>b\<bar> < 2 ^ 53" "\<bar>h + a - a\<bar> < 2 ^ 53"
    using assms(5,6) by (simp_all add: exact_limit_def)
  let ?u1 = "u\<lparr>wallet_hold := rs (h + a)\<rparr>"
  have u1: "u\<lparr>wallet_balance := rs b, wallet_hold := rs (h + a)\<rparr> = ?u1"
    using *(4) by (cases u) simp
  have p: "place_hold i (rs a) w = (0, log_txn (L_HOLD i (rs a)) (snd (write_user ?u1 w)))"
    using assms(2,3,5,6) * **
    by (simp add: place_hold_shape apply_wallet_delta_def Let_def rs_minus rs_add u1
        ut.wr_status prod_eq_iff)
  let ?w1 = "snd (place_hold i (rs a) w)"
  have r1: "read_user i ?w1 = Some ?u1"
    using ut.rd_update [OF assms(3), of ?u1 i] assms(2) id by (simp add: p)
  have rel: "rs (h + a) + rs (- a) = rs h" using ** by (simp add: rs_add)
  have u2: "u\<lparr>wallet_balance := rs b, wallet_hold := rs h\<rparr> = u"
    using *(4,5) by (cases u) simp
  have q: "release_hold i (rs a) ?w1 = (0, log_txn (L_RELEASE i (rs a)) (snd (write_user u ?w1)))"
    using r1 * ** assms(2) rel
    by (simp add: release_hold_shape apply_wallet_delta_def Let_def p ut.wr_status prod_eq_iff u2)
  have "read_user i (snd (write_user u ?w1)) = Some u"
    using ut.rd_update [OF r1, of u i] assms(2) id by (simp add: p)
  then show ?thesis using assms(4) by (simp add: q) (simp add: p)
qed

text \<open>C40: The wallet checks do not survive a NaN: a deposit of NaN passes the check \<open>amount <= 0\<close> and
  the balance guard, is confirmed to the client, and leaves a wallet from which every later
  hold, of any amount, succeeds.\<close>

theorem nan_deposit_unlimited_credit:
  assumes "numbered user_id (users w)" and "writable w FILE_USERS"
    and "read_user (user_id u) w = Some r" and "deposit_amount req = NaN"
  shows "\<exists>u' w'. handle_deposit fd req u w = (u', w') \<and> wallet_balance u' = NaN \<and>
     read_user (user_id u) w' = Some u' \<and>
     sent w' = sent w @
       [(fd, \<lparr>msg_type = MSG_DEPOSIT_RESP, msg_status = ERR_OK, msg_payload = P_User u'\<rparr>)] \<and>
     (\<forall>a. fst (place_hold (user_id u) a w') = 0)"
proof -
  let ?i = "user_id u"
  let ?h = "if wallet_hold r + 0 < 0 then 0 else wallet_hold r + 0"
  let ?r = "r\<lparr>wallet_balance := NaN, wallet_hold := ?h\<rparr>"
  have id: "user_id r = ?i" using assms(1,3) by (rule ut.rd_ident)
  have c: "credit_wallet ?i NaN w = (0, log_txn (L_CREDIT ?i NaN) (snd (write_user ?r w)))"
    using assms(2,3)
    by (simp add: credit_wallet_shape apply_wallet_delta_def Let_def ut.wr_status prod_eq_iff)
  let ?w1 = "log_txn (L_CREDIT ?i NaN) (snd (write_user ?r w))"
  let ?w2 = "send_msg fd MSG_DEPOSIT_RESP ERR_OK (P_User ?r) ?w1"
  have r1: "read_user ?i ?w1 = Some ?r"
    using ut.rd_update [OF assms(3), of ?r ?i] assms(2) id by simp
  then have "handle_deposit fd req u w = (?r, ?w2)"
    using assms(4) by (simp add: handle_deposit_def c)
  moreover have "read_user ?i ?w2 = Some ?r" using r1 by simp
  moreover have "fst (place_hold ?i a ?w2) = 0" for a
    using r1 assms(2)
    by (simp add: place_hold_shape apply_wallet_delta_def minus_dbl_def Let_def ut.wr_status)
  moreover have "sent ?w2 = sent w @
      [(fd, \<lparr>msg_type = MSG_DEPOSIT_RESP, msg_status = ERR_OK, msg_payload = P_User ?r\<rparr>)]"
    by (simp add: send_msg_def)
  ultimately show ?thesis by fastforce
qed

theorem nan_deposit_unlimited_credit_witness:
  "\<exists>u' w'. handle_deposit 7 \<lparr>deposit_amount = NaN\<rparr> (sample_user 3 ''bob'' ROLE_BIDDER 1000 300)
      sample_world = (u', w') \<and> fst (place_hold 3 (rs 1000000) w') = 0"
  using nan_deposit_unlimited_credit [OF sample_numbered(1) sample_files(7),
      of "sample_user 3 ''bob'' ROLE_BIDDER 1000 300" _ "\<lparr>deposit_amount = NaN\<rparr>" 7]
  by fastforce

text \<open>A deposit of a whole positive amount is confirmed, credits exactly that amount to the
  depositor on file and in the connection's copy, and changes no other user; an amount that is
  not positive is refused and changes nothing on file.\<close>

lemma deposit_functional:
  assumes "numbered user_id (users w)" and "writable w FILE_USERS"
    and "read_user (user_id u) w = Some r" and "exact_wallet r b h"
    and "deposit_amount req = rs a" and "b + a < exact_limit"
  shows "if 0 < a then \<exists>u' w'. handle_deposit fd req u w = (u', w') \<and>
      read_user (user_id u) w' = Some u' \<and> exact_wallet u' (b + a) h \<and> same_account r u' \<and>
      (\<forall>j. j \<noteq> user_id u \<longrightarrow> read_user j w' = read_user j w)
    else handle_deposit fd req u w = (u, send_msg fd MSG_DEPOSIT_RESP ERR_INTERNAL P_None w)"
proof (cases "0 < a")
  case a: True
  let ?i = "user_id u"
  have id: "user_id r = ?i" using assms(1,3) by (rule ut.rd_ident)
  have *: "b < exact_limit" "0 \<le> h" "h \<le> b" "wallet_balance r = rs b" "wallet_hold r = rs h"
    using assms(4) by (simp_all add: exact_wallet_def)
  let ?r = "r\<lparr>wallet_balance := rs (b + a), wallet_hold := rs h\<rparr>"
  have b: "\<bar>b + a\<bar> < 2 ^ 53" "\<bar>h\<bar> < 2 ^ 53" using a * assms(6) by (simp_all add: exact_limit_def)
  have c: "credit_wallet ?i (rs a) w = (0, log_txn (L_CREDIT ?i (rs a)) (snd (write_user ?r w)))"
    using assms(2,3) * a b
    by (simp add: credit_wallet_shape apply_wallet_delta_def Let_def rs_add ut.wr_status
        prod_eq_iff)
  let ?w1 = "log_txn (L_CREDIT ?i (rs a)) (snd (write_user ?r w))"
  have r1: "read_user j ?w1 = (if j = ?i then Some ?r else read_user j w)" for j
    using ut.rd_update [OF assms(3), of ?r j] assms(2) id by simp
  have "handle_deposit fd req u w = (?r, send_msg fd MSG_DEPOSIT_RESP ERR_OK (P_User ?r) ?w1)"
    using a assms(5) r1 by (simp add: handle_deposit_def c)
  moreover have "exact_wallet ?r (b + a) h" using * assms(6) a by (simp add: exact_wallet_def)
  ultimately show ?thesis
    using r1 a by simp
next
  case False
  with assms(5) show ?thesis by (simp add: handle_deposit_def)
qed

end
