(* ===== verification/Auth.thy ===== *)
theory Auth
  imports Wallet
begin

text \<open>
  \<^verbatim>\<open>server/auth.c\<close>: login, logout and the change of password. The password digest is computed by
  a shell pipeline: \<open>popen\<close> is a parameter of the model (shell and OpenSSL are not part of the
  repository) that gives the output of a command, \<open>None\<close> when \<^verbatim>\<open>popen\<close> fails. A password field is
  the text of the request from that field on, as \<^verbatim>\<open>%s\<close> reads it.

  The check of the session file and the creation of the session run under \<^verbatim>\<open>auth_lock\<close>, which the
  model keeps as one step.
\<close>

section \<open>The digest\<close>

type_synonym shell = "char list \<Rightarrow> char list option"

abbreviation quote :: char where
  "quote \<equiv> CHR 0x27"

definition sha256_cmd :: "char list \<Rightarrow> char list" where
  \<comment> \<open>\<^verbatim>\<open>snprintf\<close> into \<^verbatim>\<open>cmd[256]\<close>\<close>
  "sha256_cmd input =
     take 255 (''echo -n '' @ [quote] @ cstring input @ [quote]
               @ '' | openssl dgst -sha256 | awk '' @ [quote] @ ''{print $2}'' @ [quote])"

definition sha256_hex :: "shell \<Rightarrow> char list \<Rightarrow> char list \<Rightarrow> char list" where
  \<comment> \<open>\<open>out\<close> is the memory from the buffer on; the result is that memory afterwards\<close>
  "sha256_hex popen input out =
     (case popen (sha256_cmd input) of
        None \<Rightarrow> strncpy out (replicate 64 CHR ''0'') 64
      | Some txt \<Rightarrow>
          let out = fgets out 65 txt
          in out[strcspn_nl out := NUL])"

definition hash_of :: "shell \<Rightarrow> char list \<Rightarrow> char list" where
  \<comment> \<open>the digest as left in a local buffer \<^verbatim>\<open>char hashed[65] = {0}\<close>\<close>
  "hash_of popen pw = sha256_hex popen pw (replicate 65 NUL)"

section \<open>Requests\<close>

record LoginPayload =
  login_username :: "char list"
  login_password :: "char list"

definition handle_login ::
  "shell \<Rightarrow> int \<Rightarrow> LoginPayload \<Rightarrow> User \<Rightarrow> world \<Rightarrow> bool \<times> User \<times> world" where
  \<comment> \<open>the return value (authenticated or not), \<open>*out_user\<close> and the state\<close>
  "handle_login popen client_fd req out_user w =
     (case find_user_by_username (login_username req) w of
        None \<Rightarrow> (False, out_user, send_msg client_fd MSG_LOGIN_RESP ERR_AUTH_FAIL P_None w)
      | Some u \<Rightarrow>
          if acct_status u = ACCOUNT_BANNED
          then (False, out_user, send_msg client_fd MSG_LOGIN_RESP ERR_ACCOUNT_BANNED P_None w)
          else if acct_status u = ACCOUNT_INACTIVE
          then (False, out_user, send_msg client_fd MSG_LOGIN_RESP ERR_ACCOUNT_BANNED P_None w)
          else if \<not> strncmp_eq (hash_of popen (login_password req)) (password u) 64
          then (False, out_user, send_msg client_fd MSG_LOGIN_RESP ERR_AUTH_FAIL P_None w)
          else if find_session_slot (user_id u) w \<ge> 0
          then (False, out_user, send_msg client_fd MSG_LOGIN_RESP ERR_ALREADY_LOGGED P_None w)
          else
            let (slot, w) = find_free_slot w
            in if slot < 0
               then (False, out_user, send_msg client_fd MSG_LOGIN_RESP ERR_INTERNAL P_None w)
               else
                 let s = \<lparr>session_user_id = user_id u, session_fd = client_fd,
                          login_time = now w, is_active = True\<rparr>;
                     w = snd (write_session slot s w);
                     w = notify_register (user_id u) client_fd w;
                     u = u\<lparr>last_login := now w\<rparr>;
                     w = snd (write_user u w);
                     w = send_msg client_fd MSG_LOGIN_RESP ERR_OK (P_User u) w;
                     w = log_txn (L_LOGIN (user_id u) (username u)) w
                 in (True, u, w))"

definition handle_logout :: "int \<Rightarrow> User \<Rightarrow> world \<Rightarrow> world" where
  "handle_logout client_fd u w =
     (let slot = find_session_slot (user_id u) w;
          w = (if slot \<ge> 0 then snd (write_session slot zero_Session w) else w);
          w = notify_unregister (user_id u) w;
          w = send_msg client_fd MSG_LOGOUT_RESP ERR_OK P_None w
      in log_txn (L_LOGOUT (user_id u)) w)"

record ChangePassPayload =
  old_password :: "char list"
  new_password :: "char list"

definition handle_change_password ::
  "shell \<Rightarrow> int \<Rightarrow> ChangePassPayload \<Rightarrow> User \<Rightarrow> world \<Rightarrow> User \<times> world" where
  "handle_change_password popen client_fd req u w =
     (if \<not> strncmp_eq (hash_of popen (old_password req)) (password u) 64
      then (u, send_msg client_fd MSG_CHANGE_PASS_RESP ERR_AUTH_FAIL P_None w)
      else
        let hashed_new = hash_of popen (new_password req);
            u = u\<lparr>password := strncpy (password u) hashed_new MAX_PASSWORD\<rparr>;
            w = snd (write_user u w);
            w = send_msg client_fd MSG_CHANGE_PASS_RESP ERR_OK P_None w
        in (u, log_txn (L_CHANGE_PASS (user_id u)) w))"

section \<open>Session slots\<close>

definition active_sessions :: "Session list \<Rightarrow> u32 list" where
  "active_sessions ss = map session_user_id (filter is_active ss)"

definition sessions_inv :: "Session list \<Rightarrow> bool" where
  \<comment> \<open>one active session per user, and at most \<open>MAX_SESSIONS\<close> slots\<close>
  "sessions_inv ss \<longleftrightarrow> distinct (active_sessions ss) \<and> length ss \<le> MAX_SESSIONS"

lemma active_sessions_simps [simp]:
  "active_sessions [] = []"
  "active_sessions (s # ss) =
     (if is_active s then session_user_id s # active_sessions ss else active_sessions ss)"
  "active_sessions (ss @ ts) = active_sessions ss @ active_sessions ts"
  by (simp_all add: active_sessions_def)

lemma set_active_update:
  "set (active_sessions (ss[k := s])) \<subseteq>
     (if is_active s then insert (session_user_id s) (set (active_sessions ss))
      else set (active_sessions ss))"
  using set_update_subset_insert [of ss k s] by (auto simp: active_sessions_def)

lemma distinct_active_update:
  "distinct (active_sessions ss) \<Longrightarrow>
   is_active s \<Longrightarrow> \<not> is_active (ss ! k) \<Longrightarrow> session_user_id s \<notin> set (active_sessions ss) \<Longrightarrow>
   distinct (active_sessions (ss[k := s]))"
proof (induction ss arbitrary: k)
  case (Cons t ss)
  show ?case
  proof (cases k)
    case 0
    with Cons.prems show ?thesis by (auto split: if_splits)
  next
    case (Suc k')
    with Cons.prems have "distinct (active_sessions (ss[k' := s]))"
      by (intro Cons.IH) (auto split: if_splits)
    with Suc Cons.prems set_active_update [of ss k' s] show ?thesis
      by (cases "is_active t") auto
  qed
qed simp

lemma distinct_active_clear:
  "distinct (active_sessions ss) \<Longrightarrow> \<not> is_active s \<Longrightarrow> distinct (active_sessions (ss[k := s]))"
proof (induction ss arbitrary: k)
  case (Cons t ss)
  show ?case
  proof (cases k)
    case 0
    with Cons.prems show ?thesis by (auto split: if_splits)
  next
    case (Suc k')
    with Cons.prems have "distinct (active_sessions (ss[k' := s]))"
      by (intro Cons.IH) (auto split: if_splits)
    with Suc Cons.prems set_active_update [of ss k' s] show ?thesis
      by (cases "is_active t") auto
  qed
qed simp

lemma active_clear_gone:
  "distinct (active_sessions ss) \<Longrightarrow> k < length ss \<Longrightarrow> is_active (ss ! k) \<Longrightarrow> \<not> is_active s \<Longrightarrow>
   session_user_id (ss ! k) \<notin> set (active_sessions (ss[k := s]))"
proof (induction ss arbitrary: k)
  case (Cons t ss)
  show ?case
  proof (cases k)
    case 0
    with Cons.prems show ?thesis by (auto split: if_splits)
  next
    case (Suc k')
    then have nth: "session_user_id ((t # ss) ! k) \<in> set (active_sessions ss)"
      using Cons.prems by (auto simp: active_sessions_def)
    have "session_user_id (ss ! k') \<notin> set (active_sessions (ss[k' := s]))"
      using Cons.prems Suc by (intro Cons.IH) (auto split: if_splits)
    with Suc Cons.prems nth show ?thesis by (cases "is_active t") auto
  qed
qed simp

lemma slot_none_iff: "find_session_slot uid w < 0 \<longleftrightarrow> uid \<notin> set (active_sessions (sessions w))"
  unfolding find_session_slot_def
  by (subst session_slot_loop_none) (auto simp: active_sessions_def)

lemma slot_found:
  assumes "find_session_slot uid w \<ge> 0"
  shows "nat (find_session_slot uid w) < length (sessions w)
    \<and> is_active (sessions w ! nat (find_session_slot uid w))
    \<and> session_user_id (sessions w ! nat (find_session_slot uid w)) = uid"
  using session_slot_loop_found [of 0 uid "sessions w" "find_session_slot uid w"] assms
  by (simp add: find_session_slot_def)

lemma free_slot_found:
  assumes "writable w FILE_SESSIONS" and "fst (find_free_slot w) \<ge> 0"
  shows "fst (find_free_slot w) < int MAX_SESSIONS \<and>
    (nat (fst (find_free_slot w)) = length (sessions w) \<or>
     nat (fst (find_free_slot w)) < length (sessions w) \<and>
       \<not> is_active (sessions w ! nat (fst (find_free_slot w))))"
proof -
  obtain found slot where l: "free_slot_loop 0 (sessions w) = (found, slot)"
    by (cases "free_slot_loop 0 (sessions w)")
  from free_slot_loop_spec [OF _ l] assms show ?thesis
    by (auto simp: find_free_slot_def l split: if_splits)
qed

lemma free_slot_sessions [simp]: "sessions (snd (find_free_slot w)) = sessions w"
  by (simp add: find_free_slot_def Let_def split: prod.split)

lemma sessions_write:
  "nat slot \<le> length (sessions w) \<Longrightarrow> writable w FILE_SESSIONS \<Longrightarrow>
   sessions (snd (write_session slot s w)) =
     (if nat slot = length (sessions w) then sessions w @ [s] else (sessions w)[nat slot := s])"
  by (auto simp: write_session_def records_write_end records_write_existing)

lemma sessions_create_eq:
  assumes wr: "writable w FILE_SESSIONS" and slot: "fst (find_free_slot w) \<ge> 0"
  defines "k \<equiv> nat (fst (find_free_slot w))"
  shows "(k = length (sessions w) \<and> k < MAX_SESSIONS \<or> k < length (sessions w) \<and> \<not> is_active (sessions w ! k)) \<and>
    sessions (snd (write_session (fst (find_free_slot w)) s (snd (find_free_slot w)))) =
      (if k = length (sessions w) then sessions w @ [s] else (sessions w)[k := s])"
proof -
  from free_slot_found [OF wr slot]
  have k: "k = length (sessions w) \<and> k < MAX_SESSIONS \<or> k < length (sessions w) \<and> \<not> is_active (sessions w ! k)"
    using slot by (auto simp: k_def nat_less_iff)
  then show ?thesis using wr by (subst sessions_write) (auto simp: k_def)
qed

lemma active_update_keeps:
  "\<not> is_active (ss ! k) \<Longrightarrow> set (active_sessions ss) \<subseteq> set (active_sessions (ss[k := s]))"
proof (induction ss arbitrary: k)
  case (Cons t ss)
  then show ?case by (cases k) (auto split: if_splits)
qed simp

lemma sessions_inv_create:
  assumes inv: "sessions_inv (sessions w)" and wr: "writable w FILE_SESSIONS"
    and slot: "fst (find_free_slot w) \<ge> 0"
    and s: "is_active s" "session_user_id s \<notin> set (active_sessions (sessions w))"
  defines "w' \<equiv> snd (write_session (fst (find_free_slot w)) s (snd (find_free_slot w)))"
  shows "sessions_inv (sessions w') \<and> session_user_id s \<in> set (active_sessions (sessions w')) \<and>
    set (active_sessions (sessions w)) \<subseteq> set (active_sessions (sessions w'))"
proof -
  let ?k = "nat (fst (find_free_slot w))"
  note k = sessions_create_eq [OF wr slot, THEN conjunct1]
  have eq: "sessions w' =
      (if ?k = length (sessions w) then sessions w @ [s] else (sessions w)[?k := s])"
    using sessions_create_eq [OF wr slot, of s] by (simp add: w'_def)
  show ?thesis
  proof (cases "?k = length (sessions w)")
    case True
    with k eq inv s show ?thesis by (auto simp: sessions_inv_def)
  next
    case False
    with k have ks: "?k < length (sessions w)" "\<not> is_active (sessions w ! ?k)" by auto
    then have "s \<in> set ((sessions w)[?k := s])" by (simp add: set_update_memI)
    then have "session_user_id s \<in> set (active_sessions ((sessions w)[?k := s]))"
      using s(1) by (auto simp: active_sessions_def)
    then show ?thesis
      using eq False inv s ks distinct_active_update [of "sessions w" s ?k] active_update_keeps [OF ks(2), of s]
      by (simp add: sessions_inv_def)
  qed
qed

lemma sessions_inv_clear:
  assumes inv: "sessions_inv (sessions w)" and wr: "writable w FILE_SESSIONS"
    and slot: "find_session_slot uid w \<ge> 0"
  defines "w' \<equiv> snd (write_session (find_session_slot uid w) zero_Session w)"
  shows "sessions_inv (sessions w') \<and>
    set (active_sessions (sessions w')) = set (active_sessions (sessions w)) - {uid}"
proof -
  let ?k = "nat (find_session_slot uid w)"
  note k = slot_found [OF slot]
  then have eq: "sessions w' = (sessions w)[?k := zero_Session]"
    using wr by (simp add: w'_def sessions_write)
  have z: "\<not> is_active zero_Session" by (simp add: zero_Session_def)
  have "uid \<notin> set (active_sessions (sessions w'))"
    using active_clear_gone [of "sessions w" ?k zero_Session] k inv z eq
    by (simp add: sessions_inv_def)
  moreover have "set (active_sessions (sessions w')) \<subseteq> set (active_sessions (sessions w))"
    using set_active_update [of "sessions w" ?k zero_Session] z eq by simp
  moreover have "v \<in> set (active_sessions (sessions w'))"
    if "v \<in> set (active_sessions (sessions w))" "v \<noteq> uid" for v
  proof -
    from that obtain j where j: "j < length (sessions w)" "is_active (sessions w ! j)"
        "session_user_id (sessions w ! j) = v"
      by (auto simp: active_sessions_def in_set_conv_nth)
    with k that(2) have "j \<noteq> ?k" by auto
    with j have "(sessions w)[?k := zero_Session] ! j = sessions w ! j" by simp
    with j eq show ?thesis
      by (auto simp: active_sessions_def image_iff in_set_conv_nth intro!: bexI [of _ "sessions w ! j"]
          exI [of _ j])
  qed
  moreover have "distinct (active_sessions (sessions w'))"
    using distinct_active_clear [of "sessions w" zero_Session ?k] inv z eq
    by (simp add: sessions_inv_def)
  ultimately show ?thesis using inv eq by (auto simp: sessions_inv_def)
qed

section \<open>The digest in memory\<close>

definition digest :: "char list \<Rightarrow> bool" where
  \<comment> \<open>what the pipeline prints: 64 characters\<close>
  "digest h \<longleftrightarrow> length h = 64 \<and> NUL \<notin> set h \<and> newline \<notin> set h"

lemma sha256_hex_digest:
  assumes "digest h" and "popen (sha256_cmd pw) = Some (h @ newline # rest)"
  shows "sha256_hex popen pw out = h @ [NUL] @ drop 65 out"
proof -
  have tw: "takeWhile (\<lambda>c. c \<noteq> newline) (h @ newline # rest) = h"
    using assms(1) by (subst takeWhile_append2) (auto simp: digest_def)
  have f: "fgets out 65 (h @ newline # rest) = h @ [NUL] @ drop 65 out"
    using assms(1) by (auto simp: fgets_def tw digest_def Let_def)
  have "takeWhile (\<lambda>c. c \<noteq> NUL \<and> c \<noteq> newline) (h @ [NUL] @ drop 65 out) = h"
    using assms(1) by (subst takeWhile_append2) (auto simp: digest_def)
  then have "strcspn_nl (h @ [NUL] @ drop 65 out) = length h"
    by (simp add: strcspn_nl_def)
  with assms(2) show ?thesis by (simp add: sha256_hex_def f list_update_append)
qed

lemma hash_of_digest:
  "digest h \<Longrightarrow> popen (sha256_cmd pw) = Some (h @ newline # rest) \<Longrightarrow> hash_of popen pw = h @ [NUL]"
  by (simp add: hash_of_def sha256_hex_digest)

definition sample_shell :: shell where
  "sample_shell cmd = Some (replicate 64 CHR ''a'' @ [newline])"

lemma sample_digest: "digest (replicate 64 CHR ''a'')"
  by (simp add: digest_def)

lemma sample_hash [simp]: "hash_of sample_shell pw = replicate 64 CHR ''a'' @ [NUL]"
  by (rule hash_of_digest [OF sample_digest, of _ _ "[]"]) (simp add: sample_shell_def)

lemma sample_hash_matches [simp]:
  "strncmp_eq (replicate 64 CHR ''a'' @ [NUL]) (replicate 64 CHR ''a'') 64"
  by (simp add: strncmp_eq_def)

section \<open>Login and logout\<close>

definition login_accepts :: "shell \<Rightarrow> LoginPayload \<Rightarrow> world \<Rightarrow> User \<Rightarrow> bool" where
  "login_accepts popen req w u \<longleftrightarrow>
     find_user_by_username (login_username req) w = Some u \<and>
     acct_status u \<noteq> ACCOUNT_BANNED \<and> acct_status u \<noteq> ACCOUNT_INACTIVE \<and>
     strncmp_eq (hash_of popen (login_password req)) (password u) 64 \<and>
     user_id u \<notin> set (active_sessions (sessions w)) \<and> fst (find_free_slot w) \<ge> 0"

definition session_record :: "int \<Rightarrow> User \<Rightarrow> world \<Rightarrow> Session" where
  "session_record fd u w =
     \<lparr>session_user_id = user_id u, session_fd = fd, login_time = now w, is_active = True\<rparr>"

definition logged_in_world :: "int \<Rightarrow> User \<Rightarrow> world \<Rightarrow> world" where
  "logged_in_world fd u w =
     log_txn (L_LOGIN (user_id u) (username u))
       (send_msg fd MSG_LOGIN_RESP ERR_OK (P_User (u\<lparr>last_login := now w\<rparr>))
         (snd (write_user (u\<lparr>last_login := now w\<rparr>)
           (notify_register (user_id u) fd
             (snd (write_session (fst (find_free_slot w)) (session_record fd u w)
               (snd (find_free_slot w))))))))"

lemma login_success:
  "login_accepts popen req w u \<Longrightarrow>
   handle_login popen fd req out w = (True, u\<lparr>last_login := now w\<rparr>, logged_in_world fd u w)"
  using slot_none_iff [of "user_id u" w]
  by (simp add: login_accepts_def handle_login_def logged_in_world_def session_record_def Let_def
      not_le case_prod_beta)

lemma login_failure:
  assumes "\<not> (\<exists>u. login_accepts popen req w u)"
  shows "\<exists>e w'. handle_login popen fd req out w = (False, out, send_msg fd MSG_LOGIN_RESP e P_None w')
    \<and> e \<noteq> ERR_OK \<and> (w' = w \<or> w' = snd (find_free_slot w))"
proof (cases "find_user_by_username (login_username req) w")
  case None
  then show ?thesis by (auto simp: handle_login_def)
next
  case (Some u)
  with assms have "\<not> login_accepts popen req w u" by blast
  with Some slot_none_iff [of "user_id u" w] show ?thesis
    by (auto simp: handle_login_def login_accepts_def Let_def case_prod_beta)
qed

lemma login_result: "fst (handle_login popen fd req out w) = (\<exists>u. login_accepts popen req w u)"
proof (cases "\<exists>u. login_accepts popen req w u")
  case True
  then obtain u where "login_accepts popen req w u" ..
  then show ?thesis using login_success [of popen req w u fd out] by auto
next
  case False
  with login_failure [OF False, of fd out] show ?thesis by auto
qed

lemma find_user_mem: "find_user_by_username n w = Some u \<Longrightarrow> u \<in> set (users w)"
  by (auto simp: find_user_by_username_def dest: find_Some_mem)

lemma member_read: "numbered user_id (users w) \<Longrightarrow> u \<in> set (users w) \<Longrightarrow> read_user (user_id u) w = Some u"
  by (auto simp: numbered_def in_set_conv_nth ut.rd_rows slot_of_Suc)

lemma find_user_read:
  "numbered user_id (users w) \<Longrightarrow> find_user_by_username n w = Some u \<Longrightarrow>
   read_user (user_id u) w = Some u"
  by (blast intro: member_read find_user_mem)

lemma free_slot_writable [simp]: "writable (snd (find_free_slot w)) = writable w"
  by simp

lemma logged_in_frame [simp, frame_simps]:
  "auctions_file (logged_in_world fd u w) = auctions_file w"
  "bids_file (logged_in_world fd u w) = bids_file w"
  "feedback_file (logged_in_world fd u w) = feedback_file w"
  "disputes_file (logged_in_world fd u w) = disputes_file w"
  "writable (logged_in_world fd u w) = writable w"
  "now (logged_in_world fd u w) = now w"
  by (simp_all add: logged_in_world_def)

lemma logged_in_sessions:
  "sessions (logged_in_world fd u w) =
     sessions (snd (write_session (fst (find_free_slot w)) (session_record fd u w)
       (snd (find_free_slot w))))"
  by (simp add: logged_in_world_def)

lemma logged_in_registry:
  "registry (logged_in_world fd u w) = register_loop (user_id u) fd (registry w)"
  by (simp add: logged_in_world_def notify_register_def)

lemma logged_in_users:
  "users_file (logged_in_world fd u w) =
     users_file (snd (write_user (u\<lparr>last_login := now w\<rparr>) w))"
  by (simp add: logged_in_world_def write_user_def)

lemma logged_in_sessions_inv:
  assumes "login_accepts popen req w u" and "sessions_inv (sessions w)"
    and "writable w FILE_SESSIONS"
  shows "sessions_inv (sessions (logged_in_world fd u w)) \<and>
    user_id u \<in> set (active_sessions (sessions (logged_in_world fd u w)))"
  using sessions_inv_create [OF assms(2,3), of "session_record fd u w"] assms(1)
  by (simp add: login_accepts_def logged_in_sessions session_record_def)

lemma logged_in_sessions_keep:
  assumes "login_accepts popen req w u" and "sessions_inv (sessions w)"
    and "writable w FILE_SESSIONS"
  shows "set (active_sessions (sessions w)) \<subseteq> set (active_sessions (sessions (logged_in_world fd u w)))"
  using sessions_inv_create [OF assms(2,3), of "session_record fd u w"] assms(1)
  by (simp add: login_accepts_def logged_in_sessions session_record_def)

lemma logout_frame [simp, frame_simps]:
  "users_file (handle_logout fd u w) = users_file w"
  "auctions_file (handle_logout fd u w) = auctions_file w"
  "bids_file (handle_logout fd u w) = bids_file w"
  "feedback_file (handle_logout fd u w) = feedback_file w"
  "disputes_file (handle_logout fd u w) = disputes_file w"
  "writable (handle_logout fd u w) = writable w"
  "now (handle_logout fd u w) = now w"
  by (simp_all add: handle_logout_def Let_def)

lemma logout_registry [simp]:
  "registry (handle_logout fd u w) = unregister_loop (user_id u) (registry w)"
  by (simp add: handle_logout_def Let_def notify_unregister_def)

lemma logout_sessions:
  "sessions (handle_logout fd u w) =
     (if find_session_slot (user_id u) w \<ge> 0
      then sessions (snd (write_session (find_session_slot (user_id u) w) zero_Session w))
      else sessions w)"
  by (simp add: handle_logout_def Let_def)

lemma logout_active:
  assumes "sessions_inv (sessions w)" and "writable w FILE_SESSIONS"
  shows "sessions_inv (sessions (handle_logout fd u w)) \<and>
    set (active_sessions (sessions (handle_logout fd u w))) =
      set (active_sessions (sessions w)) - {user_id u}"
proof (cases "find_session_slot (user_id u) w \<ge> 0")
  case True
  with sessions_inv_clear [OF assms True] show ?thesis by (simp add: logout_sessions)
next
  case False
  with assms slot_none_iff [of "user_id u" w] show ?thesis by (auto simp: logout_sessions)
qed

lemma change_password_frame [simp, frame_simps]:
  "auctions_file (snd (handle_change_password popen fd req u w)) = auctions_file w"
  "bids_file (snd (handle_change_password popen fd req u w)) = bids_file w"
  "sessions_file (snd (handle_change_password popen fd req u w)) = sessions_file w"
  "feedback_file (snd (handle_change_password popen fd req u w)) = feedback_file w"
  "disputes_file (snd (handle_change_password popen fd req u w)) = disputes_file w"
  "writable (snd (handle_change_password popen fd req u w)) = writable w"
  "registry (snd (handle_change_password popen fd req u w)) = registry w"
  "now (snd (handle_change_password popen fd req u w)) = now w"
  by (simp_all add: handle_change_password_def Let_def)

section \<open>Properties\<close>

text \<open>One session per user: no login and no logout, accepted or refused, ever leaves a user with
  two active sessions or the session file with more than \<open>MAX_SESSIONS\<close> slots.\<close>

lemma one_session_per_user:
  assumes "sessions_inv (sessions w)" and "writable w FILE_SESSIONS"
  shows "sessions_inv (sessions (snd (snd (handle_login popen fd req out w)))) \<and>
         sessions_inv (sessions (handle_logout fd u w))"
proof -
  have "sessions_inv (sessions (snd (snd (handle_login popen fd req out w))))"
  proof (cases "\<exists>v. login_accepts popen req w v")
    case True
    then obtain v where "login_accepts popen req w v" ..
    then show ?thesis using assms by (simp add: login_success logged_in_sessions_inv)
  next
    case False
    with login_failure [OF False, of fd out] assms(1) show ?thesis by auto
  qed
  with logout_active [OF assms] show ?thesis by blast
qed

text \<open>C18: A login succeeds exactly when the name belongs to a user who is not deleted, banned or
  inactive, the digest of the password is the stored one, the user has no active session and a
  session slot is free. On success the session and the registry entry of the user exist, the
  record keeps everything but the login time; a refused login changes no record, session or
  registry entry and is answered with an error.\<close>

theorem login_functional:
  assumes "numbered user_id (users w)" and "sessions_inv (sessions w)"
    and "writable w FILE_SESSIONS" and "writable w FILE_USERS" and "registry_inv (registry w)"
    and "\<exists>e \<in> set (registry w). \<not> reg_active e"
    and "set (active_users (registry w)) \<subseteq> set (active_sessions (sessions w))"
  shows "case handle_login popen fd req out w of (ok, u', w') \<Rightarrow>
    ok = (\<exists>u. login_accepts popen req w u) \<and>
    (if ok
     then \<exists>u. login_accepts popen req w u \<and> u' = u\<lparr>last_login := now w\<rparr> \<and>
       user_id u \<in> set (active_sessions (sessions w')) \<and>
       lookup_fd (user_id u) (registry w') = fd \<and>
       users w' = (users w)[slot_of (user_id u) := u'] \<and>
       sent w' = sent w @ [(fd, \<lparr>msg_type = MSG_LOGIN_RESP, msg_status = ERR_OK, msg_payload = P_User u'\<rparr>)]
     else u' = out \<and> users w' = users w \<and> sessions w' = sessions w \<and> registry w' = registry w \<and>
       (\<exists>e. e \<noteq> ERR_OK \<and> sent w' = sent w @
         [(fd, \<lparr>msg_type = MSG_LOGIN_RESP, msg_status = e, msg_payload = P_None\<rparr>)]))"
proof (cases "\<exists>u. login_accepts popen req w u")
  case True
  then obtain u where u: "login_accepts popen req w u" ..
  then have r: "read_user (user_id u) w = Some u"
    using assms(1) by (auto simp: login_accepts_def intro: find_user_read)
  have "user_id u \<notin> set (active_users (registry w))"
    using u assms(7) by (auto simp: login_accepts_def)
  then have "lookup_fd (user_id u) (registry w) < 0" by (simp add: lookup_absent)
  then have "lookup_fd (user_id u) (registry (logged_in_world fd u w)) = fd"
    using assms(5,6) by (simp add: logged_in_registry rg.look_reg)
  moreover have "users (logged_in_world fd u w) = (users w)[slot_of (user_id u) := u\<lparr>last_login := now w\<rparr>]"
    using ut.rows_update [OF r, of "u\<lparr>last_login := now w\<rparr>"] assms(4)
    by (simp add: logged_in_users)
  moreover have "sent (logged_in_world fd u w) = sent w @
      [(fd, \<lparr>msg_type = MSG_LOGIN_RESP, msg_status = ERR_OK,
             msg_payload = P_User (u\<lparr>last_login := now w\<rparr>)\<rparr>)]"
    by (simp add: logged_in_world_def send_msg_def)
  moreover have "user_id u \<in> set (active_sessions (sessions (logged_in_world fd u w)))"
    using logged_in_sessions_inv [OF u assms(2,3)] by blast
  ultimately show ?thesis using u by (auto simp: login_success [OF u])
next
  case False
  with login_failure [OF False, of fd out] show ?thesis by (auto simp: send_msg_def)
qed

definition sample_login :: LoginPayload where
  "sample_login = \<lparr>login_username = c_array 32 ''bob'', login_password = ''secret''\<rparr>"

lemma sample_find: "find_user_by_username (c_array 32 ''bob'') sample_world
    = Some (sample_user 3 ''bob'' ROLE_BIDDER 1000 300)"
  by (simp add: find_user_by_username_def strncmp_eq_def c_array_cstring MAX_USERNAME_def)

lemma sample_accepts:
  "login_accepts sample_shell sample_login sample_world (sample_user 3 ''bob'' ROLE_BIDDER 1000 300)"
  by (simp add: login_accepts_def sample_login_def sample_find find_free_slot_def MAX_SESSIONS_def)

lemma sample_registry: "registry_inv empty_registry" "\<exists>e \<in> set empty_registry. \<not> reg_active e"
    "active_users empty_registry = []"
  using rg.inv_empty by (simp_all add: empty_registry_def active_users_def MAX_REGISTRY_def)

theorem login_functional_witness:
  "fst (handle_login sample_shell 7 sample_login zero_User sample_world)"
proof -
  have "sessions_inv (sessions sample_world)" by (simp add: sessions_inv_def)
  moreover have "registry_inv (registry sample_world)" "\<exists>e \<in> set (registry sample_world). \<not> reg_active e"
    "set (active_users (registry sample_world)) \<subseteq> set (active_sessions (sessions sample_world))"
    by (simp_all add: sample_registry)
  ultimately have "fst (handle_login sample_shell 7 sample_login zero_User sample_world) =
      (\<exists>u. login_accepts sample_shell sample_login sample_world u)"
    using login_functional [OF sample_numbered(1) _ sample_files(7) sample_files(7),
        where popen = sample_shell and fd = 7 and req = sample_login and out = zero_User]
    by (simp add: case_prod_beta)
  then show ?thesis using sample_accepts by blast
qed

text \<open>A second login is refused: after a user has logged in, any login under a name that leads
  to the same user, on whatever connection and with whatever password, is refused and leaves
  the sessions, the user records and the registry as they are.\<close>

lemma second_login_refused:
  assumes "sessions_inv (sessions w)" and "writable w FILE_SESSIONS"
    and "handle_login popen fd req out w = (True, u, w')"
    and "find_user_by_username (login_username req') w' = Some v" and "user_id v = user_id u"
  shows "\<exists>e w''. handle_login popen' fd' req' out' w' =
      (False, out', send_msg fd' MSG_LOGIN_RESP e P_None w'') \<and> e \<noteq> ERR_OK \<and>
      sessions w'' = sessions w' \<and> users_file w'' = users_file w' \<and> registry w'' = registry w'"
proof -
  have "\<exists>x. login_accepts popen req w x" using login_result [of popen fd req out w] assms(3) by simp
  then obtain x where x: "login_accepts popen req w x" ..
  with assms(3) have u: "user_id u = user_id x" and w': "w' = logged_in_world fd x w"
    by (auto simp: login_success)
  then have "user_id v \<in> set (active_sessions (sessions w'))"
    using logged_in_sessions_inv [OF x assms(1,2)] assms(5) by simp
  then have "\<not> (\<exists>y. login_accepts popen' req' w' y)"
    using assms(4) by (auto simp: login_accepts_def)
  from login_failure [OF this, of fd' out'] show ?thesis by fastforce
qed

text \<open>Logging out ends the session: afterwards the user has no active session and no registry
  entry (so the next login finds none and no notification goes to the old socket), every other
  user keeps theirs, and the user records are untouched.\<close>

lemma logout_ends_session:
  assumes "sessions_inv (sessions w)" and "writable w FILE_SESSIONS" and "registry_inv (registry w)"
  shows "find_session_slot (user_id u) (handle_logout fd u w) < 0 \<and>
    lookup_fd (user_id u) (registry (handle_logout fd u w)) < 0 \<and>
    users_file (handle_logout fd u w) = users_file w \<and>
    (\<forall>v. v \<noteq> user_id u \<longrightarrow>
       (find_session_slot v (handle_logout fd u w) < 0) = (find_session_slot v w < 0) \<and>
       lookup_fd v (registry (handle_logout fd u w)) = lookup_fd v (registry w))"
  using logout_active [OF assms(1,2), of fd u] assms(3)
  by (simp add: slot_none_iff rg.look_unreg)

text \<open>C32: Changing the password of a user on file: with the right old password the record on file is
  the connection's copy with the digest of the new password in it, no other user's record changes,
  and from then on a login of that user is accepted exactly when its password has that digest (and
  the account is not banned or inactive, has no session, and a session slot is free); with a wrong
  old password the answer is an error and nothing changes.\<close>

theorem change_password_roundtrip:
  assumes "numbered user_id (users w)" and "writable w FILE_USERS" and "read_user (user_id u) w = Some d"
    and "length (password u) = MAX_PASSWORD" and "handle_change_password popen fd req u w = (u', w')"
  shows "if strncmp_eq (hash_of popen (old_password req)) (password u) 64
    then read_user (user_id u) w' = Some u' \<and> u' = u\<lparr>password := password u'\<rparr> \<and>
      length (password u') = MAX_PASSWORD \<and> (\<forall>j. j \<noteq> user_id u \<longrightarrow> read_user j w' = read_user j w) \<and>
      (\<forall>q v. find_user_by_username (login_username q) w' = Some v \<and> user_id v = user_id u \<longrightarrow>
        login_accepts popen q w' v =
          (strncmp_eq (hash_of popen (login_password q)) (hash_of popen (new_password req)) 64 \<and>
           acct_status u \<notin> {ACCOUNT_BANNED, ACCOUNT_INACTIVE} \<and>
           user_id u \<notin> set (active_sessions (sessions w)) \<and> fst (find_free_slot w) \<ge> 0))
    else u' = u \<and> w' = send_msg fd MSG_CHANGE_PASS_RESP ERR_AUTH_FAIL P_None w"
proof (cases "strncmp_eq (hash_of popen (old_password req)) (password u) 64")
  case True
  let ?v = "u\<lparr>password := strncpy (password u) (hash_of popen (new_password req)) MAX_PASSWORD\<rparr>"
  let ?w = "log_txn (L_CHANGE_PASS (user_id u)) (send_msg fd MSG_CHANGE_PASS_RESP ERR_OK P_None (snd (write_user ?v w)))"
  have u': "u' = ?v" "w' = ?w" using assms(5) True by (auto simp: handle_change_password_def Let_def)
  have rd: "read_user j w' = (if j = user_id u then Some ?v else read_user j w)" for j
    using ut.rd_update [OF assms(3), of ?v j] assms(2) by (simp add: u'(2))
  have num: "numbered user_id (users w')" using ut.numbered_update [OF assms(1,3), of ?v] by (simp add: u'(2))
  have frame: "sessions w' = sessions w" "fst (find_free_slot w') = fst (find_free_slot w)"
    by (simp_all add: u'(2) find_free_slot_def case_prod_beta split: option.split)
  have pw: "cstring (take 64 (password ?v)) = cstring (take 64 (hash_of popen (new_password req)))"
    using cstring_take_strncpy [of 64 "password u" "hash_of popen (new_password req)"] assms(4)
    by (simp add: MAX_PASSWORD_def)
  have login: "login_accepts popen q w' v =
      (strncmp_eq (hash_of popen (login_password q)) (hash_of popen (new_password req)) 64 \<and>
       acct_status u \<notin> {ACCOUNT_BANNED, ACCOUNT_INACTIVE} \<and>
       user_id u \<notin> set (active_sessions (sessions w)) \<and> fst (find_free_slot w) \<ge> 0)"
    if "find_user_by_username (login_username q) w' = Some v" "user_id v = user_id u" for q v
  proof -
    have "v = ?v" using find_user_read [OF num that(1)] that(2) rd [of "user_id u"] by simp
    with that frame pw show ?thesis by (auto simp: login_accepts_def strncmp_eq_def)
  qed
  have "length (password u') = MAX_PASSWORD" using assms(4) by (simp add: u'(1))
  moreover have "u' = u\<lparr>password := password u'\<rparr>" by (simp add: u'(1))
  ultimately show ?thesis using True rd login by (simp add: u'(1))
next
  case False
  with assms(5) show ?thesis by (simp add: handle_change_password_def)
qed

theorem change_password_roundtrip_witness:
  "let u = sample_user 3 ''bob'' ROLE_BIDDER 1000 300;
     (u', w') = handle_change_password sample_shell 7 \<lparr>old_password = ''old'', new_password = ''new''\<rparr> u sample_world
   in read_user 3 w' = Some u' \<and> read_user 4 w' = read_user 4 sample_world"
proof -
  let ?u = "sample_user 3 ''bob'' ROLE_BIDDER 1000 300"
  have "read_user (user_id ?u) sample_world = Some ?u" by simp
  from change_password_roundtrip [OF sample_numbered(1) sample_files(7) this _ prod.collapse [symmetric],
      of sample_shell "\<lparr>old_password = ''old'', new_password = ''new''\<rparr>" 7]
  show ?thesis by (simp add: case_prod_beta MAX_PASSWORD_def)
qed

text \<open>Changing the password writes back the whole record as the connection read it at login: the
  user's wallet, role and account status on file are replaced by the connection's old copies,
  whatever has happened to them since.\<close>

lemma change_password_reverts_record:
  assumes "writable w FILE_USERS" and "read_user (user_id u) w = Some d"
    and "strncmp_eq (hash_of popen (old_password req)) (password u) 64"
  shows "\<exists>v. read_user (user_id u) (snd (handle_change_password popen fd req u w)) = Some v \<and>
    wallet_balance v = wallet_balance u \<and> wallet_hold v = wallet_hold u \<and> role v = role u \<and>
    acct_status v = acct_status u \<and> user_deleted v = user_deleted u"
proof -
  let ?v = "u\<lparr>password := strncpy (password u) (hash_of popen (new_password req)) MAX_PASSWORD\<rparr>"
  have "read_user (user_id u) (snd (write_user ?v w)) = Some ?v"
    using ut.rd_same [of w ?v] assms(1) by simp
  with assms(3) show ?thesis by (simp add: handle_change_password_def Let_def)
qed

end
