(* ===== verification/Auction_Engine.thy ===== *)
theory Auction_Engine
  imports Auth
begin

text \<open>
  \<^verbatim>\<open>server/auction_engine.c\<close>: creation of an auction, the settlement that closes one, the manual
  close request and one round of the timer thread. The results of \<^verbatim>\<open>write_auction\<close>,
  \<^verbatim>\<open>settle_payment\<close>, \<^verbatim>\<open>credit_wallet\<close> and \<^verbatim>\<open>release_hold\<close> are dropped where the code drops them.

  The theory shows that a creation stores exactly the requested auction, that a settlement is the
  ledger transfer from the winner's held funds to the seller (and a failed reserve only releases
  the hold), that an auction is settled once, and which records a round of the timer changes.
\<close>

section \<open>Creation\<close>

record CreateAuctionPayload =
  create_item_name :: "char list"
  create_description :: "char list"
  create_start_price :: dbl
  create_reserve_price :: dbl
  duration_seconds :: u32

definition new_auction :: "CreateAuctionPayload \<Rightarrow> User \<Rightarrow> world \<Rightarrow> Auction" where
  \<comment> \<open>the local \<^verbatim>\<open>Auction a\<close> as filled in before it is written\<close>
  "new_auction req seller w =
     zero_Auction\<lparr>auction_id := next_auction_id w,
       seller_id := user_id seller,
       start_price := create_start_price req,
       reserve_price := create_reserve_price req,
       current_bid := create_start_price req,
       highest_bidder_id := 0,
       auction_status := AUCTION_OPEN,
       start_time := now w,
       end_time := now w + uint (duration_seconds req),
       bid_count := 0,
       auction_deleted := False,
       item_name := strncpy (item_name zero_Auction) (create_item_name req) (MAX_ITEM_NAME - 1),
       description := strncpy (description zero_Auction) (create_description req) (MAX_DESC - 1)\<rparr>"

definition handle_create_auction :: "int \<Rightarrow> CreateAuctionPayload \<Rightarrow> User \<Rightarrow> world \<Rightarrow> world" where
  "handle_create_auction client_fd req seller w =
     (if create_start_price req \<le> 0 \<or> duration_seconds req < 10
      then send_msg client_fd MSG_CREATE_AUCTION_RESP ERR_INTERNAL P_None w
      else
        let a = new_auction req seller w;
            (result, w) = write_auction a w
        in if result < 0 then send_msg client_fd MSG_CREATE_AUCTION_RESP ERR_INTERNAL P_None w
           else
             let w = send_msg client_fd MSG_CREATE_AUCTION_RESP ERR_OK (P_Auction a) w
             in log_txn (L_CREATE_AUCTION (auction_id a) (user_id seller) (item_name a) (end_time a)) w)"

section \<open>Settlement\<close>

definition reserve_met :: "Auction \<Rightarrow> bool" where
  "reserve_met a \<longleftrightarrow> dbl_eq (reserve_price a) 0 \<or> reserve_price a \<le> current_bid a"

function mark_loop :: "Auction \<Rightarrow> nat \<Rightarrow> Bid list \<Rightarrow> Bid list" where
  \<comment> \<open>the loop over bids.dat opened for update: \<open>offset\<close> is both the variable and the file
    position, which \<^verbatim>\<open>lseek(bfd, offset)\<close> and \<^verbatim>\<open>write\<close> leave one record further, as \<^verbatim>\<open>read\<close> does\<close>
  "mark_loop a offset bs =
     (if offset < length bs
      then let b = bs ! offset
           in if bid_auction_id b = auction_id a \<and> bidder_id b = highest_bidder_id a
              then mark_loop a (offset + 1) (bs[offset := b\<lparr>is_winning := True\<rparr>])
              else mark_loop a (offset + 1) bs
      else bs)"
  by pat_completeness auto
termination by (relation "measure (\<lambda>(a, offset, bs). length bs - offset)") auto

declare mark_loop.simps [simp del]

definition mark_winning_bids :: "Auction \<Rightarrow> world \<Rightarrow> world" where
  \<comment> \<open>\<^verbatim>\<open>open(FILE_BIDS, O_RDWR)\<close> needs an existing, writable file\<close>
  "mark_winning_bids a w =
     (case bids_file w of
        None \<Rightarrow> w
      | Some file \<Rightarrow>
          if \<not> writable w FILE_BIDS then w else w\<lparr>bids_file := Some (mark_loop a 0 file)\<rparr>)"

definition close_auction_internal :: "Auction \<Rightarrow> world \<Rightarrow> Auction \<times> world" where
  \<comment> \<open>\<open>*a\<close> and the state afterwards\<close>
  "close_auction_internal a w =
     (let a = a\<lparr>auction_status := AUCTION_CLOSED\<rparr>;
          w = snd (write_auction a w)
      in if highest_bidder_id a \<noteq> 0 \<and> reserve_met a
         then
           let w = log_txn (L_WAL_SETTLE (auction_id a) (highest_bidder_id a) (seller_id a) (current_bid a)) w;
               w = snd (settle_payment (highest_bidder_id a) (current_bid a) w);
               w = snd (credit_wallet (seller_id a) (current_bid a) w);
               w = mark_winning_bids a w;
               w = notify_auction_won (highest_bidder_id a) (auction_id a) (current_bid a) w;
               w = notify_auction_closed (seller_id a) (auction_id a) w
           in (a, w)
         else
           let w = (if highest_bidder_id a \<noteq> 0
                    then snd (release_hold (highest_bidder_id a) (current_bid a) w) else w);
               w = notify_auction_closed (seller_id a) (auction_id a) w
           in (a, w))"

record CloseAuctionPayload =
  close_auction_id :: u32

definition handle_close_auction :: "int \<Rightarrow> CloseAuctionPayload \<Rightarrow> User \<Rightarrow> world \<Rightarrow> world" where
  "handle_close_auction client_fd req requester w =
     (case read_auction (close_auction_id req) w of
        None \<Rightarrow> send_msg client_fd MSG_CLOSE_AUCTION_RESP ERR_NOT_FOUND P_None w
      | Some a \<Rightarrow>
          if seller_id a \<noteq> user_id requester \<and> role requester \<noteq> ROLE_ADMIN
          then send_msg client_fd MSG_CLOSE_AUCTION_RESP ERR_PERMISSION P_None w
          else if auction_status a \<noteq> AUCTION_OPEN
          then send_msg client_fd MSG_CLOSE_AUCTION_RESP ERR_AUCTION_CLOSED P_None w
          else
            let (a, w) = close_auction_internal a w;
                w = send_msg client_fd MSG_CLOSE_AUCTION_RESP ERR_OK (P_Auction a) w
            in log_txn (L_CLOSE_AUCTION (auction_id a) (user_id requester)) w)"

section \<open>The timer thread\<close>

fun expired_loop :: "time_t \<Rightarrow> u32 list \<Rightarrow> Auction list \<Rightarrow> u32 list" where
  \<comment> \<open>the \<^verbatim>\<open>while (read(...) && count < 64)\<close> loop; the array holds \<open>count\<close> identifiers\<close>
  "expired_loop t expired [] = expired"
| "expired_loop t expired (a # as) =
     (if length expired < 64
      then if auction_status a = AUCTION_OPEN \<and> end_time a \<le> t
           then expired_loop t (expired @ [auction_id a]) as
           else expired_loop t expired as
      else expired)"

definition timer_close :: "u32 \<Rightarrow> world \<Rightarrow> world" where
  \<comment> \<open>the body of the second loop: the record is read again, outside the read lock\<close>
  "timer_close i w =
     (case read_auction i w of
        None \<Rightarrow> w
      | Some ea \<Rightarrow>
          if auction_status ea = AUCTION_OPEN
          then let (ea, w) = close_auction_internal ea w in log_txn (L_TIMER_CLOSE i) w
          else w)"

definition timer_tick :: "world \<Rightarrow> world" where
  \<comment> \<open>one iteration of \<^verbatim>\<open>timer_thread\<close> after its \<^verbatim>\<open>sleep(1)\<close>\<close>
  "timer_tick w =
     (case auctions_file w of
        None \<Rightarrow> w
      | Some file \<Rightarrow> fold timer_close (expired_loop (now w) [] file) w)"

section \<open>The loops\<close>

definition mark :: "Auction \<Rightarrow> Bid \<Rightarrow> Bid" where
  "mark a b =
     (if bid_auction_id b = auction_id a \<and> bidder_id b = highest_bidder_id a
      then b\<lparr>is_winning := True\<rparr> else b)"

lemma mark_loop_prefix:
  "offset \<le> length bs \<Longrightarrow>
   mark_loop a offset bs = take offset bs @ map (mark a) (drop offset bs)"
proof (induction a offset bs rule: mark_loop.induct)
  case (1 a offset bs)
  show ?case
  proof (cases "offset < length bs")
    case True
    let ?b = "bs ! offset"
    have drop: "drop offset bs = ?b # drop (Suc offset) bs"
      using True by (simp add: Cons_nth_drop_Suc)
    have take: "take (Suc offset) xs = take offset xs @ [xs ! offset]" if "length xs = length bs" for xs :: "Bid list"
      using True that by (simp add: take_Suc_conv_app_nth)
    show ?thesis
    proof (cases "bid_auction_id ?b = auction_id a \<and> bidder_id ?b = highest_bidder_id a")
      case m: True
      with 1(1) [OF True refl m] True show ?thesis
        by (subst mark_loop.simps) (simp add: Let_def drop take mark_def)
    next
      case m: False
      with 1(2) [OF True refl m] True show ?thesis
        by (subst mark_loop.simps) (auto simp add: Let_def drop take mark_def)
    qed
  next
    case False
    with 1(3) show ?thesis by (subst mark_loop.simps) simp
  qed
qed

lemma expired_loop_take:
  "length acc \<le> 64 \<Longrightarrow>
   expired_loop t acc as =
     take 64 (acc @ map auction_id (filter (\<lambda>a. auction_status a = AUCTION_OPEN \<and> end_time a \<le> t) as))"
  by (induction t acc as rule: expired_loop.induct) auto

section \<open>What a settlement touches\<close>

lemma mark_winning_frame [simp, frame_simps]:
  "users_file (mark_winning_bids a w) = users_file w"
  "auctions_file (mark_winning_bids a w) = auctions_file w"
  "sessions_file (mark_winning_bids a w) = sessions_file w"
  "feedback_file (mark_winning_bids a w) = feedback_file w"
  "disputes_file (mark_winning_bids a w) = disputes_file w"
  "txn_log (mark_winning_bids a w) = txn_log w"
  "writable (mark_winning_bids a w) = writable w"
  "registry (mark_winning_bids a w) = registry w"
  "sent (mark_winning_bids a w) = sent w"
  "now (mark_winning_bids a w) = now w"
  by (simp_all add: mark_winning_bids_def split: option.split)

lemma close_frame [simp, frame_simps]:
  "auctions_file (snd (close_auction_internal a w)) =
     auctions_file (snd (write_auction (a\<lparr>auction_status := AUCTION_CLOSED\<rparr>) w))"
  "sessions_file (snd (close_auction_internal a w)) = sessions_file w"
  "feedback_file (snd (close_auction_internal a w)) = feedback_file w"
  "disputes_file (snd (close_auction_internal a w)) = disputes_file w"
  "writable (snd (close_auction_internal a w)) = writable w"
  "registry (snd (close_auction_internal a w)) = registry w"
  "now (snd (close_auction_internal a w)) = now w"
  by (simp_all add: close_auction_internal_def Let_def)

lemma close_result [simp]:
  "fst (close_auction_internal a w) = a\<lparr>auction_status := AUCTION_CLOSED\<rparr>"
  by (simp add: close_auction_internal_def Let_def)

definition close_wallets :: "Auction \<Rightarrow> world \<Rightarrow> world" where
  \<comment> \<open>the wallet operations of a settlement\<close>
  "close_wallets a w =
     (if highest_bidder_id a = 0 then w
      else if reserve_met a
      then snd (credit_wallet (seller_id a) (current_bid a)
             (snd (settle_payment (highest_bidder_id a) (current_bid a)
               (log_txn (L_WAL_SETTLE (auction_id a) (highest_bidder_id a) (seller_id a) (current_bid a)) w))))
      else snd (release_hold (highest_bidder_id a) (current_bid a) w))"

lemma close_users:
  "users_file (snd (close_auction_internal a w)) =
     users_file (close_wallets a (snd (write_auction (a\<lparr>auction_status := AUCTION_CLOSED\<rparr>) w)))"
  by (simp add: close_auction_internal_def close_wallets_def reserve_met_def Let_def)

lemma close_wallets_accounts:
  "numbered user_id (users w) \<Longrightarrow> accounts_kept w (close_wallets a w)"
  by (simp add: close_wallets_def accounts_kept_refl wallet_kept)

lemma close_wallets_inv: "users_inv w \<Longrightarrow> is_finite (current_bid a) \<Longrightarrow> users_inv (close_wallets a w)"
  by (simp add: close_wallets_def wallet_inv)

lemma close_accounts:
  "numbered user_id (users w) \<Longrightarrow> accounts_kept w (snd (close_auction_internal a w))"
  using close_wallets_accounts [of "snd (write_auction (a\<lparr>auction_status := AUCTION_CLOSED\<rparr>) w)" a]
  by (simp add: accounts_kept_def close_users)

lemma close_inv:
  "users_inv w \<Longrightarrow> is_finite (current_bid a) \<Longrightarrow> users_inv (snd (close_auction_internal a w))"
  using close_wallets_inv [of "snd (write_auction (a\<lparr>auction_status := AUCTION_CLOSED\<rparr>) w)" a]
  by (simp add: users_inv_cong [OF close_users])

section \<open>The ledger of a settlement\<close>

definition ledger_total :: "ledger \<Rightarrow> int" where
  \<comment> \<open>all the money in the wallets\<close>
  "ledger_total L = (\<Sum>i \<in> dom L. fst (the (L i)))"

lemma ledger_total_update:
  assumes "L i = Some (b, h)"
  shows "ledger_total (L(i \<mapsto> (b', h'))) = ledger_total L - b + b'"
proof -
  have fin: "finite (dom L)" by simp
  have i: "i \<in> dom L" and d: "insert i (dom L) = dom L" using assms by auto
  have "(\<Sum>j \<in> dom L - {i}. fst (the ((L(i \<mapsto> (b', h'))) j))) = (\<Sum>j \<in> dom L - {i}. fst (the (L j)))"
    by (rule sum.cong) simp_all
  then show ?thesis
    using sum.remove [OF fin i, of "\<lambda>j. fst (the (L j))"] assms
      sum.remove [OF fin i, of "\<lambda>j. fst (the ((L(i \<mapsto> (b', h'))) j))"]
    by (simp add: ledger_total_def d)
qed

definition ledger_close :: "ledger \<Rightarrow> Auction \<Rightarrow> int \<Rightarrow> ledger option" where
  \<comment> \<open>what a settlement at the bid \<open>c\<close> means for the ledger\<close>
  "ledger_close L a c =
     (if highest_bidder_id a = 0 then Some L
      else if reserve_met a
      then case ledger_settle L (highest_bidder_id a) c of
             None \<Rightarrow> None | Some L1 \<Rightarrow> ledger_credit L1 (seller_id a) c
      else ledger_release L (highest_bidder_id a) c)"

lemma ledger_bounded_settle:
  "ledger_bounded L \<Longrightarrow> ledger_settle L i c = Some L' \<Longrightarrow> 0 \<le> c \<Longrightarrow> ledger_bounded L'"
  by (fastforce simp: ledger_settle_def ledger_delta_Some ledger_bounded_def split: if_splits)

lemma close_wallets_refines:
  assumes "ledger_rel w L" and num: "numbered user_id (users w)" and wr: "writable w FILE_USERS"
    and c: "current_bid a = rs c" "0 \<le> c" "c \<le> exact_limit"
    and L': "ledger_close L a c = Some L'" and bd: "ledger_bounded L'"
  shows "ledger_rel (close_wallets a w) L'"
proof -
  have c': "\<bar>c\<bar> \<le> exact_limit" using c by simp
  consider (none) "highest_bidder_id a = 0"
    | (sale) "highest_bidder_id a \<noteq> 0" "reserve_met a"
    | (reserve) "highest_bidder_id a \<noteq> 0" "\<not> reserve_met a" by blast
  then show ?thesis
  proof cases
    case none
    with assms show ?thesis by (simp add: close_wallets_def ledger_close_def)
  next
    case sale
    let ?w = "log_txn (L_WAL_SETTLE (auction_id a) (highest_bidder_id a) (seller_id a) (rs c)) w"
    from sale L' obtain L1 where L1: "ledger_settle L (highest_bidder_id a) c = Some L1"
      and L2: "ledger_credit L1 (seller_id a) c = Some L'"
      by (auto simp: ledger_close_def split: option.splits)
    have rel: "ledger_rel ?w L" using assms(1) by (simp cong: ledger_rel_cong)
    have "ledger_bounded L1"
      using ledger_bounded_settle [OF ledger_rel_bounded [OF assms(1)] L1 c(2)] .
    then have "ledger_rel (snd (settle_payment (highest_bidder_id a) (rs c) ?w)) L1"
      using sl.refines_Some [OF rel _ _ c' L1] num wr by simp
    then show ?thesis
      using cl.refines_Some [OF _ _ _ c' L2 bd] sl.numbered_after [of ?w] num wr sale c(1)
      by (simp add: close_wallets_def)
  next
    case reserve
    with assms show ?thesis
      using rl.refines_Some [OF assms(1) num wr c'] by (simp add: close_wallets_def ledger_close_def)
  qed
qed

lemma close_refines:
  assumes "ledger_rel w L" and "numbered user_id (users w)" and "writable w FILE_USERS"
    and "current_bid a = rs c" "0 \<le> c" "c \<le> exact_limit"
    and "ledger_close L a c = Some L'" and "ledger_bounded L'"
  shows "ledger_rel (snd (close_auction_internal a w)) L'"
  using close_wallets_refines [of "snd (write_auction (a\<lparr>auction_status := AUCTION_CLOSED\<rparr>) w)" L a c L'] assms
  by (simp add: ledger_rel_cong [OF close_users] ledger_rel_cong [of "snd (write_auction x w)" w for x])

lemma ledger_close_total:
  "ledger_close L a c = Some L' \<Longrightarrow> ledger_total L' = ledger_total L"
  by (auto simp: ledger_close_def ledger_settle_def ledger_credit_def ledger_release_def
      ledger_delta_Some ledger_total_update split: if_splits option.splits)

lemma ledger_close_defined:
  assumes "highest_bidder_id a \<noteq> 0 \<Longrightarrow> \<exists>b h. L (highest_bidder_id a) = Some (b, h) \<and> c \<le> h"
    and "\<exists>b h. L (seller_id a) = Some (b, h)" and "0 \<le> c"
    and "\<And>i b h. L i = Some (b, h) \<Longrightarrow> 0 \<le> h \<and> h \<le> b"
  shows "\<exists>L'. ledger_close L a c = Some L'"
proof -
  from assms(2) obtain bs hs where s: "L (seller_id a) = Some (bs, hs)" by blast
  show ?thesis
  proof (cases "highest_bidder_id a = 0")
    case False
    with assms(1) obtain b h where h: "L (highest_bidder_id a) = Some (b, h)" "c \<le> h" by blast
    with assms(4) have hb: "0 \<le> h" "h \<le> b" by blast+
    have "ledger_settle L (highest_bidder_id a) c = Some (L(highest_bidder_id a \<mapsto> (b - c, h - c)))"
      using h hb assms(3) by (simp add: ledger_settle_Some)
    moreover have "ledger_release L (highest_bidder_id a) c = Some (L(highest_bidder_id a \<mapsto> (b, h - c)))"
      using h hb assms(3) by (simp add: ledger_release_Some)
    ultimately show ?thesis
      using h hb s assms(3) assms(4) [OF s]
      by (cases "seller_id a = highest_bidder_id a") (simp_all add: ledger_close_def ledger_credit_Some)
  qed (simp add: ledger_close_def)
qed

lemma ledger_rel_sane: "ledger_rel w L \<Longrightarrow> L i = Some (b, h) \<Longrightarrow> 0 \<le> h \<and> h \<le> b"
  by (force simp: ledger_rel_def exact_wallet_def)

section \<open>The timer\<close>

definition close_in :: "u32 set \<Rightarrow> Auction \<Rightarrow> Auction" where
  "close_in S a =
     (if auction_id a \<in> S \<and> auction_status a = AUCTION_OPEN
      then a\<lparr>auction_status := AUCTION_CLOSED\<rparr> else a)"

lemma close_in_id [simp]: "auction_id (close_in S a) = auction_id a"
  by (simp add: close_in_def)

lemma close_in_empty [simp]: "close_in {} = (\<lambda>a. a)"
  by (simp add: close_in_def fun_eq_iff)

lemma close_in_twice: "close_in S (close_in T a) = close_in (S \<union> T) a"
  by (simp add: close_in_def)

lemma numbered_map: "(\<And>x. ident (f x) = ident x) \<Longrightarrow> numbered ident (map f xs) = numbered ident xs"
  by (simp add: numbered_def)

lemma numbered_slot:
  "numbered ident xs \<Longrightarrow> k < length xs \<Longrightarrow> ident (xs ! k) = i \<longleftrightarrow> k = slot_of i"
  by (auto simp: numbered_def slot_of_Suc of_slot)

lemma close_slot:
  assumes "numbered auction_id (auctions w)" and "writable w FILE_AUCTIONS" and "read_auction i w = Some a"
  shows "auctions (snd (close_auction_internal a w)) = (auctions w)[slot_of i := a\<lparr>auction_status := AUCTION_CLOSED\<rparr>]"
proof -
  have "auction_id (a\<lparr>auction_status := AUCTION_CLOSED\<rparr>) = i" using at.rd_ident [OF assms(1,3)] by simp
  from at.rows_update [OF assms(3) this] assms(2) show ?thesis by simp
qed

lemma auctions_close:
  assumes "numbered auction_id (auctions w)" and "writable w FILE_AUCTIONS"
    and "read_auction i w = Some a" and "auction_status a = AUCTION_OPEN"
  shows "auctions (snd (close_auction_internal a w)) = map (close_in {i}) (auctions w)"
proof -
  have slot: "slot_of i < length (auctions w)" "auctions w ! slot_of i = a"
    using assms(3) by (simp_all add: at.rd_Some)
  then show ?thesis
    unfolding close_slot [OF assms(1-3)]
    using assms(4) at.rd_ident [OF assms(1,3)] numbered_slot [OF assms(1), of _ i]
    by (intro nth_equalityI) (auto simp: nth_list_update close_in_def)
qed

lemma timer_close_frame [simp, frame_simps]:
  "sessions_file (timer_close i w) = sessions_file w"
  "feedback_file (timer_close i w) = feedback_file w"
  "disputes_file (timer_close i w) = disputes_file w"
  "writable (timer_close i w) = writable w"
  "registry (timer_close i w) = registry w"
  "now (timer_close i w) = now w"
  by (simp_all add: timer_close_def case_prod_beta split: option.split)

lemma timer_close_auctions:
  assumes "numbered auction_id (auctions w)" and "writable w FILE_AUCTIONS"
  shows "auctions (timer_close i w) = map (close_in {i}) (auctions w)"
proof (cases "\<exists>a. read_auction i w = Some a \<and> auction_status a = AUCTION_OPEN")
  case True
  then obtain a where a: "read_auction i w = Some a" "auction_status a = AUCTION_OPEN" by blast
  with auctions_close [OF assms a] show ?thesis by (simp add: timer_close_def case_prod_beta)
next
  case False
  then have "timer_close i w = w" by (auto simp: timer_close_def split: option.split)
  moreover have "close_in {i} (auctions w ! k) = auctions w ! k" if "k < length (auctions w)" for k
    using False numbered_slot [OF assms(1) that, of i] that by (auto simp: close_in_def at.rd_Some)
  ultimately show ?thesis by (auto intro: nth_equalityI)
qed

lemma timer_close_accounts:
  "numbered user_id (users w) \<Longrightarrow> accounts_kept w (timer_close i w)"
  using close_accounts [of w] by (simp add: timer_close_def case_prod_beta accounts_kept_refl split: option.split)

lemma fold_timer_frame [simp, frame_simps]:
  "sessions_file (fold timer_close is w) = sessions_file w"
  "feedback_file (fold timer_close is w) = feedback_file w"
  "disputes_file (fold timer_close is w) = disputes_file w"
  "writable (fold timer_close is w) = writable w"
  "registry (fold timer_close is w) = registry w"
  "now (fold timer_close is w) = now w"
  by (induction "is" arbitrary: w) simp_all

lemma fold_timer_auctions:
  assumes "numbered auction_id (auctions w)" and "writable w FILE_AUCTIONS"
  shows "auctions (fold timer_close is w) = map (close_in (set is)) (auctions w)"
  using assms
proof (induction "is" arbitrary: w)
  case Nil
  then show ?case by simp
next
  case (Cons i "is")
  have "auctions (timer_close i w) = map (close_in {i}) (auctions w)"
    using Cons.prems by (rule timer_close_auctions)
  moreover from this have "numbered auction_id (auctions (timer_close i w))"
    using Cons.prems by (simp add: numbered_map)
  ultimately show ?case
    using Cons.IH [of "timer_close i w"] Cons.prems by (simp add: close_in_twice Un_commute)
qed

lemma fold_timer_accounts:
  "numbered user_id (users w) \<Longrightarrow> accounts_kept w (fold timer_close is w)"
proof (induction "is" arbitrary: w)
  case (Cons i "is")
  then have k: "accounts_kept w (timer_close i w)" by (simp add: timer_close_accounts)
  with Cons have "accounts_kept (timer_close i w) (fold timer_close is (timer_close i w))"
    by (simp add: accounts_kept_numbered)
  with k show ?case by (auto intro: accounts_kept_trans)
qed (simp add: accounts_kept_refl)

definition expired :: "time_t \<Rightarrow> Auction \<Rightarrow> bool" where
  "expired t a \<longleftrightarrow> auction_status a = AUCTION_OPEN \<and> end_time a \<le> t"

lemma timer_tick_eq:
  "timer_tick w = fold timer_close (take 64 (map auction_id (filter (expired (now w)) (auctions w)))) w"
  by (simp add: timer_tick_def expired_loop_take expired_def [abs_def] split: option.split)

lemma timer_tick_frame [simp, frame_simps]:
  "sessions_file (timer_tick w) = sessions_file w"
  "feedback_file (timer_tick w) = feedback_file w"
  "disputes_file (timer_tick w) = disputes_file w"
  "writable (timer_tick w) = writable w"
  "registry (timer_tick w) = registry w"
  "now (timer_tick w) = now w"
  by (simp_all add: timer_tick_eq)

lemma timer_tick_auctions:
  assumes "numbered auction_id (auctions w)" and "writable w FILE_AUCTIONS"
  shows "auctions (timer_tick w) =
    map (close_in (set (take 64 (map auction_id (filter (expired (now w)) (auctions w)))))) (auctions w)"
  using fold_timer_auctions [OF assms] by (simp add: timer_tick_eq)

lemma filter_out_prefix:
  assumes "distinct (map g ys)"
  shows "filter (\<lambda>x. g x \<notin> set (take n (map g ys))) ys = drop n ys"
proof -
  have d: "set (map g (take n ys)) \<inter> set (map g (drop n ys)) = {}"
    using assms by (metis append_take_drop_id distinct_append map_append)
  have "filter (\<lambda>x. g x \<notin> set (take n (map g ys))) (take n ys @ drop n ys) = drop n ys"
    using d unfolding filter_append
    by (auto simp: take_map filter_empty_conv filter_id_conv)
  then show ?thesis by simp
qed

lemma numbered_distinct: "numbered ident xs \<Longrightarrow> distinct (map ident xs)"
proof (unfold distinct_conv_nth, intro allI impI)
  fix k j
  assume n: "numbered ident xs" and kj: "k < length (map ident xs)" "j < length (map ident xs)" "k \<noteq> j"
  then show "map ident xs ! k \<noteq> map ident xs ! j"
    using numbered_slot [OF n, of k "ident (xs ! j)"] numbered_slot [OF n, of j "ident (xs ! j)"] by auto
qed

section \<open>Properties\<close>

text \<open>A creation with a positive start price and at least ten seconds stores, under the next free
  identifier, an open auction of the requester without bidder, whose current bid is the start
  price and whose end lies the duration after now, tells the client, and leaves every existing
  auction as it was; any other creation is refused and changes nothing.\<close>

lemma create_auction_functional:
  assumes "numbered auction_id (auctions w)" and "writable w FILE_AUCTIONS"
    and "length (auctions w) + 1 < 2 ^ 32"
  shows "if create_start_price req \<le> 0 \<or> duration_seconds req < 10
    then handle_create_auction fd req u w = send_msg fd MSG_CREATE_AUCTION_RESP ERR_INTERNAL P_None w
    else \<exists>a w'. handle_create_auction fd req u w = w' \<and> auctions w' = auctions w @ [a] \<and>
      numbered auction_id (auctions w') \<and> read_auction (auction_id a) w' = Some a \<and>
      auction_status a = AUCTION_OPEN \<and> seller_id a = user_id u \<and> highest_bidder_id a = 0 \<and>
      current_bid a = create_start_price req \<and> reserve_price a = create_reserve_price req \<and>
      end_time a = now w + uint (duration_seconds req) \<and>
      sent w' = sent w @
        [(fd, \<lparr>msg_type = MSG_CREATE_AUCTION_RESP, msg_status = ERR_OK, msg_payload = P_Auction a\<rparr>)]"
proof (cases "create_start_price req \<le> 0 \<or> duration_seconds req < 10")
  case True
  then show ?thesis by (simp add: handle_create_auction_def)
next
  case False
  let ?a = "new_auction req u w"
  let ?w = "handle_create_auction fd req u w"
  have id: "auction_id ?a = next_auction_id w" by (simp add: new_auction_def)
  have w: "?w = log_txn (L_CREATE_AUCTION (auction_id ?a) (user_id u) (item_name ?a) (end_time ?a))
      (send_msg fd MSG_CREATE_AUCTION_RESP ERR_OK (P_Auction ?a) (snd (write_auction ?a w)))"
    using False assms(2) at.wr_status [of ?a w]
    by (simp add: handle_create_auction_def Let_def case_prod_beta)
  have "auctions ?w = auctions w @ [?a]"
    using at.rows_create [OF id] assms(2,3) by (simp add: w)
  moreover have "numbered auction_id (auctions ?w)"
    using at.numbered_create [OF assms(1) id assms(3)] by (simp add: w)
  moreover have "read_auction (auction_id ?a) ?w = Some ?a"
    using at.rd_create_same [OF assms(2) id] id by (simp add: w)
  moreover have "sent ?w = sent w @
      [(fd, \<lparr>msg_type = MSG_CREATE_AUCTION_RESP, msg_status = ERR_OK, msg_payload = P_Auction ?a\<rparr>)]"
    by (simp add: w send_msg_def)
  moreover have "auction_status ?a = AUCTION_OPEN \<and> seller_id ?a = user_id u \<and> highest_bidder_id ?a = 0 \<and>
      current_bid ?a = create_start_price req \<and> reserve_price ?a = create_reserve_price req \<and>
      end_time ?a = now w + uint (duration_seconds req)"
    by (simp add: new_auction_def)
  ultimately show ?thesis using False by simp
qed

definition sample_creation :: CreateAuctionPayload where
  "sample_creation =
     \<lparr>create_item_name = ''lamp'', create_description = [], create_start_price = rs 40,
      create_reserve_price = rs 0, duration_seconds = 60\<rparr>"

text \<open>C4: What closing an open auction does to the money, in whole rupees, when the seller is
  on file with a balance that stays below \<open>2 ^ 52\<close> and the leader, if there is one, has
  the current bid on hold (the code drops the result of the debit and credits the seller in any
  case). A leader who meets the reserve (no reserve, or one of at most the current bid) pays the bid
  out of balance and hold and the seller receives it; a leader below the reserve gets the hold back;
  without a leader no wallet changes. The total is the same in each case, and on file the auction is
  closed and no auction is changed in any other way.\<close>

theorem close_transfers_money:
  assumes "ledger_rel w L" and "numbered user_id (users w)" and "numbered auction_id (auctions w)"
    and "writable w FILE_USERS" and "writable w FILE_AUCTIONS"
    and "read_auction (close_auction_id req) w = Some a" and "auction_status a = AUCTION_OPEN"
    and "seller_id a = user_id u \<or> role u = ROLE_ADMIN"
    and "current_bid a = rs c" and "0 < c" and "reserve_price a = rs p"
    and "L (seller_id a) = Some (bs, hs)" and "bs + c < exact_limit"
    and "highest_bidder_id a \<noteq> 0 \<Longrightarrow> L (highest_bidder_id a) = Some (bw, hw) \<and> c \<le> hw"
    and "L' = (if highest_bidder_id a = 0 then L
      else if p = 0 \<or> p \<le> c
      then if highest_bidder_id a = seller_id a then L(seller_id a \<mapsto> (bw, hw - c))
           else L(highest_bidder_id a \<mapsto> (bw - c, hw - c), seller_id a \<mapsto> (bs + c, hs))
      else L(highest_bidder_id a \<mapsto> (bw, hw - c)))"
  shows "ledger_rel (handle_close_auction fd req u w) L' \<and> ledger_total L' = ledger_total L \<and>
    auctions (handle_close_auction fd req u w) =
      (auctions w)[slot_of (close_auction_id req) := a\<lparr>auction_status := AUCTION_CLOSED\<rparr>]"
proof -
  have met: "reserve_met a \<longleftrightarrow> p = 0 \<or> p \<le> c" using assms(9,11) by (simp add: reserve_met_def)
  have sane: "0 \<le> hs" "hs \<le> bs" "highest_bidder_id a \<noteq> 0 \<Longrightarrow> 0 \<le> hw \<and> hw \<le> bw"
    using ledger_rel_sane [OF assms(1)] assms(12,14) by blast+
  have L': "ledger_close L a c = Some L'"
  proof (cases "highest_bidder_id a = 0")
    case True
    then show ?thesis by (simp add: ledger_close_def assms(15))
  next
    case False
    with assms(10,12,14) sane show ?thesis
      by (cases "highest_bidder_id a = seller_id a")
        (auto simp: ledger_close_def met assms(15) ledger_settle_Some ledger_release_Some ledger_credit_Some)
  qed
  have lim: "c \<le> exact_limit" using assms(13) sane by simp
  have "ledger_bounded L" using ledger_rel_bounded [OF assms(1)] .
  then have "ledger_bounded L'"
    using assms(10,13,14) by (auto simp: ledger_bounded_def assms(15) split: if_splits; fastforce)
  with close_refines [OF assms(1,2,4,9)] assms(10) lim L'
  have "ledger_rel (snd (close_auction_internal a w)) L'" by simp
  moreover have "handle_close_auction fd req u w =
      log_txn (L_CLOSE_AUCTION (auction_id a) (user_id u)) (send_msg fd MSG_CLOSE_AUCTION_RESP ERR_OK
        (P_Auction (a\<lparr>auction_status := AUCTION_CLOSED\<rparr>)) (snd (close_auction_internal a w)))"
    using assms(6-8) by (auto simp: handle_close_auction_def case_prod_beta Let_def)
  moreover have "auctions (snd (close_auction_internal a w)) =
      (auctions w)[slot_of (close_auction_id req) := a\<lparr>auction_status := AUCTION_CLOSED\<rparr>]"
    using close_slot [OF assms(3,5,6)] by simp
  ultimately show ?thesis using ledger_close_total [OF L'] by (simp cong: ledger_rel_cong)
qed

theorem close_transfers_money_witness:
  "ledger_rel (handle_close_auction 9 \<lparr>close_auction_id = 2\<rparr> (sample_user 2 ''sam'' ROLE_AUCTIONEER 150 0) sample_world)
    (sample_ledger(3 \<mapsto> (700, 0), 2 \<mapsto> (450, 0)))"
proof -
  let ?a = "sample_auction 2 AUCTION_OPEN 0 300 3 70" and ?u = "sample_user 2 ''sam'' ROLE_AUCTIONEER 150 0"
  have "read_auction (close_auction_id \<lparr>close_auction_id = 2\<rparr>) sample_world = Some ?a" by simp
  from close_transfers_money [OF sample_ledger_rel sample_numbered(1,2) sample_files(7,7) this, of ?u 300 0 150 0 1000 300
      "sample_ledger(3 \<mapsto> (700, 0), 2 \<mapsto> (450, 0))" 9]
  show ?thesis by (simp add: sample_ledger_def exact_limit_def)
qed

text \<open>An auction is settled once: after a close request has been accepted, any further close of
  the same auction, by anyone, is refused and moves no money, and the timer leaves it alone.\<close>

lemma settled_once:
  assumes "numbered auction_id (auctions w)" and "writable w FILE_AUCTIONS"
    and "read_auction i w = Some a" and "auction_status a = AUCTION_OPEN"
    and "close_auction_id req = i" and "auctions w' = auctions (snd (close_auction_internal a w))"
  shows "timer_close i w' = w' \<and>
    (\<exists>e. e \<in> {ERR_PERMISSION, ERR_AUCTION_CLOSED} \<and>
      handle_close_auction fd req u w' = send_msg fd MSG_CLOSE_AUCTION_RESP e P_None w')"
proof -
  have "read_auction i w' = Some (close_in {i} a)"
    using assms(3) auctions_close [OF assms(1-4)] assms(6) by (simp add: at.rd_rows split: if_splits)
  then have "read_auction i w' = Some (a\<lparr>auction_status := AUCTION_CLOSED\<rparr>)"
    using at.rd_ident [OF assms(1,3)] assms(4) by (simp add: close_in_def)
  then show ?thesis using assms(5) by (auto simp: timer_close_def handle_close_auction_def)
qed

end
