(* ===== verification/Bid_Handler.thy ===== *)
theory Bid_Handler
  imports Auction_Engine
begin

text \<open>
  \<^verbatim>\<open>server/bid_handler.c\<close>: placing a bid, the views of open auctions and of one's own bids, and
  feedback. \<^verbatim>\<open>handle_place_bid\<close> is split where the code takes and posts the auction's
  semaphore: a check before it, the critical section, and the answers after it.

  The theory shows when a bid is accepted and what it changes, what becomes of the holds in every
  case of the previous leader, that a bid keeps the bid file and the auction records in agreement
  (\<open>bid_book\<close>), and what a NaN bid does.
\<close>

section \<open>Placing a bid\<close>

record PlaceBidPayload =
  bid_req_auction_id :: u32
  bid_req_amount :: dbl

definition place_bid_check :: "PlaceBidPayload \<Rightarrow> User \<Rightarrow> world \<Rightarrow> err option" where
  \<comment> \<open>steps 1 and 2, before the semaphore: the error to answer, if any\<close>
  "place_bid_check req bidder w =
     (case read_auction (bid_req_auction_id req) w of
        None \<Rightarrow> Some ERR_NOT_FOUND
      | Some a \<Rightarrow>
          if auction_status a \<noteq> AUCTION_OPEN then Some ERR_AUCTION_CLOSED
          else
            case read_user (user_id bidder) w of
              None \<Rightarrow> Some ERR_INTERNAL
            | Some fresh_bidder \<Rightarrow>
                let available = wallet_balance fresh_bidder - wallet_hold fresh_bidder
                in if bid_req_amount req > available then Some ERR_INSUFFICIENT else None)"

definition place_bid_critical ::
  "PlaceBidPayload \<Rightarrow> User \<Rightarrow> world \<Rightarrow> (err + Bid \<times> u32) \<times> world" where
  \<comment> \<open>from \<^verbatim>\<open>sem_wait\<close> to \<^verbatim>\<open>sem_post\<close>: the error, or the bid and the previous leader\<close>
  "place_bid_critical req bidder w =
     (case read_auction (bid_req_auction_id req) w of
        None \<Rightarrow> (Inl ERR_NOT_FOUND, w)
      | Some a \<Rightarrow>
          if auction_status a \<noteq> AUCTION_OPEN then (Inl ERR_AUCTION_CLOSED, w)
          else if bid_req_amount req \<le> current_bid a then (Inl ERR_BID_TOO_LOW, w)
          else
            let prev_winner = highest_bidder_id a;
                prev_bid = current_bid a;
                w = (if prev_winner \<noteq> 0 then snd (release_hold prev_winner prev_bid w) else w);
                w = snd (place_hold (user_id bidder) (bid_req_amount req) w);
                a = a\<lparr>current_bid := bid_req_amount req, highest_bidder_id := user_id bidder,
                      bid_count := bid_count a + 1\<rparr>;
                w = snd (write_auction a w);
                b = \<lparr>bid_id = next_bid_id w, bid_auction_id = bid_req_auction_id req,
                     bidder_id = user_id bidder, bid_amount = bid_req_amount req,
                     placed_at = now w, is_winning = True\<rparr>;
                w = snd (append_bid b w)
            in (Inr (b, prev_winner), w))"

definition place_bid_respond ::
  "int \<Rightarrow> PlaceBidPayload \<Rightarrow> User \<Rightarrow> err + Bid \<times> u32 \<Rightarrow> world \<Rightarrow> world" where
  \<comment> \<open>step 7, after the semaphore\<close>
  "place_bid_respond client_fd req bidder outcome w =
     (case outcome of
        Inl e \<Rightarrow> send_msg client_fd MSG_PLACE_BID_RESP e P_None w
      | Inr (b, prev_winner) \<Rightarrow>
          let w = send_msg client_fd MSG_PLACE_BID_RESP ERR_OK (P_Bid b) w;
              w = log_txn (L_BID (bid_req_auction_id req) (user_id bidder) (bid_req_amount req)) w
          in if prev_winner \<noteq> 0 \<and> prev_winner \<noteq> user_id bidder
             then notify_outbid prev_winner (bid_req_auction_id req) (bid_req_amount req) w else w)"

definition handle_place_bid :: "int \<Rightarrow> PlaceBidPayload \<Rightarrow> User \<Rightarrow> world \<Rightarrow> world" where
  "handle_place_bid client_fd req bidder w =
     (case place_bid_check req bidder w of
        Some e \<Rightarrow> send_msg client_fd MSG_PLACE_BID_RESP e P_None w
      | None \<Rightarrow>
          let (outcome, w) = place_bid_critical req bidder w
          in place_bid_respond client_fd req bidder outcome w)"

section \<open>Views\<close>

fun collect_loop :: "nat \<Rightarrow> ('r \<Rightarrow> bool) \<Rightarrow> 'r list \<Rightarrow> 'r list \<Rightarrow> 'r list" where
  \<comment> \<open>\<^verbatim>\<open>while (read(fd, &r, sizeof r) == sizeof r && count < limit) if (P r) list[count++] = r;\<close>\<close>
  "collect_loop limit P found [] = found"
| "collect_loop limit P found (r # rest) =
     (if length found < limit
      then if P r then collect_loop limit P (found @ [r]) rest else collect_loop limit P found rest
      else found)"

definition handle_view_auctions :: "int \<Rightarrow> world \<Rightarrow> world" where
  "handle_view_auctions client_fd w =
     (case auctions_file w of
        None \<Rightarrow> send_msg client_fd MSG_VIEW_AUCTIONS_RESP ERR_INTERNAL P_None w
      | Some file \<Rightarrow>
          let open_list = collect_loop 256
                (\<lambda>a. \<not> auction_deleted a \<and> auction_status a = AUCTION_OPEN) [] file
          in send_msg client_fd MSG_VIEW_AUCTIONS_RESP ERR_OK (P_Auctions open_list) w)"

definition handle_view_my_bids :: "int \<Rightarrow> User \<Rightarrow> world \<Rightarrow> world" where
  "handle_view_my_bids client_fd u w =
     (case bids_file w of
        None \<Rightarrow> send_msg client_fd MSG_VIEW_MY_BIDS_RESP ERR_INTERNAL P_None w
      | Some file \<Rightarrow>
          let my_bids = collect_loop 256 (\<lambda>b. bidder_id b = user_id u) [] file
          in send_msg client_fd MSG_VIEW_MY_BIDS_RESP ERR_OK (P_Bids my_bids) w)"

section \<open>Feedback\<close>

record FeedbackPayload =
  feedback_req_auction_id :: u32
  feedback_req_message :: "char list"

definition handle_submit_feedback :: "int \<Rightarrow> FeedbackPayload \<Rightarrow> User \<Rightarrow> world \<Rightarrow> world" where
  "handle_submit_feedback client_fd req u w =
     (let f = \<lparr>feedback_id = 0, from_user_id = user_id u,
               about_auction_id = feedback_req_auction_id req,
               feedback_message =
                 strncpy (replicate MAX_FEEDBACK NUL) (feedback_req_message req) (MAX_FEEDBACK - 1),
               submitted_at = now w, reviewed = False\<rparr>;
          f = (case feedback_file w of
                 None \<Rightarrow> f
               | Some file \<Rightarrow> f\<lparr>feedback_id := word_of_nat (length file) + 1\<rparr>);
          (result, w) = append_feedback f w
      in if result < 0 then send_msg client_fd MSG_SUBMIT_FEEDBACK_RESP ERR_INTERNAL P_None w
         else send_msg client_fd MSG_SUBMIT_FEEDBACK_RESP ERR_OK P_None w)"

section \<open>Frames and shapes\<close>

lemma collect_loop_take:
  "length found \<le> limit \<Longrightarrow> collect_loop limit P found xs = take limit (found @ filter P xs)"
  by (induction limit P found xs rule: collect_loop.induct) auto

lemma view_frame [simp, frame_simps]:
  "users_file (handle_view_auctions fd w) = users_file w"
  "auctions_file (handle_view_auctions fd w) = auctions_file w"
  "bids_file (handle_view_auctions fd w) = bids_file w"
  "sessions_file (handle_view_auctions fd w) = sessions_file w"
  "feedback_file (handle_view_auctions fd w) = feedback_file w"
  "disputes_file (handle_view_auctions fd w) = disputes_file w"
  "writable (handle_view_auctions fd w) = writable w"
  "registry (handle_view_auctions fd w) = registry w"
  "now (handle_view_auctions fd w) = now w"
  "users_file (handle_view_my_bids fd u w) = users_file w"
  "auctions_file (handle_view_my_bids fd u w) = auctions_file w"
  "bids_file (handle_view_my_bids fd u w) = bids_file w"
  "sessions_file (handle_view_my_bids fd u w) = sessions_file w"
  "feedback_file (handle_view_my_bids fd u w) = feedback_file w"
  "disputes_file (handle_view_my_bids fd u w) = disputes_file w"
  "writable (handle_view_my_bids fd u w) = writable w"
  "registry (handle_view_my_bids fd u w) = registry w"
  "now (handle_view_my_bids fd u w) = now w"
  by (simp_all add: handle_view_auctions_def handle_view_my_bids_def split: option.split)

lemma feedback_frame [simp, frame_simps]:
  "users_file (handle_submit_feedback fd q u w) = users_file w"
  "auctions_file (handle_submit_feedback fd q u w) = auctions_file w"
  "bids_file (handle_submit_feedback fd q u w) = bids_file w"
  "sessions_file (handle_submit_feedback fd q u w) = sessions_file w"
  "disputes_file (handle_submit_feedback fd q u w) = disputes_file w"
  "writable (handle_submit_feedback fd q u w) = writable w"
  "registry (handle_submit_feedback fd q u w) = registry w"
  "now (handle_submit_feedback fd q u w) = now w"
  by (simp_all add: handle_submit_feedback_def Let_def case_prod_beta)

lemma respond_frame [simp, frame_simps]:
  "users_file (place_bid_respond fd req u r w) = users_file w"
  "auctions_file (place_bid_respond fd req u r w) = auctions_file w"
  "bids_file (place_bid_respond fd req u r w) = bids_file w"
  "sessions_file (place_bid_respond fd req u r w) = sessions_file w"
  "feedback_file (place_bid_respond fd req u r w) = feedback_file w"
  "disputes_file (place_bid_respond fd req u r w) = disputes_file w"
  "writable (place_bid_respond fd req u r w) = writable w"
  "registry (place_bid_respond fd req u r w) = registry w"
  "now (place_bid_respond fd req u r w) = now w"
  by (simp_all add: place_bid_respond_def Let_def split: sum.split)

lemma critical_frame [simp, frame_simps]:
  "sessions_file (snd (place_bid_critical req u w)) = sessions_file w"
  "feedback_file (snd (place_bid_critical req u w)) = feedback_file w"
  "disputes_file (snd (place_bid_critical req u w)) = disputes_file w"
  "writable (snd (place_bid_critical req u w)) = writable w"
  "registry (snd (place_bid_critical req u w)) = registry w"
  "sent (snd (place_bid_critical req u w)) = sent w"
  "now (snd (place_bid_critical req u w)) = now w"
  by (simp_all add: place_bid_critical_def Let_def split: option.split)

lemma place_bid_frame [simp, frame_simps]:
  "sessions_file (handle_place_bid fd req u w) = sessions_file w"
  "feedback_file (handle_place_bid fd req u w) = feedback_file w"
  "disputes_file (handle_place_bid fd req u w) = disputes_file w"
  "writable (handle_place_bid fd req u w) = writable w"
  "registry (handle_place_bid fd req u w) = registry w"
  "now (handle_place_bid fd req u w) = now w"
  by (simp_all add: handle_place_bid_def case_prod_beta split: option.split)

section \<open>The two outcomes of a bid\<close>

definition bid_accepts :: "PlaceBidPayload \<Rightarrow> User \<Rightarrow> world \<Rightarrow> Auction \<Rightarrow> bool" where
  "bid_accepts req u w a \<longleftrightarrow>
     read_auction (bid_req_auction_id req) w = Some a \<and> auction_status a = AUCTION_OPEN \<and>
     (\<exists>r. read_user (user_id u) w = Some r \<and> \<not> bid_req_amount req > wallet_balance r - wallet_hold r) \<and>
     \<not> bid_req_amount req \<le> current_bid a"

definition raised :: "PlaceBidPayload \<Rightarrow> User \<Rightarrow> Auction \<Rightarrow> Auction" where
  "raised req u a =
     a\<lparr>current_bid := bid_req_amount req, highest_bidder_id := user_id u, bid_count := bid_count a + 1\<rparr>"

definition new_bid :: "PlaceBidPayload \<Rightarrow> User \<Rightarrow> world \<Rightarrow> Bid" where
  "new_bid req u w =
     \<lparr>bid_id = next_bid_id w, bid_auction_id = bid_req_auction_id req, bidder_id = user_id u,
      bid_amount = bid_req_amount req, placed_at = now w, is_winning = True\<rparr>"

definition bid_wallets :: "PlaceBidPayload \<Rightarrow> User \<Rightarrow> Auction \<Rightarrow> world \<Rightarrow> world" where
  \<comment> \<open>step 4\<close>
  "bid_wallets req u a w =
     snd (place_hold (user_id u) (bid_req_amount req)
       (if highest_bidder_id a \<noteq> 0 then snd (release_hold (highest_bidder_id a) (current_bid a) w) else w))"

lemma bid_wallets_frame [simp]:
  "auctions_file (bid_wallets req u a w) = auctions_file w"
  "bids_file (bid_wallets req u a w) = bids_file w"
  "writable (bid_wallets req u a w) = writable w"
  "now (bid_wallets req u a w) = now w"
  "sent (bid_wallets req u a w) = sent w"
  "registry (bid_wallets req u a w) = registry w"
  by (simp_all add: bid_wallets_def)

lemma next_bid_id_cong: "bids_file w = bids_file v \<Longrightarrow> next_bid_id w = next_bid_id v"
  by (simp add: next_bid_id_def)

lemma critical_accepted:
  assumes "bid_accepts req u w a"
  shows "place_bid_critical req u w =
    (Inr (new_bid req u w, highest_bidder_id a),
     snd (append_bid (new_bid req u w) (snd (write_auction (raised req u a) (bid_wallets req u a w)))))"
proof -
  have "next_bid_id (snd (write_auction (raised req u a) (bid_wallets req u a w))) = next_bid_id w"
    by (rule next_bid_id_cong) simp
  then show ?thesis
    using assms
    by (simp add: place_bid_critical_def bid_accepts_def Let_def bid_wallets_def raised_def new_bid_def)
qed

lemma place_bid_accepted:
  assumes "bid_accepts req u w a"
  shows "handle_place_bid fd req u w =
    place_bid_respond fd req u (Inr (new_bid req u w, highest_bidder_id a))
      (snd (append_bid (new_bid req u w) (snd (write_auction (raised req u a) (bid_wallets req u a w)))))"
proof -
  have "place_bid_check req u w = None"
    using assms by (auto simp: place_bid_check_def bid_accepts_def Let_def)
  then show ?thesis by (simp add: handle_place_bid_def critical_accepted [OF assms])
qed

lemma place_bid_rejected:
  assumes "\<not> (\<exists>a. bid_accepts req u w a)"
  shows "\<exists>e. e \<noteq> ERR_OK \<and> handle_place_bid fd req u w = send_msg fd MSG_PLACE_BID_RESP e P_None w"
proof (cases "place_bid_check req u w")
  case (Some e)
  then have "e \<noteq> ERR_OK" by (auto simp: place_bid_check_def Let_def split: option.splits if_splits)
  with Some show ?thesis by (auto simp: handle_place_bid_def)
next
  case None
  then obtain a r where "read_auction (bid_req_auction_id req) w = Some a" "auction_status a = AUCTION_OPEN"
    "read_user (user_id u) w = Some r" "\<not> bid_req_amount req > wallet_balance r - wallet_hold r"
    by (auto simp: place_bid_check_def Let_def split: option.splits if_splits)
  with assms have "place_bid_critical req u w = (Inl ERR_BID_TOO_LOW, w)"
    by (auto simp: place_bid_critical_def bid_accepts_def)
  with None show ?thesis by (auto simp: handle_place_bid_def place_bid_respond_def)
qed

lemma place_bid_cases:
  obtains (accepted) a where "bid_accepts req u w a"
  | (rejected) e where "e \<noteq> ERR_OK" "handle_place_bid fd req u w = send_msg fd MSG_PLACE_BID_RESP e P_None w"
  using place_bid_rejected [of req u w fd] by blast

lemma accepted_auctions:
  assumes "bid_accepts req u w a" and "numbered auction_id (auctions w)" and "writable w FILE_AUCTIONS"
  shows "auctions (handle_place_bid fd req u w) =
    (auctions w)[slot_of (bid_req_auction_id req) := raised req u a]"
proof -
  have r: "read_auction (bid_req_auction_id req) (bid_wallets req u a w) = Some a"
    using assms(1) read_auction_cong [of "bid_wallets req u a w" w] by (simp add: bid_accepts_def)
  have "auction_id (raised req u a) = bid_req_auction_id req"
    using at.rd_ident [OF assms(2)] assms(1) by (simp add: bid_accepts_def raised_def)
  from at.rows_update [OF r this] assms(3) show ?thesis
    by (simp add: place_bid_accepted [OF assms(1)])
qed

lemma accepted_bids:
  "bid_accepts req u w a \<Longrightarrow> writable w FILE_BIDS \<Longrightarrow>
   bids (handle_place_bid fd req u w) = bids w @ [new_bid req u w]"
  by (simp add: place_bid_accepted append_bid_def)

lemma accepted_users:
  "bid_accepts req u w a \<Longrightarrow>
   users_file (handle_place_bid fd req u w) = users_file (bid_wallets req u a w)"
  by (simp add: place_bid_accepted)

lemma bid_wallets_accounts:
  "numbered user_id (users w) \<Longrightarrow> accounts_kept w (bid_wallets req u a w)"
  by (simp add: bid_wallets_def wallet_kept accounts_kept_refl)

lemma place_bid_accounts:
  "numbered user_id (users w) \<Longrightarrow> accounts_kept w (handle_place_bid fd req u w)"
proof (cases rule: place_bid_cases [where req = req and u = u and w = w and fd = fd])
  case (accepted a)
  then show "numbered user_id (users w) \<Longrightarrow> ?thesis"
    using bid_wallets_accounts [of w req u a] accounts_kept_cong(1) [OF accepted_users [OF accepted]] by simp
qed (simp add: accounts_kept_def list_all2_refl)

lemma place_bid_inv:
  assumes "users_inv w" and "is_finite (bid_req_amount req)" and "\<forall>a \<in> set (auctions w). is_finite (current_bid a)"
  shows "users_inv (handle_place_bid fd req u w)"
proof (cases rule: place_bid_cases [where req = req and u = u and w = w and fd = fd])
  case (accepted a)
  then have "is_finite (current_bid a)" using assms(3) at.rd_mem by (auto simp: bid_accepts_def)
  then have "users_inv (bid_wallets req u a w)" using assms(1,2) by (simp add: bid_wallets_def wallet_inv)
  then show ?thesis by (simp add: users_inv_cong [OF accepted_users [OF accepted]])
qed (simp add: assms)

section \<open>The bid file and the auction records\<close>

definition book :: "u32 \<Rightarrow> Bid list \<Rightarrow> Bid list" where
  "book i bs = filter (\<lambda>b. bid_auction_id b = i) bs"

definition in_step :: "Auction \<Rightarrow> Bid list \<Rightarrow> bool" where
  \<comment> \<open>the record of an auction summarises its bids: their number, and the last one as the
    highest\<close>
  "in_step a bs \<longleftrightarrow>
     bid_count a = int (length bs) \<and>
     (if bs = [] then highest_bidder_id a = 0
      else highest_bidder_id a = bidder_id (last bs) \<and> current_bid a = bid_amount (last bs)) \<and>
     sorted_wrt (\<lambda>b c. bid_amount b < bid_amount c) bs"

definition bid_book :: "world \<Rightarrow> bool" where
  "bid_book w \<longleftrightarrow>
     (\<forall>a \<in> set (auctions w). in_step a (book (auction_id a) (bids w))) \<and>
     (\<forall>b \<in> set (bids w). bid_auction_id b \<in> auction_id ` set (auctions w))"

lemma bid_book_cong:
  "auctions w = auctions v \<Longrightarrow> bids w = bids v \<Longrightarrow> bid_book w = bid_book v"
  by (simp add: bid_book_def)

lemma bid_book_frame [simp]:
  "bid_book (log_txn m w) = bid_book w" "bid_book (send_msg fd t e p w) = bid_book w"
  by (rule bid_book_cong; simp)+

definition flag_only :: "(Bid \<Rightarrow> Bid) \<Rightarrow> bool" where
  \<comment> \<open>a change of the winning flag at most\<close>
  "flag_only f \<longleftrightarrow> (\<forall>b. f b = b \<or> f b = b\<lparr>is_winning := True\<rparr>)"

lemma flag_only_keeps:
  assumes "flag_only f"
  shows "bid_auction_id (f b) = bid_auction_id b" "bidder_id (f b) = bidder_id b"
    "bid_amount (f b) = bid_amount b" "is_winning b \<Longrightarrow> is_winning (f b)"
  using assms by (auto simp: flag_only_def dest!: spec [of _ b])

lemma flag_only_id: "flag_only (\<lambda>b. b)" and flag_only_mark: "flag_only (mark a)"
  by (auto simp: flag_only_def mark_def)

lemma flag_only_comp: "flag_only f \<Longrightarrow> flag_only g \<Longrightarrow> flag_only (g \<circ> f)"
  unfolding flag_only_def o_def by (metis (no_types, lifting) Bid.surjective Bid.update_convs(6))

lemma book_map: "flag_only f \<Longrightarrow> book i (map f bs) = map f (book i bs)"
  by (simp add: book_def filter_map o_def flag_only_keeps)

lemma in_step_map: "flag_only f \<Longrightarrow> in_step a (map f bs) = in_step a bs"
  by (simp add: in_step_def last_map sorted_wrt_map flag_only_keeps)

lemma in_step_close [simp]: "in_step (close_in S a) bs = in_step a bs"
  by (simp add: in_step_def close_in_def)

lemma bid_book_map:
  assumes "auctions w' = map (close_in S) (auctions w)" and "bids w' = map f (bids w)" and "flag_only f"
  shows "bid_book w' = bid_book w"
  using assms by (simp add: bid_book_def book_map in_step_map flag_only_keeps image_image)

lemma bids_marked:
  assumes "bids v = bids w"
  shows "\<exists>f. flag_only f \<and> bids (mark_winning_bids x v) = map f (bids w)"
proof (cases "bids_file v = None \<or> \<not> writable v FILE_BIDS")
  case True
  then have "bids (mark_winning_bids x v) = map (\<lambda>b. b) (bids w)"
    using assms by (auto simp: mark_winning_bids_def split: option.split)
  then show ?thesis using flag_only_id by blast
next
  case False
  then have "bids (mark_winning_bids x v) = map (mark x) (bids w)"
    using assms mark_loop_prefix [of 0 _ x] by (auto simp: mark_winning_bids_def)
  then show ?thesis using flag_only_mark by blast
qed

lemma bids_close: "\<exists>f. flag_only f \<and> bids (snd (close_auction_internal a w)) = map f (bids w)"
  using flag_only_id by (auto simp: close_auction_internal_def Let_def intro!: bids_marked)

lemma timer_bids: "\<exists>f. flag_only f \<and> bids (fold timer_close is w) = map f (bids w)"
proof (induction "is" arbitrary: w)
  case Nil
  then show ?case using flag_only_id by force
next
  case (Cons i "is")
  have "\<exists>f. flag_only f \<and> bids (timer_close i w) = map f (bids w)"
    using bids_close [of _ w] flag_only_id
    by (auto simp: timer_close_def case_prod_beta split: option.split)
  then obtain f where f: "flag_only f" "bids (timer_close i w) = map f (bids w)" by blast
  obtain g where g: "flag_only g" "bids (fold timer_close (i # is) w) = map g (bids (timer_close i w))"
    using Cons [of "timer_close i w"] by auto
  then show ?case using flag_only_comp [OF f(1) g(1)] f(2) by (metis map_map)
qed

lemma in_step_raise:
  assumes "in_step a bs" and "\<not> bid_amount b \<le> current_bid a" and "bid_amount b \<noteq> NaN"
    and "bs \<noteq> [] \<Longrightarrow> current_bid a \<noteq> NaN"
  shows "in_step (a\<lparr>current_bid := bid_amount b, highest_bidder_id := bidder_id b, bid_count := bid_count a + 1\<rparr>)
    (bs @ [b])"
proof -
  have "bid_amount c < bid_amount b" if "c \<in> set bs" for c
  proof -
    from that have ne: "bs \<noteq> []" by auto
    then have l: "bid_amount (last bs) < bid_amount b"
      using assms dbl_not_le [of "bid_amount b" "current_bid a"] by (simp add: in_step_def)
    have "c = last bs \<or> bid_amount c < bid_amount (last bs)"
      using assms(1) that append_butlast_last_id [OF ne] unfolding in_step_def
      by (metis (no_types, lifting) UnE list.set_intros(1) rotate1.simps(2) set_append set_ConsD
          sorted_wrt_append in_set_conv_decomp list.distinct(1) set_rotate1 empty_iff list.set(1))
    with l show ?thesis by (auto intro: dbl_less_trans)
  qed
  then show ?thesis using assms(1) by (auto simp: in_step_def sorted_wrt_append)
qed

lemma bid_book_place:
  assumes bk: "bid_book w" and num: "numbered auction_id (auctions w)"
    and wr: "writable w FILE_AUCTIONS" "writable w FILE_BIDS"
    and nan: "bid_req_amount req \<noteq> NaN" "\<forall>b \<in> set (bids w). bid_amount b \<noteq> NaN"
  shows "bid_book (handle_place_bid fd req u w)"
proof (cases rule: place_bid_cases [where req = req and u = u and w = w and fd = fd])
  case (rejected e)
  with bk show ?thesis by simp
next
  case (accepted a)
  let ?i = "bid_req_auction_id req" and ?w = "handle_place_bid fd req u w" and ?b = "new_bid req u w"
  note A = accepted_auctions [OF accepted num wr(1), of fd] and B = accepted_bids [OF accepted wr(2), of fd]
  have rd: "read_auction ?i w = Some a" using accepted by (simp add: bid_accepts_def)
  have id: "auction_id a = ?i" "auction_id (raised req u a) = ?i"
    using at.rd_ident [OF num rd] by (simp_all add: raised_def)
  have slot: "slot_of ?i < length (auctions w)" "auctions w ! slot_of ?i = a" using rd by (simp_all add: at.rd_Some)
  have ids: "map auction_id (auctions ?w) = map auction_id (auctions w)"
    using slot id by (simp add: A map_update list_update_same_conv)
  have st: "in_step a (book ?i (bids w))" using bk at.rd_mem [OF rd] id(1) unfolding bid_book_def by metis
  have "in_step (raised req u a) (book ?i (bids w) @ [?b])"
    using in_step_raise [OF st, of ?b] accepted nan st
    by (fastforce simp: new_bid_def raised_def bid_accepts_def in_step_def book_def split: if_splits
        dest: last_in_set)
  moreover have "book j (bids w @ [?b]) = (if j = ?i then book j (bids w) @ [?b] else book j (bids w))" for j
    by (simp add: book_def new_bid_def)
  moreover have "in_step (auctions w ! k) (book (auction_id (auctions w ! k)) (bids w))"
    if "k < length (auctions w)" for k
    using bk that unfolding bid_book_def by simp
  ultimately have "in_step x (book (auction_id x) (bids ?w))" if "x \<in> set (auctions ?w)" for x
    using that slot id numbered_slot [OF num, of _ ?i]
    by (auto simp: A B in_set_conv_nth nth_list_update split: if_splits)
  moreover have "bid_auction_id b \<in> auction_id ` set (auctions ?w)" if "b \<in> set (bids ?w)" for b
  proof -
    have "auction_id ` set (auctions ?w) = auction_id ` set (auctions w)"
      using ids by (metis set_map)
    moreover have "?i \<in> auction_id ` set (auctions w)" using at.rd_mem [OF rd] id by force
    ultimately show ?thesis using that bk by (auto simp: B bid_book_def new_bid_def)
  qed
  ultimately show ?thesis by (simp add: bid_book_def)
qed

lemma bid_book_create:
  assumes bk: "bid_book w" and num: "numbered auction_id (auctions w)" and len: "length (auctions w) + 1 < 2 ^ 32"
  shows "bid_book (handle_create_auction fd req u w)"
proof (cases "auctions (handle_create_auction fd req u w) = auctions w")
  case True
  moreover have "bids (handle_create_auction fd req u w) = bids w"
    by (simp add: handle_create_auction_def Let_def case_prod_beta)
  ultimately show ?thesis using bk by (simp cong: bid_book_cong)
next
  case False
  let ?a = "new_auction req u w"
  have id: "auction_id ?a = next_auction_id w" by (simp add: new_auction_def)
  have A: "auctions (handle_create_auction fd req u w) = auctions w @ [?a]"
    using False at.rows_create [OF id] len
    by (auto simp: handle_create_auction_def Let_def case_prod_beta split: if_splits)
  have B: "bids (handle_create_auction fd req u w) = bids w"
    by (simp add: handle_create_auction_def Let_def case_prod_beta)
  have "numbered auction_id (auctions w @ [?a])"
    using num len id by (auto simp: numbered_def nth_append at.fresh_def less_Suc_eq)
  then have "auction_id ?a \<notin> auction_id ` set (auctions w)" using numbered_distinct by fastforce
  then have "bid_auction_id b \<noteq> auction_id ?a" if "b \<in> set (bids w)" for b
    using bk that unfolding bid_book_def by metis
  then have "book (auction_id ?a) (bids w) = []" by (simp add: book_def filter_empty_conv)
  then have "in_step ?a (book (auction_id ?a) (bids w))" by (simp add: in_step_def new_auction_def)
  then show ?thesis using bk by (auto simp: bid_book_def A B)
qed

lemma bid_book_settle:
  assumes "numbered auction_id (auctions w)" and "writable w FILE_AUCTIONS"
    and "read_auction i w = Some a" and "auction_status a = AUCTION_OPEN" and "bid_book w"
  shows "bid_book (snd (close_auction_internal a w))"
proof -
  obtain f where "flag_only f" "bids (snd (close_auction_internal a w)) = map f (bids w)"
    using bids_close by blast
  with bid_book_map [OF auctions_close [OF assms(1-4)]] assms(5) show ?thesis by blast
qed

lemma bid_book_close:
  assumes "numbered auction_id (auctions w)" and "writable w FILE_AUCTIONS" and "bid_book w"
  shows "bid_book (handle_close_auction fd req u w)"
  using bid_book_settle [OF assms(1,2) _ _ assms(3)] assms(3)
  by (auto simp: handle_close_auction_def case_prod_beta Let_def split: option.split)

lemma bid_book_timer:
  assumes "numbered auction_id (auctions w)" and "writable w FILE_AUCTIONS" and "bid_book w"
  shows "bid_book (timer_tick w)"
proof -
  obtain f where f: "flag_only f" "bids (timer_tick w) = map f (bids w)"
    using timer_bids by (auto simp: timer_tick_eq)
  with bid_book_map [OF timer_tick_auctions [OF assms(1,2)] f(2,1)] assms(3) show ?thesis by simp
qed

lemma bid_book_status:
  assumes "auctions w' = (auctions w)[k := a\<lparr>auction_status := st\<rparr>]" and "k < length (auctions w)" "auctions w ! k = a"
    and "bids w' = bids w" and "bid_book w"
  shows "bid_book w'"
proof -
  have m: "a \<in> set (auctions w)" using assms(2,3) by auto
  have "map auction_id (auctions w') = map auction_id (auctions w)"
    using assms(1-3) by (simp add: map_update list_update_same_conv)
  then have ids: "auction_id ` set (auctions w') = auction_id ` set (auctions w)" by (metis set_map)
  have "in_step x (book (auction_id x) (bids w))" if "x \<in> set (auctions w')" for x
  proof (cases "x \<in> set (auctions w)")
    case True
    then show ?thesis using assms(5) by (simp add: bid_book_def)
  next
    case False
    then have "x = a\<lparr>auction_status := st\<rparr>" using that assms(1) set_update_subset_insert [of "auctions w" k] by fastforce
    moreover have "in_step a (book (auction_id a) (bids w))" using assms(5) m by (simp add: bid_book_def)
    ultimately show ?thesis by (simp add: in_step_def)
  qed
  then show ?thesis using assms(4,5) ids by (simp add: bid_book_def)
qed

section \<open>The ledger of a bid\<close>

lemma bid_covered:
  assumes "ledger_rel w L" and "bid_accepts req u w a" and "bid_req_amount req = rs m"
    and "L (user_id u) = Some (b, h)"
  shows "m \<le> b - h"
proof -
  obtain r where r: "read_user (user_id u) w = Some r" "\<not> rs m > wallet_balance r - wallet_hold r"
    using assms(2,3) by (auto simp: bid_accepts_def)
  then have "exact_wallet r b h" using ledger_rel_Some [OF assms(1,4)] by simp
  with r(2) show ?thesis by (simp add: exact_wallet_def rs_minus exact_limit_def)
qed

lemma bid_ledger:
  assumes rel: "ledger_rel w L" and num: "numbered user_id (users w)" and wr: "writable w FILE_USERS"
    and acc: "bid_accepts req u w a" and m: "bid_req_amount req = rs m" and c: "current_bid a = rs c" "0 < c"
    and led: "highest_bidder_id a \<noteq> 0 \<Longrightarrow> \<exists>b h. L (highest_bidder_id a) = Some (b, h) \<and> c \<le> h"
  shows "\<exists>L1 b h. L1 = (case L (highest_bidder_id a) of
        Some (b, h) \<Rightarrow> if highest_bidder_id a = 0 then L else L(highest_bidder_id a \<mapsto> (b, h - c))
      | None \<Rightarrow> L) \<and>
    L1 (user_id u) = Some (b, h) \<and> m \<le> b - h \<and>
    ledger_rel (handle_place_bid fd req u w) (L1(user_id u \<mapsto> (b, h + m)))"
proof -
  let ?p = "highest_bidder_id a" and ?i = "user_id u"
  let ?w1 = "if ?p \<noteq> 0 then snd (release_hold ?p (current_bid a) w) else w"
  let ?L1 = "case L ?p of Some (b, h) \<Rightarrow> if ?p = 0 then L else L(?p \<mapsto> (b, h - c)) | None \<Rightarrow> L"
  have cm: "c < m" using acc m c by (simp add: bid_accepts_def)
  obtain r where "read_user ?i w = Some r" using acc by (auto simp: bid_accepts_def)
  then obtain b h where bh: "L ?i = Some (b, h)" "exact_wallet r b h"
    using rel by (cases "L ?i") (auto dest: ledger_rel_None ledger_rel_Some)
  then have avail: "m \<le> b - h" "0 \<le> h" "b < exact_limit"
    using bid_covered [OF rel acc m bh(1)] by (simp_all add: exact_wallet_def)
  have L1: "ledger_rel ?w1 ?L1 \<and> numbered user_id (users ?w1) \<and> writable ?w1 FILE_USERS"
  proof (cases "?p = 0")
    case True
    with rel num wr show ?thesis by (cases "L ?p") auto
  next
    case False
    with led obtain b' h' where p: "L ?p = Some (b', h')" "c \<le> h'" by blast
    have "ledger_release L ?p c = Some (L(?p \<mapsto> (b', h' - c)))"
      using p c ledger_rel_sane [OF rel p(1)] by (simp add: ledger_release_Some)
    moreover have "ledger_bounded (L(?p \<mapsto> (b', h' - c)))"
      using ledger_rel_bounded [OF rel] p(1) by (auto simp: ledger_bounded_def)
    moreover have "\<bar>c\<bar> \<le> exact_limit" using cm avail c by simp
    ultimately show ?thesis
      using rl.refines_Some [OF rel num wr] rl.numbered_after [OF num] wr False p(1) c(1) by simp
  qed
  obtain h1 where h1: "?L1 ?i = Some (b, h1)" "h1 \<le> h" "0 \<le> h1"
    using bh led ledger_rel_sane [OF rel bh(1)] c(2)
    by (cases "L ?p"; cases "?p = 0"; cases "?i = ?p") auto
  have "ledger_hold ?L1 ?i m = Some (?L1(?i \<mapsto> (b, h1 + m)))"
    using h1 avail cm c(2) by (intro ledger_hold_Some) auto
  moreover have "ledger_bounded (?L1(?i \<mapsto> (b, h1 + m)))"
    using ledger_rel_bounded [of ?w1 ?L1] L1 avail by (intro ledger_bounded_upd) auto
  moreover have "\<bar>m\<bar> \<le> exact_limit" using cm avail c by simp
  ultimately have "ledger_rel (bid_wallets req u a w) (?L1(?i \<mapsto> (b, h1 + m)))"
    using pl.refines_Some [of ?w1 ?L1 m ?i] L1 m unfolding bid_wallets_def by metis
  then have "ledger_rel (handle_place_bid fd req u w) (?L1(?i \<mapsto> (b, h1 + m)))"
    by (simp add: ledger_rel_cong [OF accepted_users [OF acc]])
  moreover have "m \<le> b - h1" using avail h1 by simp
  ultimately show ?thesis using h1(1) by blast
qed

section \<open>Properties\<close>

text \<open>C6: A bid is accepted exactly when the auction exists and is open, the bidder exists and has the
  amount available, and the amount is not at most the current bid. An accepted bid makes the
  bidder the leader at that amount, is appended to the bid file, and is answered to the bidder
  before the outbid leader (another user, when connected) is notified; a refused one is answered
  with an error and changes nothing else.\<close>

theorem place_bid_functional:
  assumes "numbered auction_id (auctions w)" and "writable w FILE_AUCTIONS" and "writable w FILE_BIDS"
  shows "(\<exists>a b. bid_accepts req u w a \<and> bidder_id b = user_id u \<and> bid_amount b = bid_req_amount req \<and>
      bid_auction_id b = bid_req_auction_id req \<and> bid_id b = next_bid_id w \<and>
      auctions (handle_place_bid fd req u w) = (auctions w)[slot_of (bid_req_auction_id req) :=
        a\<lparr>current_bid := bid_req_amount req, highest_bidder_id := user_id u, bid_count := bid_count a + 1\<rparr>] \<and>
      bids (handle_place_bid fd req u w) = bids w @ [b] \<and>
      sent (handle_place_bid fd req u w) = sent w @
        [(fd, \<lparr>msg_type = MSG_PLACE_BID_RESP, msg_status = ERR_OK, msg_payload = P_Bid b\<rparr>)] @
        (let p = highest_bidder_id a
         in if p \<noteq> 0 \<and> p \<noteq> user_id u \<and> lookup_fd p (registry w) \<ge> 0
            then [(lookup_fd p (registry w), \<lparr>msg_type = MSG_NOTIFY_OUTBID, msg_status = ERR_OK,
                   msg_payload = P_Outbid (bid_req_auction_id req) (bid_req_amount req)\<rparr>)] else []))
    \<or> \<not> (\<exists>a. bid_accepts req u w a) \<and>
      (\<exists>e. e \<noteq> ERR_OK \<and> handle_place_bid fd req u w = send_msg fd MSG_PLACE_BID_RESP e P_None w)"
proof (cases "\<exists>a. bid_accepts req u w a")
  case True
  then obtain a where a: "bid_accepts req u w a" ..
  have "sent (handle_place_bid fd req u w) = sent w @
        [(fd, \<lparr>msg_type = MSG_PLACE_BID_RESP, msg_status = ERR_OK, msg_payload = P_Bid (new_bid req u w)\<rparr>)] @
        (let p = highest_bidder_id a
         in if p \<noteq> 0 \<and> p \<noteq> user_id u \<and> lookup_fd p (registry w) \<ge> 0
            then [(lookup_fd p (registry w), \<lparr>msg_type = MSG_NOTIFY_OUTBID, msg_status = ERR_OK,
                   msg_payload = P_Outbid (bid_req_auction_id req) (bid_req_amount req)\<rparr>)] else [])"
    by (simp add: place_bid_accepted [OF a] place_bid_respond_def notify_outbid_def push_notification_def
        send_msg_def log_txn_def Let_def)
  then show ?thesis
    using a accepted_auctions [OF a assms(1,2), of fd] accepted_bids [OF a assms(3), of fd]
    unfolding raised_def
    by (intro disjI1 exI [of _ a] exI [of _ "new_bid req u w"]) (simp add: new_bid_def)
next
  case False
  with place_bid_rejected [OF False, of fd] show ?thesis by blast
qed

abbreviation bob :: User where
  "bob \<equiv> sample_user 3 ''bob'' ROLE_BIDDER 1000 300"

abbreviation ann :: User where
  "ann \<equiv> sample_user 4 ''ann'' ROLE_BIDDER 800 200"

lemma sample_avail: "rs b - rs h = rs (b - h)" if "\<bar>b - h\<bar> < 2 ^ 53"
  using that by (rule rs_minus)

lemma sample_bid_accepts:
  "bid_accepts \<lparr>bid_req_auction_id = 2, bid_req_amount = rs 400\<rparr> ann sample_world
     (sample_auction 2 AUCTION_OPEN 0 300 3 70)"
  by (simp add: bid_accepts_def sample_avail)

theorem place_bid_functional_witness:
  "\<exists>b. bids (handle_place_bid 8 \<lparr>bid_req_auction_id = 2, bid_req_amount = rs 400\<rparr> ann sample_world) = [b]
     \<and> bid_amount b = rs 400"
  using place_bid_functional [OF sample_numbered(2) sample_files(7,7),
      where req = "\<lparr>bid_req_auction_id = 2, bid_req_amount = rs 400\<rparr>" and u = ann and fd = 8]
    sample_bid_accepts
  by fastforce

text \<open>C5: The hold follows the leader. On positive whole amounts, when the current leader, if
  there is one, has the current bid on hold, an accepted bid is covered by what the bidder has
  beyond the present hold (also when the bidder already leads), takes the current bid off the hold
  of the leader it displaces and adds the new amount to the bidder's hold: a first bid only adds, a
  leader who raises the own bid has the old amount replaced. No balance and no other wallet changes,
  so the total is the same. The hold of the new leader cannot fail, although the code drops its
  result.\<close>

theorem hold_follows_leader:
  assumes "ledger_rel w L" and "numbered user_id (users w)" and "writable w FILE_USERS"
    and "bid_accepts req u w a" and "bid_req_amount req = rs m" and "current_bid a = rs c" and "0 < c"
    and "highest_bidder_id a \<noteq> 0 \<Longrightarrow> L (highest_bidder_id a) = Some (bp, hp) \<and> c \<le> hp"
    and "L (user_id u) = Some (b, h)"
    and "L' = (if highest_bidder_id a = 0 then L(user_id u \<mapsto> (b, h + m))
      else if highest_bidder_id a = user_id u then L(user_id u \<mapsto> (b, h - c + m))
      else L(highest_bidder_id a \<mapsto> (bp, hp - c), user_id u \<mapsto> (b, h + m)))"
  shows "m \<le> b - h \<and> ledger_rel (handle_place_bid fd req u w) L' \<and> ledger_total L' = ledger_total L"
proof -
  have led: "\<exists>b h. L (highest_bidder_id a) = Some (b, h) \<and> c \<le> h" if "highest_bidder_id a \<noteq> 0"
    using assms(8) [OF that] by blast
  have "ledger_rel (handle_place_bid fd req u w) L'"
    using bid_ledger [OF assms(1-7) led, of fd] assms(8-10)
    by (cases "highest_bidder_id a = 0"; cases "highest_bidder_id a = user_id u"; cases "L 0") auto
  moreover have "ledger_total L' = ledger_total L"
    using assms(8,9) by (auto simp: assms(10) ledger_total_update)
  ultimately show ?thesis using bid_covered [OF assms(1,4,5,9)] by simp
qed

theorem hold_follows_leader_witness:
  "ledger_rel (handle_place_bid 8 \<lparr>bid_req_auction_id = 2, bid_req_amount = rs 400\<rparr> ann sample_world)
     (sample_ledger(3 \<mapsto> (1000, 0), 4 \<mapsto> (800, 600)))"
  using hold_follows_leader [OF sample_ledger_rel sample_numbered(1) sample_files(7) sample_bid_accepts, of 400 300 1000 300 800 200
      "sample_ledger(3 \<mapsto> (1000, 0), 4 \<mapsto> (800, 600))" 8]
  by (simp add: sample_ledger_def)

text \<open>A NaN bid breaks an auction: a bid of NaN on an open auction passes the comparison with the
  available funds and with the current bid, is accepted, and from then on no bid on the auction is
  ever too low: a bid of any amount, negative ones included, is accepted from every user whose
  available funds are not below it.\<close>

lemma nan_bid_accepted:
  assumes "numbered auction_id (auctions w)" and "writable w FILE_AUCTIONS"
    and "read_auction i w = Some a" and "auction_status a = AUCTION_OPEN" and "read_user (user_id u) w = Some r"
    and "req = \<lparr>bid_req_auction_id = i, bid_req_amount = NaN\<rparr>" and "w' = handle_place_bid fd req u w"
  shows "bid_accepts req u w a \<and>
    (\<exists>a'. read_auction i w' = Some a' \<and> highest_bidder_id a' = user_id u \<and> current_bid a' = NaN \<and>
      (\<forall>v s x. read_user (user_id v) w' = Some s \<longrightarrow> \<not> x > wallet_balance s - wallet_hold s \<longrightarrow>
         bid_accepts \<lparr>bid_req_auction_id = i, bid_req_amount = x\<rparr> v w' a'))"
proof -
  have acc: "bid_accepts req u w a" using assms(3-6) by (simp add: bid_accepts_def)
  have "auctions w' = (auctions w)[slot_of i := raised req u a]"
    using accepted_auctions [OF acc assms(1,2)] assms(6,7) by simp
  then have "read_auction i w' = Some (raised req u a)"
    using assms(3) by (simp add: at.rd_rows split: if_splits)
  with acc assms(4,6) show ?thesis by (auto simp: raised_def bid_accepts_def)
qed

text \<open>The flag \<^verbatim>\<open>is_winning\<close> carries no information: every bid is stored with the flag set, nothing
  clears it, and the loop that marks the winning bids of a closed auction therefore leaves the
  bid file as it is.\<close>

lemma winning_flag_constant:
  assumes "list_all is_winning (bids w)"
  shows "list_all is_winning (bids (handle_place_bid fd req u w)) \<and>
    bids (snd (close_auction_internal a w)) = bids w \<and> bids (timer_tick w) = bids w"
proof -
  have id: "map f (bids w) = bids w" if "flag_only f" for f
  proof (rule map_idI)
    fix b assume "b \<in> set (bids w)"
    then have "b\<lparr>is_winning := True\<rparr> = b" using assms by (cases b) (auto simp: list_all_iff)
    then show "f b = b" using that by (auto simp: flag_only_def dest: spec [of _ b])
  qed
  have "list_all is_winning (bids (handle_place_bid fd req u w))"
  proof (cases rule: place_bid_cases [where req = req and u = u and w = w and fd = fd])
    case (accepted x)
    with assms show ?thesis
      by (cases "writable w FILE_BIDS")
        (simp_all add: accepted_bids new_bid_def place_bid_accepted append_bid_def)
  qed (simp add: assms)
  then show ?thesis
    using bids_close [of a w] timer_bids [of _ w] id by (simp add: timer_tick_eq) metis
qed

text \<open>The views answer the client with the first 256 matching records of the file in file order:
  the open auctions that are not deleted, and the client's own bids; a missing file is an error.
  They change no file.\<close>

lemma views_functional:
  "handle_view_auctions fd w =
     (if auctions_file w = None then send_msg fd MSG_VIEW_AUCTIONS_RESP ERR_INTERNAL P_None w
      else send_msg fd MSG_VIEW_AUCTIONS_RESP ERR_OK (P_Auctions (take 256
        (filter (\<lambda>a. \<not> auction_deleted a \<and> auction_status a = AUCTION_OPEN) (auctions w)))) w) \<and>
   handle_view_my_bids fd u w =
     (if bids_file w = None then send_msg fd MSG_VIEW_MY_BIDS_RESP ERR_INTERNAL P_None w
      else send_msg fd MSG_VIEW_MY_BIDS_RESP ERR_OK (P_Bids (take 256
        (filter (\<lambda>b. bidder_id b = user_id u) (bids w)))) w)"
  by (auto simp: handle_view_auctions_def handle_view_my_bids_def collect_loop_take)

text \<open>Feedback is appended to the file with the author, the auction and at most 255 characters of
  the message, unreviewed, and confirmed; its number is its position in the file, except that the
  very first feedback is numbered 0.\<close>

lemma feedback_functional:
  assumes "writable w FILE_FEEDBACK"
  shows "\<exists>f. feedbacks (handle_submit_feedback fd req u w) = feedbacks w @ [f] \<and>
    from_user_id f = user_id u \<and> about_auction_id f = feedback_req_auction_id req \<and> \<not> reviewed f \<and>
    cstring (feedback_message f) = cstring (take 255 (feedback_req_message req)) \<and>
    feedback_id f = (if feedback_file w = None then 0 else word_of_nat (length (feedbacks w)) + 1) \<and>
    sent (handle_submit_feedback fd req u w) = sent w @
      [(fd, \<lparr>msg_type = MSG_SUBMIT_FEEDBACK_RESP, msg_status = ERR_OK, msg_payload = P_None\<rparr>)]"
  using assms
  by (auto simp: handle_submit_feedback_def append_feedback_def send_msg_def Let_def MAX_FEEDBACK_def
      cstring_strncpy_zero split: option.split)

end
