(* ===== verification/Dispute.thy ===== *)
theory Dispute
  imports Bid_Handler
begin

text \<open>
  \<^verbatim>\<open>server/dispute.c\<close>: filing, listing and resolving disputes, the moderator's view of feedback and
  the switch of an account's status. The result of \<^verbatim>\<open>write_dispute\<close> in a resolution, of
  \<^verbatim>\<open>write_auction\<close> and of the wallet operations is dropped where the code drops it.

  The theory shows that an auction has at most one open dispute, that a dispute is decided once
  and a refund is issued at most once, what a refund does to the ledger in every case (also where
  it creates or destroys money), and the guard of the account switch. With the disputes every operation
  on auctions is defined, so the agreement of bid file and auction records is stated here for all of them.
\<close>

section \<open>Disputes\<close>

record FileDisputePayload =
  file_auction_id :: u32
  file_reason :: "char list"

definition new_dispute :: "FileDisputePayload \<Rightarrow> User \<Rightarrow> world \<Rightarrow> Dispute" where
  "new_dispute req u w =
     zero_Dispute\<lparr>dispute_id := next_dispute_id w,
       dispute_auction_id := file_auction_id req,
       raised_by_user_id := user_id u,
       resolved_by_user_id := 0,
       dispute_status := DISPUTE_OPEN,
       raised_at := now w,
       resolved_at := 0,
       reason := strncpy (reason zero_Dispute) (file_reason req) (MAX_DESC - 1)\<rparr>"

definition handle_file_dispute :: "int \<Rightarrow> FileDisputePayload \<Rightarrow> User \<Rightarrow> world \<Rightarrow> world" where
  "handle_file_dispute client_fd req u w =
     (case read_auction (file_auction_id req) w of
        None \<Rightarrow> send_msg client_fd MSG_RESOLVE_DISPUTE_RESP ERR_NOT_FOUND P_None w
      | Some a \<Rightarrow>
          if auction_status a \<noteq> AUCTION_CLOSED
          then send_msg client_fd MSG_RESOLVE_DISPUTE_RESP ERR_AUCTION_CLOSED P_None w
          else
            let d = new_dispute req u w;
                (result, w) = write_dispute d w
            in if result < 0 then send_msg client_fd MSG_RESOLVE_DISPUTE_RESP ERR_INTERNAL P_None w
               else
                 let w = snd (write_auction (a\<lparr>auction_status := AUCTION_DISPUTED\<rparr>) w);
                     w = send_msg client_fd MSG_RESOLVE_DISPUTE_RESP ERR_OK (P_Dispute d) w
                 in log_txn (L_FILE_DISPUTE (dispute_id d) (dispute_auction_id d) (user_id u)) w)"

definition handle_view_disputes :: "int \<Rightarrow> world \<Rightarrow> world" where
  "handle_view_disputes client_fd w =
     (case disputes_file w of
        None \<Rightarrow> send_msg client_fd MSG_VIEW_DISPUTES_RESP ERR_OK P_None w
      | Some file \<Rightarrow>
          let list = collect_loop 128 (\<lambda>d. dispute_status d = DISPUTE_OPEN) [] file
          in send_msg client_fd MSG_VIEW_DISPUTES_RESP ERR_OK (P_Disputes list) w)"

record ResolveDisputePayload =
  resolve_dispute_id :: u32
  resolve_new_status :: DisputeStatus
  resolve_resolution :: "char list"

definition refund :: "Dispute \<Rightarrow> Auction \<Rightarrow> world \<Rightarrow> world" where
  \<comment> \<open>the refund flow, lines 167 to 203\<close>
  "refund d a w =
     (let w = log_txn (L_WAL_REFUND (dispute_id d) (auction_id a) (highest_bidder_id a) (seller_id a) (current_bid a)) w;
          w = snd (credit_wallet (highest_bidder_id a) (current_bid a) w)
      in case read_user (seller_id a) w of
           None \<Rightarrow> w
         | Some seller \<Rightarrow>
             if current_bid a \<le> wallet_balance seller
             then snd (credit_wallet (seller_id a) (- current_bid a) w)
             else log_txn L_REFUND_ANOMALY w)"

definition decided :: "ResolveDisputePayload \<Rightarrow> User \<Rightarrow> time_t \<Rightarrow> Dispute \<Rightarrow> Dispute" where
  "decided req moderator t d =
     d\<lparr>dispute_status := resolve_new_status req,
       resolved_by_user_id := user_id moderator,
       resolved_at := t,
       resolution := strncpy (resolution d) (resolve_resolution req) (MAX_DESC - 1)\<rparr>"

definition handle_resolve_dispute :: "int \<Rightarrow> ResolveDisputePayload \<Rightarrow> User \<Rightarrow> world \<Rightarrow> world" where
  "handle_resolve_dispute client_fd req moderator w =
     (if resolve_new_status req \<noteq> DISPUTE_RESOLVED \<and> resolve_new_status req \<noteq> DISPUTE_REJECTED
      then send_msg client_fd MSG_RESOLVE_DISPUTE_RESP ERR_INTERNAL P_None w
      else
        case read_dispute (resolve_dispute_id req) w of
          None \<Rightarrow> send_msg client_fd MSG_RESOLVE_DISPUTE_RESP ERR_NOT_FOUND P_None w
        | Some d \<Rightarrow>
            if dispute_status d \<noteq> DISPUTE_OPEN
            then send_msg client_fd MSG_RESOLVE_DISPUTE_RESP ERR_INTERNAL P_None w
            else
              let d = decided req moderator (now w) d;
                  w = snd (write_dispute d w)
              in case read_auction (dispute_auction_id d) w of
                   None \<Rightarrow> send_msg client_fd MSG_RESOLVE_DISPUTE_RESP ERR_INTERNAL P_None w
                 | Some a \<Rightarrow>
                     let w = (if resolve_new_status req = DISPUTE_RESOLVED then refund d a w
                              else snd (write_auction (a\<lparr>auction_status := AUCTION_CLOSED\<rparr>) w));
                         w = send_msg client_fd MSG_RESOLVE_DISPUTE_RESP ERR_OK (P_Dispute d) w
                     in log_txn (L_RESOLVE_DISPUTE (dispute_id d) (dispute_status d) (user_id moderator)) w)"

section \<open>Feedback review and accounts\<close>

function review_loop :: "nat \<Rightarrow> Feedback list \<Rightarrow> Feedback list" where
  \<comment> \<open>the in-place loop over feedback.dat, with \<open>offset\<close> as in \<^const>\<open>mark_loop\<close>\<close>
  "review_loop offset fs =
     (if offset < length fs
      then let tmp = fs ! offset
           in if \<not> reviewed tmp
              then review_loop (offset + 1) (fs[offset := tmp\<lparr>reviewed := True\<rparr>])
              else review_loop (offset + 1) fs
      else fs)"
  by pat_completeness auto
termination by (relation "measure (\<lambda>(offset, fs). length fs - offset)") auto

declare review_loop.simps [simp del]

definition handle_view_feedback :: "int \<Rightarrow> world \<Rightarrow> world" where
  "handle_view_feedback client_fd w =
     (case feedback_file w of
        None \<Rightarrow> send_msg client_fd MSG_VIEW_FEEDBACK_RESP ERR_OK P_None w
      | Some file \<Rightarrow>
          let list = collect_loop 256 (\<lambda>f. \<not> reviewed f) [] file;
              w = (if writable w FILE_FEEDBACK then w\<lparr>feedback_file := Some (review_loop 0 file)\<rparr> else w)
          in send_msg client_fd MSG_VIEW_FEEDBACK_RESP ERR_OK (P_Feedbacks list) w)"

record ToggleAccountPayload =
  toggle_user_id :: u32
  toggle_new_status :: AccountStatus

definition handle_toggle_account :: "int \<Rightarrow> ToggleAccountPayload \<Rightarrow> User \<Rightarrow> world \<Rightarrow> world" where
  "handle_toggle_account client_fd req moderator w =
     (case read_user (toggle_user_id req) w of
        None \<Rightarrow> send_msg client_fd MSG_TOGGLE_ACCOUNT_RESP ERR_NOT_FOUND P_None w
      | Some target \<Rightarrow>
          if role target \<ge> role moderator
          then send_msg client_fd MSG_TOGGLE_ACCOUNT_RESP ERR_PERMISSION P_None w
          else
            let target = target\<lparr>acct_status := toggle_new_status req\<rparr>;
                w = snd (write_user target w);
                w = send_msg client_fd MSG_TOGGLE_ACCOUNT_RESP ERR_OK (P_User target) w
            in log_txn (L_TOGGLE_ACCOUNT (user_id target) (acct_status target) (user_id moderator)) w)"

section \<open>Frames\<close>

lemma refund_frame [simp, frame_simps]:
  "auctions_file (refund d a w) = auctions_file w"
  "bids_file (refund d a w) = bids_file w"
  "sessions_file (refund d a w) = sessions_file w"
  "feedback_file (refund d a w) = feedback_file w"
  "disputes_file (refund d a w) = disputes_file w"
  "writable (refund d a w) = writable w"
  "registry (refund d a w) = registry w"
  "sent (refund d a w) = sent w"
  "now (refund d a w) = now w"
  by (simp_all add: refund_def Let_def split: option.split)

lemma file_dispute_frame [simp, frame_simps]:
  "users_file (handle_file_dispute fd req u w) = users_file w"
  "bids_file (handle_file_dispute fd req u w) = bids_file w"
  "sessions_file (handle_file_dispute fd req u w) = sessions_file w"
  "feedback_file (handle_file_dispute fd req u w) = feedback_file w"
  "writable (handle_file_dispute fd req u w) = writable w"
  "registry (handle_file_dispute fd req u w) = registry w"
  "now (handle_file_dispute fd req u w) = now w"
  by (simp_all add: handle_file_dispute_def Let_def case_prod_beta split: option.split)

lemma resolve_dispute_frame [simp, frame_simps]:
  "bids_file (handle_resolve_dispute fd rq u w) = bids_file w"
  "sessions_file (handle_resolve_dispute fd rq u w) = sessions_file w"
  "feedback_file (handle_resolve_dispute fd rq u w) = feedback_file w"
  "writable (handle_resolve_dispute fd rq u w) = writable w"
  "registry (handle_resolve_dispute fd rq u w) = registry w"
  "now (handle_resolve_dispute fd rq u w) = now w"
  by (simp_all add: handle_resolve_dispute_def Let_def split: option.split)

lemma view_disputes_frame [simp, frame_simps]:
  "users_file (handle_view_disputes fd w) = users_file w"
  "auctions_file (handle_view_disputes fd w) = auctions_file w"
  "bids_file (handle_view_disputes fd w) = bids_file w"
  "sessions_file (handle_view_disputes fd w) = sessions_file w"
  "feedback_file (handle_view_disputes fd w) = feedback_file w"
  "disputes_file (handle_view_disputes fd w) = disputes_file w"
  "writable (handle_view_disputes fd w) = writable w"
  "registry (handle_view_disputes fd w) = registry w"
  "now (handle_view_disputes fd w) = now w"
  by (simp_all add: handle_view_disputes_def split: option.split)

lemma view_feedback_frame [simp, frame_simps]:
  "users_file (handle_view_feedback fd w) = users_file w"
  "auctions_file (handle_view_feedback fd w) = auctions_file w"
  "bids_file (handle_view_feedback fd w) = bids_file w"
  "sessions_file (handle_view_feedback fd w) = sessions_file w"
  "disputes_file (handle_view_feedback fd w) = disputes_file w"
  "writable (handle_view_feedback fd w) = writable w"
  "registry (handle_view_feedback fd w) = registry w"
  "now (handle_view_feedback fd w) = now w"
  by (simp_all add: handle_view_feedback_def Let_def split: option.split)

lemma toggle_frame [simp, frame_simps]:
  "auctions_file (handle_toggle_account fd tq u w) = auctions_file w"
  "bids_file (handle_toggle_account fd tq u w) = bids_file w"
  "sessions_file (handle_toggle_account fd tq u w) = sessions_file w"
  "feedback_file (handle_toggle_account fd tq u w) = feedback_file w"
  "disputes_file (handle_toggle_account fd tq u w) = disputes_file w"
  "writable (handle_toggle_account fd tq u w) = writable w"
  "registry (handle_toggle_account fd tq u w) = registry w"
  "now (handle_toggle_account fd tq u w) = now w"
  by (simp_all add: handle_toggle_account_def Let_def split: option.split)

section \<open>One standing dispute per auction\<close>

definition standing :: "Dispute \<Rightarrow> bool" where
  \<comment> \<open>open, or resolved with a refund\<close>
  "standing d \<longleftrightarrow> dispute_status d \<noteq> DISPUTE_REJECTED"

definition disputes_inv :: "world \<Rightarrow> bool" where
  "disputes_inv w \<longleftrightarrow>
     numbered dispute_id (disputes w) \<and>
     distinct (map dispute_auction_id (filter standing (disputes w))) \<and>
     (\<forall>d \<in> set (disputes w). standing d \<longrightarrow>
        (\<exists>a. read_auction (dispute_auction_id d) w = Some a \<and> auction_status a = AUCTION_DISPUTED))"

lemma disputes_inv_frame [simp]:
  "disputes_inv (log_txn m w) = disputes_inv w" "disputes_inv (send_msg fd t e p w) = disputes_inv w"
  by (simp_all add: disputes_inv_def)

lemma disputes_inv_auctions:
  assumes "disputes_inv w" and "disputes w' = disputes w"
    and "\<And>i a. read_auction i w = Some a \<Longrightarrow> auction_status a = AUCTION_DISPUTED \<Longrightarrow>
           \<exists>a'. read_auction i w' = Some a' \<and> auction_status a' = AUCTION_DISPUTED"
  shows "disputes_inv w'"
  using assms unfolding disputes_inv_def by (metis (no_types, lifting))

lemma filter_update_keep:
  assumes "k < length xs" and "P (xs ! k)" and "P y" and "g y = g (xs ! k)"
  shows "map g (filter P (xs[k := y])) = map g (filter P xs)"
proof -
  have "map g (filter P (take k xs @ y # drop (Suc k) xs))
      = map g (filter P (take k xs @ xs ! k # drop (Suc k) xs))"
    using assms by simp
  then show ?thesis using assms(1) by (simp add: upd_conv_take_nth_drop flip: id_take_nth_drop)
qed

lemma filter_update_drop:
  assumes "k < length xs" and "P (xs ! k)" and "\<not> P y" and "distinct (map g (filter P xs))"
  shows "distinct (map g (filter P (xs[k := y])))
    \<and> (\<forall>x \<in> set (xs[k := y]). P x \<longrightarrow> x \<in> set xs \<and> g (xs ! k) \<noteq> g x)"
proof -
  have xs: "xs = take k xs @ xs ! k # drop (Suc k) xs" using assms(1) by (rule id_take_nth_drop)
  have up: "xs[k := y] = take k xs @ y # drop (Suc k) xs" using assms(1) by (rule upd_conv_take_nth_drop)
  have "distinct (map g (filter P (take k xs @ xs ! k # drop (Suc k) xs)))"
    using assms(4) xs by metis
  then show ?thesis
    unfolding up using assms(2,3) by (auto simp: image_iff dest: in_set_takeD in_set_dropD)
qed

lemma disputes_file_dispute:
  assumes inv: "disputes_inv w" and num: "numbered auction_id (auctions w)"
    and wr: "writable w FILE_AUCTIONS" and len: "length (disputes w) + 1 < 2 ^ 32"
  shows "disputes_inv (handle_file_dispute fd req u w)"
proof (cases "\<exists>a. read_auction (file_auction_id req) w = Some a \<and> auction_status a = AUCTION_CLOSED \<and>
    writable w FILE_DISPUTES")
  case False
  then show ?thesis
    using inv dt.wr_status [of _ w] dt.wr_fail [of w]
    by (auto simp: handle_file_dispute_def Let_def case_prod_beta split: option.split)
next
  case True
  let ?i = "file_auction_id req" and ?d = "new_dispute req u w" and ?w = "handle_file_dispute fd req u w"
  from True obtain a where a: "read_auction ?i w = Some a" "auction_status a = AUCTION_CLOSED" by blast
  have wd: "writable w FILE_DISPUTES" using True by blast
  let ?a = "a\<lparr>auction_status := AUCTION_DISPUTED\<rparr>"
  have id: "auction_id ?a = i \<longleftrightarrow> i = ?i" for i using at.rd_ident [OF num a(1)] by auto
  have did: "dispute_id ?d = next_dispute_id w" by (simp add: new_dispute_def)
  have w: "?w = log_txn (L_FILE_DISPUTE (dispute_id ?d) (dispute_auction_id ?d) (user_id u))
      (send_msg fd MSG_RESOLVE_DISPUTE_RESP ERR_OK (P_Dispute ?d)
        (snd (write_auction ?a (snd (write_dispute ?d w)))))"
    using a wd dt.wr_status [of ?d w] by (simp add: handle_file_dispute_def Let_def case_prod_beta)
  have D: "disputes ?w = disputes w @ [?d]" using dt.rows_create [OF did] len wd by (simp add: w)
  have A: "read_auction j ?w = (if j = ?i then Some ?a else read_auction j w)" for j
    using at.rd_update [of ?i "snd (write_dispute ?d w)" a ?a j] a(1) id wr by (simp add: w)
  have fresh: "dispute_auction_id d \<noteq> ?i" if "d \<in> set (disputes w)" "standing d" for d
    using that inv a unfolding disputes_inv_def by fastforce
  have nd: "standing ?d" "dispute_auction_id ?d = ?i" by (simp_all add: new_dispute_def standing_def)
  have "numbered dispute_id (disputes ?w)"
    using dt.numbered_create [of w ?d] inv did len by (simp add: w disputes_inv_def)
  moreover have "distinct (map dispute_auction_id (filter standing (disputes ?w)))"
  proof -
    have "?i \<notin> dispute_auction_id ` set (filter standing (disputes w))"
    proof
      assume "?i \<in> dispute_auction_id ` set (filter standing (disputes w))"
      then obtain d where "d \<in> set (disputes w)" "standing d" "dispute_auction_id d = ?i" by auto
      then show False using fresh by blast
    qed
    with inv nd show ?thesis unfolding D disputes_inv_def by simp
  qed
  moreover have "\<exists>b. read_auction (dispute_auction_id x) ?w = Some b \<and> auction_status b = AUCTION_DISPUTED"
    if "x \<in> set (disputes ?w)" "standing x" for x
  proof (cases "x \<in> set (disputes w)")
    case True
    have "\<exists>b. read_auction (dispute_auction_id x) w = Some b \<and> auction_status b = AUCTION_DISPUTED"
      using inv True that(2) unfolding disputes_inv_def by blast
    with fresh [OF True that(2)] show ?thesis unfolding A by simp
  next
    case False
    with that(1) nd show ?thesis unfolding A by (simp add: D)
  qed
  ultimately show ?thesis unfolding disputes_inv_def by blast
qed

lemma disputes_resolve:
  assumes inv: "disputes_inv w" and num: "numbered auction_id (auctions w)"
    and wr: "writable w FILE_AUCTIONS" "writable w FILE_DISPUTES"
  shows "disputes_inv (handle_resolve_dispute fd req u w)"
proof (cases "resolve_new_status req \<in> {DISPUTE_RESOLVED, DISPUTE_REJECTED} \<and>
    (\<exists>d. read_dispute (resolve_dispute_id req) w = Some d \<and> dispute_status d = DISPUTE_OPEN)")
  case False
  with inv show ?thesis by (auto simp: handle_resolve_dispute_def split: option.split)
next
  case True
  let ?k = "resolve_dispute_id req" and ?w = "handle_resolve_dispute fd req u w"
  from True obtain d where d: "read_dispute ?k w = Some d" "dispute_status d = DISPUTE_OPEN" by blast
  let ?d = "decided req u (now w) d" and ?w1 = "snd (write_dispute (decided req u (now w) d) w)"
  let ?xs = "disputes w" and ?s = "slot_of ?k"
  have slot: "?s < length ?xs" "?xs ! ?s = d" using d(1) by (simp_all add: dt.rd_Some)
  have "standing d" using d(2) by (simp add: standing_def)
  then obtain a where a: "read_auction (dispute_auction_id d) w = Some a" "auction_status a = AUCTION_DISPUTED"
    using inv dt.rd_mem [OF d(1)] by (auto simp: disputes_inv_def)
  have num': "numbered dispute_id ?xs" using inv by (simp add: disputes_inv_def)
  have id: "dispute_id ?d = ?k" using dt.rd_ident [OF num' d(1)] by (simp add: decided_def)
  have aid: "dispute_auction_id ?d = dispute_auction_id d" by (simp add: decided_def)
  have D1: "disputes ?w1 = ?xs[?s := ?d]" using dt.rows_update [OF d(1) id] wr by simp
  have N1: "numbered dispute_id (disputes ?w1)" using dt.numbered_update [OF num' d(1) id] .
  let ?w2 = "if resolve_new_status req = DISPUTE_RESOLVED then refund ?d a ?w1
    else snd (write_auction (a\<lparr>auction_status := AUCTION_CLOSED\<rparr>) ?w1)"
  have w: "?w = log_txn (L_RESOLVE_DISPUTE (dispute_id ?d) (dispute_status ?d) (user_id u))
      (send_msg fd MSG_RESOLVE_DISPUTE_RESP ERR_OK (P_Dispute ?d) ?w2)"
    using True d a aid by (auto simp: handle_resolve_dispute_def Let_def)
  have dist: "distinct (map dispute_auction_id (filter standing ?xs))" using inv by (simp add: disputes_inv_def)
  have "disputes_inv ?w2"
  proof (cases "resolve_new_status req = DISPUTE_RESOLVED")
    case res: True
    then have "standing ?d" by (simp add: standing_def decided_def)
    then have "map dispute_auction_id (filter standing (?xs[?s := ?d])) = map dispute_auction_id (filter standing ?xs)"
      using slot \<open>standing d\<close> aid by (intro filter_update_keep) simp_all
    then have "disputes_inv ?w1"
      using inv N1 a aid D1 dist by (auto simp: disputes_inv_def dest!: set_update_subset_insert [THEN subsetD])
    then show ?thesis using res by (auto intro: disputes_inv_auctions simp: read_auction_def)
  next
    case rej: False
    then have "\<not> standing ?d" using True by (simp add: standing_def decided_def)
    from filter_update_drop [OF slot(1) _ this dist] \<open>standing d\<close> slot(2)
    have f: "distinct (map dispute_auction_id (filter standing (disputes ?w1)))"
      "\<forall>x \<in> set (disputes ?w1). standing x \<longrightarrow> x \<in> set ?xs \<and> dispute_auction_id d \<noteq> dispute_auction_id x"
      by (simp_all add: D1)
    have "read_auction j (snd (write_auction (a\<lparr>auction_status := AUCTION_CLOSED\<rparr>) ?w1)) = read_auction j w"
      if "j \<noteq> dispute_auction_id d" for j
      using at.rd_update [of "dispute_auction_id d" ?w1 a "a\<lparr>auction_status := AUCTION_CLOSED\<rparr>" j] that a(1)
        at.rd_ident [OF num a(1)] by simp
    then show ?thesis using rej f inv N1 by (auto simp: disputes_inv_def)
  qed
  then show ?thesis by (simp add: w)
qed

lemma disputes_place_bid:
  assumes inv: "disputes_inv w" and num: "numbered auction_id (auctions w)" and wr: "writable w FILE_AUCTIONS"
  shows "disputes_inv (handle_place_bid fd req u w)"
proof (cases rule: place_bid_cases [where req = req and u = u and w = w and fd = fd])
  case (accepted a)
  have A: "auctions (handle_place_bid fd req u w) = (auctions w)[slot_of (bid_req_auction_id req) := raised req u a]"
    using accepted_auctions [OF accepted num wr] .
  show ?thesis
  proof (rule disputes_inv_auctions [OF inv])
    fix i x
    assume "read_auction i w = Some x" "auction_status x = AUCTION_DISPUTED"
    with accepted show "\<exists>y. read_auction i (handle_place_bid fd req u w) = Some y \<and> auction_status y = AUCTION_DISPUTED"
      by (auto simp: bid_accepts_def at.rd_rows A nth_list_update split: if_splits)
  qed simp
qed (simp add: inv)

lemma create_frame [simp, frame_simps]:
  "users_file (handle_create_auction fd req u w) = users_file w"
  "bids_file (handle_create_auction fd req u w) = bids_file w"
  "sessions_file (handle_create_auction fd req u w) = sessions_file w"
  "feedback_file (handle_create_auction fd req u w) = feedback_file w"
  "disputes_file (handle_create_auction fd req u w) = disputes_file w"
  "writable (handle_create_auction fd req u w) = writable w"
  "registry (handle_create_auction fd req u w) = registry w"
  "now (handle_create_auction fd req u w) = now w"
  by (simp_all add: handle_create_auction_def Let_def case_prod_beta)

lemma disputes_create:
  assumes inv: "disputes_inv w" and len: "length (auctions w) + 1 < 2 ^ 32"
  shows "disputes_inv (handle_create_auction fd req u w)"
proof (rule disputes_inv_auctions [OF inv])
  fix i x
  assume x: "read_auction i w = Some x" "auction_status x = AUCTION_DISPUTED"
  have "auction_id (new_auction req u w) = next_auction_id w" by (simp add: new_auction_def)
  with x len show "\<exists>y. read_auction i (handle_create_auction fd req u w) = Some y \<and> auction_status y = AUCTION_DISPUTED"
    using at.rd_create_other [of "new_auction req u w" w i x]
    by (simp add: handle_create_auction_def Let_def case_prod_beta)
qed simp

lemma read_close_in:
  assumes "auctions w' = map (close_in S) (auctions w)" and "read_auction i w = Some x"
  shows "read_auction i w' = Some (close_in S x)"
  using assms by (auto simp: at.rd_rows split: if_splits)

lemma disputes_close_in:
  assumes "disputes_inv w" and "auctions w' = map (close_in S) (auctions w)" and "disputes w' = disputes w"
  shows "disputes_inv w'"
  using assms(1,3) by (rule disputes_inv_auctions) (simp add: read_close_in [OF assms(2)] close_in_def)

lemma handle_close_frame [simp, frame_simps]:
  "sessions_file (handle_close_auction fd req u w) = sessions_file w"
  "feedback_file (handle_close_auction fd req u w) = feedback_file w"
  "disputes_file (handle_close_auction fd req u w) = disputes_file w"
  "writable (handle_close_auction fd req u w) = writable w"
  "registry (handle_close_auction fd req u w) = registry w"
  "now (handle_close_auction fd req u w) = now w"
  by (simp_all add: handle_close_auction_def Let_def case_prod_beta split: option.split)

lemma handle_close_auctions:
  assumes "numbered auction_id (auctions w)" and "writable w FILE_AUCTIONS"
  shows "\<exists>S. auctions (handle_close_auction fd req u w) = map (close_in S) (auctions w)"
proof -
  have "auctions w = map (close_in {}) (auctions w)" by simp
  then show ?thesis
    using auctions_close [OF assms]
    by (auto simp: handle_close_auction_def Let_def case_prod_beta simp del: close_in_empty split: option.split)
qed

lemma disputes_settle:
  assumes "disputes_inv w" and "numbered auction_id (auctions w)" and "writable w FILE_AUCTIONS"
  shows "disputes_inv (handle_close_auction fd req u w)" and "disputes_inv (timer_tick w)"
proof -
  obtain S where "auctions (handle_close_auction fd req u w) = map (close_in S) (auctions w)"
    using handle_close_auctions [OF assms(2,3)] by blast
  with assms(1) show "disputes_inv (handle_close_auction fd req u w)" by (rule disputes_close_in) simp
  from assms(1) timer_tick_auctions [OF assms(2,3)] show "disputes_inv (timer_tick w)"
    by (rule disputes_close_in) simp
qed

section \<open>The ledger of a refund\<close>

definition ledger_refund :: "ledger \<Rightarrow> Auction \<Rightarrow> int \<Rightarrow> ledger" where
  "ledger_refund L a c =
     (let L1 = (case ledger_credit L (highest_bidder_id a) c of None \<Rightarrow> L | Some L1 \<Rightarrow> L1)
      in case L1 (seller_id a) of
           None \<Rightarrow> L1
         | Some (b, h) \<Rightarrow>
             if c \<le> b then case ledger_credit L1 (seller_id a) (- c) of None \<Rightarrow> L1 | Some L2 \<Rightarrow> L2
             else L1)"

lemma ledger_rel_frame [simp]:
  "ledger_rel (log_txn m w) L = ledger_rel w L" "ledger_rel (send_msg fd t e p w) L = ledger_rel w L"
  "ledger_rel (snd (write_dispute d w)) L = ledger_rel w L"
  "ledger_rel (snd (write_auction x w)) L = ledger_rel w L"
  by (rule ledger_rel_cong; simp)+

lemma credit_or_same:
  assumes "ledger_rel w L" and "numbered user_id (users w)" and "writable w FILE_USERS" and "\<bar>c\<bar> \<le> exact_limit"
    and "\<And>L'. ledger_credit L i c = Some L' \<Longrightarrow> ledger_bounded L'"
  shows "ledger_rel (snd (credit_wallet i (rs c) w)) (case ledger_credit L i c of None \<Rightarrow> L | Some L' \<Rightarrow> L')"
  using cl.refines_None [OF assms(1-4)] cl.refines_Some [OF assms(1-4)] assms(5) by (auto split: option.split)

lemma refund_refines:
  assumes rel: "ledger_rel w L" and num: "numbered user_id (users w)" and wr: "writable w FILE_USERS"
    and c: "current_bid a = rs c" "0 \<le> c" "c \<le> exact_limit"
    and bd: "\<And>b h. L (highest_bidder_id a) = Some (b, h) \<Longrightarrow> b + c < exact_limit"
  shows "ledger_rel (refund d a w) (ledger_refund L a c)"
proof -
  let ?w0 = "log_txn (L_WAL_REFUND (dispute_id d) (auction_id a) (highest_bidder_id a) (seller_id a) (rs c)) w"
  let ?w1 = "snd (credit_wallet (highest_bidder_id a) (rs c) ?w0)"
  let ?L1 = "case ledger_credit L (highest_bidder_id a) c of None \<Rightarrow> L | Some L1 \<Rightarrow> L1"
  have rel0: "ledger_rel ?w0 L" using rel by (simp cong: ledger_rel_cong)
  have rel1: "ledger_rel ?w1 ?L1"
  proof (rule credit_or_same [OF rel0])
    show "ledger_bounded L'" if "ledger_credit L (highest_bidder_id a) c = Some L'" for L'
      using that bd ledger_rel_bounded [OF rel]
      by (auto simp: ledger_credit_def ledger_delta_Some intro: ledger_bounded_upd)
  qed (use num wr c in simp_all)
  have num1: "numbered user_id (users ?w1)" using cl.numbered_after [of ?w0] num by simp
  show ?thesis
  proof (cases "?L1 (seller_id a)")
    case None
    then have "read_user (seller_id a) ?w1 = None" using rel1 by (simp add: ledger_rel_None)
    with None rel1 c show ?thesis by (simp add: refund_def Let_def ledger_refund_def)
  next
    case (Some bh)
    then obtain b h where L: "?L1 (seller_id a) = Some (b, h)" by (cases bh) simp
    with rel1 obtain u where u: "read_user (seller_id a) ?w1 = Some u" "exact_wallet u b h"
      by (blast dest: ledger_rel_Some)
    show ?thesis
    proof (cases "c \<le> b")
      case True
      have "ledger_rel (snd (credit_wallet (seller_id a) (rs (- c)) ?w1))
          (case ledger_credit ?L1 (seller_id a) (- c) of None \<Rightarrow> ?L1 | Some L2 \<Rightarrow> L2)"
      proof (rule credit_or_same [OF rel1 num1])
        show "ledger_bounded L'" if "ledger_credit ?L1 (seller_id a) (- c) = Some L'" for L'
          using that L c ledger_rel_bounded [OF rel1] ledger_rel_Some [OF rel1 L]
          by (auto simp: ledger_credit_def ledger_delta_Some exact_wallet_def intro!: ledger_bounded_upd)
      qed (use wr c in simp_all)
      then show ?thesis using True L u c by (simp add: refund_def Let_def ledger_refund_def exact_wallet_def)
    next
      case False
      with L u c rel1 show ?thesis
        by (simp add: refund_def Let_def ledger_refund_def exact_wallet_def)
    qed
  qed
qed

lemma ledger_refund_cases:
  assumes "0 \<le> c" and "highest_bidder_id a \<noteq> seller_id a"
    and "\<And>i b h. L i = Some (b, h) \<Longrightarrow> 0 \<le> h \<and> h \<le> b"
  shows "ledger_refund L a c =
    (let L1 = (case L (highest_bidder_id a) of
                 None \<Rightarrow> L | Some (b, h) \<Rightarrow> L(highest_bidder_id a \<mapsto> (b + c, h)))
     in case L (seller_id a) of
          None \<Rightarrow> L1
        | Some (b, h) \<Rightarrow> if c + h \<le> b then L1(seller_id a \<mapsto> (b - c, h)) else L1)"
proof -
  have "ledger_credit L (highest_bidder_id a) c = (case L (highest_bidder_id a) of
      None \<Rightarrow> None | Some (b, h) \<Rightarrow> Some (L(highest_bidder_id a \<mapsto> (b + c, h))))"
    using assms(1,3) by (fastforce simp: ledger_credit_def ledger_delta_def split: option.split)
  then show ?thesis
    using assms(1,2) assms(3) [of "seller_id a"]
    by (auto simp: ledger_refund_def Let_def ledger_credit_def ledger_delta_def max_def split: option.split)
qed

lemma refund_ledger:
  assumes "ledger_rel w L" and "numbered user_id (users w)" and "writable w FILE_USERS"
    and "read_dispute (resolve_dispute_id rq) w = Some d" and "dispute_status d = DISPUTE_OPEN"
    and "resolve_new_status rq = DISPUTE_RESOLVED"
    and "read_auction (dispute_auction_id d) w = Some a" and "highest_bidder_id a \<noteq> seller_id a"
    and "current_bid a = rs c" and "0 \<le> c" and "c \<le> exact_limit"
    and "\<forall>b h. L (highest_bidder_id a) = Some (b, h) \<longrightarrow> b + c < exact_limit"
  shows "\<exists>L1 L2. L1 = (case L (highest_bidder_id a) of
        None \<Rightarrow> L | Some (b, h) \<Rightarrow> L(highest_bidder_id a \<mapsto> (b + c, h))) \<and>
    L2 = (case L (seller_id a) of
        None \<Rightarrow> L1 | Some (b, h) \<Rightarrow> if c + h \<le> b then L1(seller_id a \<mapsto> (b - c, h)) else L1) \<and>
    ledger_rel (handle_resolve_dispute fd rq m w) L2 \<and>
    ledger_total L2 = ledger_total L + (if L (highest_bidder_id a) = None then 0 else c)
      - (if \<exists>b h. L (seller_id a) = Some (b, h) \<and> c + h \<le> b then c else 0)"
proof -
  let ?L1 = "case L (highest_bidder_id a) of None \<Rightarrow> L | Some (b, h) \<Rightarrow> L(highest_bidder_id a \<mapsto> (b + c, h))"
  let ?L2 = "case L (seller_id a) of
      None \<Rightarrow> ?L1 | Some (b, h) \<Rightarrow> if c + h \<le> b then ?L1(seller_id a \<mapsto> (b - c, h)) else ?L1"
  let ?d = "decided rq m (now w) d"
  have "ledger_refund L a c = ?L2"
    using ledger_refund_cases [OF assms(10,8)] ledger_rel_sane [OF assms(1)] by (simp add: Let_def)
  moreover have "ledger_rel (snd (write_dispute ?d w)) L" using assms(1) by simp
  ultimately have "ledger_rel (refund ?d a (snd (write_dispute ?d w))) ?L2"
    using refund_refines [of "snd (write_dispute ?d w)" L a c ?d] assms(2,3,9-12) by fastforce
  moreover have "dispute_auction_id ?d = dispute_auction_id d" by (simp add: decided_def)
  ultimately have "ledger_rel (handle_resolve_dispute fd rq m w) ?L2"
    using assms(4-7) by (simp add: handle_resolve_dispute_def Let_def)
  moreover have "ledger_total ?L1 = ledger_total L + (if L (highest_bidder_id a) = None then 0 else c)"
    by (auto simp: ledger_total_update split: option.split)
  moreover have "?L1 (seller_id a) = L (seller_id a)" using assms(8) by (auto split: option.split)
  ultimately show ?thesis
    by (cases "L (seller_id a)") (auto simp: ledger_total_update)
qed

section \<open>What a dispute changes in an auction\<close>

definition status_set :: "AuctionStatus \<Rightarrow> world \<Rightarrow> world \<Rightarrow> bool" where
  \<comment> \<open>at most the status of one auction has been changed, to \<open>st\<close>\<close>
  "status_set st w w' \<longleftrightarrow>
     auctions w' = auctions w \<or>
     (\<exists>i a. read_auction i w = Some a \<and>
        auctions w' = (auctions w)[slot_of i := a\<lparr>auction_status := st\<rparr>])"

lemma file_dispute_status:
  assumes "numbered auction_id (auctions w)"
  shows "status_set AUCTION_DISPUTED w (handle_file_dispute fd q u w)"
proof (cases "\<exists>a. read_auction (file_auction_id q) w = Some a \<and> auction_status a = AUCTION_CLOSED")
  case True
  let ?d = "new_dispute q u w"
  from True obtain a where a: "read_auction (file_auction_id q) w = Some a" "auction_status a = AUCTION_CLOSED" by blast
  let ?a = "a\<lparr>auction_status := AUCTION_DISPUTED\<rparr>"
  have "auction_id ?a = file_auction_id q" using at.rd_ident [OF assms a(1)] by simp
  from at.rows_update [of "file_auction_id q" "snd (write_dispute ?d w)" a ?a] a(1) this
  have "auctions (snd (write_auction ?a (snd (write_dispute ?d w)))) \<in>
      {auctions w, (auctions w)[slot_of (file_auction_id q) := ?a]}" by simp
  then show ?thesis using a by (auto simp: status_set_def handle_file_dispute_def Let_def case_prod_beta)
next
  case False
  then have "auctions (handle_file_dispute fd q u w) = auctions w"
    by (auto simp: handle_file_dispute_def split: option.split)
  then show ?thesis by (simp add: status_set_def)
qed

lemma resolve_status:
  assumes "numbered auction_id (auctions w)"
  shows "status_set AUCTION_CLOSED w (handle_resolve_dispute fd q m w)"
proof (cases "\<exists>d a. read_dispute (resolve_dispute_id q) w = Some d \<and> read_auction (dispute_auction_id d) w = Some a")
  case True
  then obtain d a where a: "read_dispute (resolve_dispute_id q) w = Some d" "read_auction (dispute_auction_id d) w = Some a"
    by blast
  let ?a = "a\<lparr>auction_status := AUCTION_CLOSED\<rparr>" and ?w1 = "snd (write_dispute (decided q m (now w) d) w)"
  have aid: "dispute_auction_id (decided q m (now w) d) = dispute_auction_id d" by (simp add: decided_def)
  have "auction_id ?a = dispute_auction_id d" using at.rd_ident [OF assms a(2)] by simp
  from at.rows_update [of "dispute_auction_id d" ?w1 a ?a] a(2) this
  have "auctions (snd (write_auction ?a ?w1)) \<in> {auctions w, (auctions w)[slot_of (dispute_auction_id d) := ?a]}" by simp
  then show ?thesis using a by (auto simp: status_set_def handle_resolve_dispute_def Let_def aid)
next
  case False
  then have "auctions (handle_resolve_dispute fd q m w) = auctions w"
    by (auto simp: handle_resolve_dispute_def decided_def Let_def split: option.split)
  then show ?thesis by (simp add: status_set_def)
qed

lemma status_set_book:
  assumes "status_set st w w'" and "bids w' = bids w" and "bid_book w"
  shows "bid_book w'"
proof (cases "auctions w' = auctions w")
  case True
  with assms show ?thesis using bid_book_cong [of w' w] by simp
next
  case False
  with assms(1) obtain i a where "read_auction i w = Some a"
    "auctions w' = (auctions w)[slot_of i := a\<lparr>auction_status := st\<rparr>]" by (auto simp: status_set_def)
  with bid_book_status [of w' w "slot_of i" st a] assms show ?thesis by (simp add: at.rd_Some)
qed

section \<open>Feedback review\<close>

lemma review_loop_prefix:
  "offset \<le> length fs \<Longrightarrow>
   review_loop offset fs = take offset fs @ map (\<lambda>f. f\<lparr>reviewed := True\<rparr>) (drop offset fs)"
proof (induction offset fs rule: review_loop.induct)
  case (1 offset fs)
  show ?case
  proof (cases "offset < length fs")
    case True
    let ?f = "fs ! offset"
    have drop: "drop offset fs = ?f # drop (Suc offset) fs" using True by (simp add: Cons_nth_drop_Suc)
    have take: "take (Suc offset) xs = take offset xs @ [xs ! offset]" if "length xs = length fs"
      for xs :: "Feedback list" using True that by (simp add: take_Suc_conv_app_nth)
    show ?thesis
    proof (cases "reviewed ?f")
      case r: True
      then have "?f\<lparr>reviewed := True\<rparr> = ?f" by (cases ?f) simp
      with 1(2) [OF True refl] r True show ?thesis
        by (subst review_loop.simps) (simp add: Let_def drop take)
    next
      case r: False
      with 1(1) [OF True refl] True show ?thesis
        by (subst review_loop.simps) (simp add: Let_def drop take)
    qed
  next
    case False
    with 1(3) show ?thesis by (subst review_loop.simps) simp
  qed
qed

section \<open>Properties\<close>

text \<open>C10: An auction has at most one standing dispute (open, or resolved with a refund), and as long as it
  stands the auction is marked disputed. Filing, deciding, bidding, creating, closing and the
  timer all keep this, so no auction is refunded twice.\<close>

theorem one_standing_dispute:
  assumes "disputes_inv w" and "numbered auction_id (auctions w)"
    and "writable w FILE_AUCTIONS" and "writable w FILE_DISPUTES"
    and "length (disputes w) + 1 < 2 ^ 32" and "length (auctions w) + 1 < 2 ^ 32"
  shows "disputes_inv (handle_file_dispute fd req u w) \<and> disputes_inv (handle_resolve_dispute fd rq u w) \<and>
    disputes_inv (handle_place_bid fd pb u w) \<and> disputes_inv (handle_create_auction fd cr u w) \<and>
    disputes_inv (handle_close_auction fd cl u w) \<and> disputes_inv (timer_tick w)"
  by (intro conjI disputes_file_dispute disputes_resolve disputes_place_bid disputes_create
      disputes_settle assms)

lemma sample_disputes_inv: "disputes_inv sample_world"
  using sample_numbered(3) by (simp add: disputes_inv_def)

abbreviation complaint :: FileDisputePayload where
  "complaint \<equiv> \<lparr>file_auction_id = 4, file_reason = ''broken''\<rparr>"

theorem one_standing_dispute_witness:
  "disputes_inv (handle_file_dispute 8 complaint ann sample_world)"
proof -
  have "length (disputes sample_world) + 1 < 2 ^ 32" "length (auctions sample_world) + 1 < 2 ^ 32" by simp_all
  from one_standing_dispute [OF sample_disputes_inv sample_numbered(2) sample_files(7,7) this]
  show ?thesis by blast
qed

text \<open>C11: The bid file and the auction records tell the same story: for every auction, the
  bids on file are strictly increasing, the last one gives the leader and the current bid, and the
  bid count is their number. Bidding, creating, closing, the timer, and filing and deciding
  disputes, that is every operation that writes either file, keep this, as long as neither the
  amount of the bid nor an amount on file is NaN (a NaN bid is accepted and breaks it,
  \<open>nan_bid_accepted\<close>). The count is an integer without a bound; the C field holds it
  below \<open>2 ^ 31\<close> bids.\<close>

theorem bid_book_invariant:
  assumes "bid_book w" and "numbered auction_id (auctions w)" and "length (auctions w) + 1 < 2 ^ 32"
    and "writable w FILE_AUCTIONS" and "writable w FILE_BIDS"
    and "bid_req_amount req \<noteq> NaN" and "\<forall>b \<in> set (bids w). bid_amount b \<noteq> NaN"
  shows "bid_book (handle_place_bid fd req u w) \<and> bid_book (handle_create_auction fd cr u w) \<and>
    bid_book (handle_close_auction fd cl u w) \<and> bid_book (timer_tick w) \<and>
    bid_book (handle_file_dispute fd fl u w) \<and> bid_book (handle_resolve_dispute fd rq u w)"
  using assms status_set_book [OF file_dispute_status [OF assms(2)]] status_set_book [OF resolve_status [OF assms(2)]]
  by (simp add: bid_book_place bid_book_create bid_book_close bid_book_timer)

lemma sample_book: "bid_book (sample_world\<lparr>auctions_file := Some [sample_auction 1 AUCTION_OPEN 0 100 0 60]\<rparr>)"
  by (simp add: bid_book_def in_step_def book_def sample_auction_def zero_Auction_def)

theorem bid_book_invariant_witness:
  "bid_book (handle_place_bid 8 \<lparr>bid_req_auction_id = 1, bid_req_amount = rs 150\<rparr> ann
     (sample_world\<lparr>auctions_file := Some [sample_auction 1 AUCTION_OPEN 0 100 0 60]\<rparr>))"
proof -
  let ?w = "sample_world\<lparr>auctions_file := Some [sample_auction 1 AUCTION_OPEN 0 100 0 60]\<rparr>"
  have "numbered auction_id (auctions ?w)" by (simp add: numbered_eval)
  moreover have "length (auctions ?w) + 1 < 2 ^ 32" by simp
  ultimately show ?thesis
    using bid_book_invariant [OF sample_book, of "\<lparr>bid_req_auction_id = 1, bid_req_amount = rs 150\<rparr>"] by simp
qed

text \<open>A refund is final: once a dispute has been resolved with a refund, the dispute cannot be
  decided again and no new dispute can be filed on its auction; either request is refused and
  changes nothing.\<close>

lemma refund_final:
  assumes "disputes_inv w" and "read_dispute k w = Some d" and "dispute_status d = DISPUTE_RESOLVED"
    and "resolve_dispute_id rq = k" and "file_auction_id req = dispute_auction_id d"
  shows "handle_resolve_dispute fd rq m w = send_msg fd MSG_RESOLVE_DISPUTE_RESP ERR_INTERNAL P_None w \<and>
    handle_file_dispute fd req u w = send_msg fd MSG_RESOLVE_DISPUTE_RESP ERR_AUCTION_CLOSED P_None w"
proof -
  have "standing d" using assms(3) by (simp add: standing_def)
  then obtain a where "read_auction (dispute_auction_id d) w = Some a" "auction_status a = AUCTION_DISPUTED"
    using assms(1) dt.rd_mem [OF assms(2)] by (auto simp: disputes_inv_def)
  with assms show ?thesis by (simp add: handle_resolve_dispute_def handle_file_dispute_def)
qed

text \<open>C26: What a refund does to the money, in whole rupees below \<open>2 ^ 52\<close>, when the leader of the auction
  is not its seller: the leader, if on file, is credited the current bid; the seller, if on file, is
  debited it when the balance beyond the hold covers it and otherwise keeps everything. So the total
  grows by the bid when only the leader's part happens, shrinks by it when only the seller's does, and
  is the same when both or neither happen.\<close>

theorem refund_moves_money:
  assumes "ledger_rel w L" and "numbered user_id (users w)" and "writable w FILE_USERS"
    and "read_dispute (resolve_dispute_id rq) w = Some d" and "dispute_status d = DISPUTE_OPEN"
    and "resolve_new_status rq = DISPUTE_RESOLVED"
    and "read_auction (dispute_auction_id d) w = Some a" and "highest_bidder_id a \<noteq> seller_id a"
    and "current_bid a = rs c" and "0 \<le> c" and "c \<le> exact_limit"
    and "\<forall>b h. L (highest_bidder_id a) = Some (b, h) \<longrightarrow> b + c < exact_limit"
  shows "\<exists>L1 L2. L1 = (case L (highest_bidder_id a) of
        None \<Rightarrow> L | Some (b, h) \<Rightarrow> L(highest_bidder_id a \<mapsto> (b + c, h))) \<and>
    L2 = (case L (seller_id a) of
        None \<Rightarrow> L1 | Some (b, h) \<Rightarrow> if c + h \<le> b then L1(seller_id a \<mapsto> (b - c, h)) else L1) \<and>
    ledger_rel (handle_resolve_dispute fd rq m w) L2 \<and>
    ledger_total L2 = ledger_total L + (if L (highest_bidder_id a) = None then 0 else c)
      - (if \<exists>b h. L (seller_id a) = Some (b, h) \<and> c + h \<le> b then c else 0)"
  using refund_ledger [OF assms] by blast

definition disputed_world :: world where
  \<comment> \<open>the sample state where auction 4 was won by user 3 at 100 and is disputed\<close>
  "disputed_world =
     sample_world\<lparr>auctions_file := Some [sample_auction 1 AUCTION_OPEN 0 100 0 60,
         sample_auction 2 AUCTION_OPEN 0 300 3 70, sample_auction 3 AUCTION_OPEN 500 200 4 80,
         sample_auction 4 AUCTION_DISPUTED 0 100 3 40],
       disputes_file := Some [zero_Dispute\<lparr>dispute_id := 1, dispute_auction_id := 4,
         dispute_status := DISPUTE_OPEN\<rparr>]\<rparr>"

theorem refund_moves_money_witness:
  "ledger_rel (handle_resolve_dispute 9 \<lparr>resolve_dispute_id = 1, resolve_new_status = DISPUTE_RESOLVED,
       resolve_resolution = []\<rparr> (sample_user 5 ''mod'' ROLE_MODERATOR 0 0) disputed_world)
     (sample_ledger(3 \<mapsto> (1100, 300), 2 \<mapsto> (50, 0)))"
proof -
  let ?d = "zero_Dispute\<lparr>dispute_id := 1, dispute_auction_id := 4, dispute_status := DISPUTE_OPEN\<rparr>"
  let ?rq = "\<lparr>resolve_dispute_id = 1, resolve_new_status = DISPUTE_RESOLVED, resolve_resolution = []\<rparr>"
  let ?a = "sample_auction 4 AUCTION_DISPUTED 0 100 3 40"
  have rel: "ledger_rel disputed_world sample_ledger"
    using sample_ledger_rel ledger_rel_cong [of disputed_world sample_world]
    by (simp add: disputed_world_def)
  have num: "numbered user_id (users disputed_world)"
    using sample_numbered(1) by (simp add: disputed_world_def)
  have wr: "writable disputed_world FILE_USERS" by (simp add: disputed_world_def)
  have d: "read_dispute (resolve_dispute_id ?rq) disputed_world = Some ?d"
    by (simp add: disputed_world_def dt.rd_rows slot_of_def)
  have a: "read_auction (dispute_auction_id ?d) disputed_world = Some ?a"
    by (simp add: disputed_world_def at.rd_rows slot_of_def)
  have l: "sample_ledger 3 = Some (1000, 300)" "sample_ledger 2 = Some (150, 0)"
    by (simp_all add: sample_ledger_def)
  from refund_moves_money [OF rel num wr d _ _ a, of 100 9 "sample_user 5 ''mod'' ROLE_MODERATOR 0 0"]
  show ?thesis by (simp add: l exact_limit_def)
qed

text \<open>A refund can take money that was never paid: for an auction that closed without a bidder, any
  user may file a dispute, and the moderator's refund takes the start price from the seller and
  gives it to nobody.\<close>

lemma refund_without_payment:
  assumes "ledger_rel w L" and "numbered user_id (users w)" and "numbered auction_id (auctions w)"
    and "writable w FILE_USERS" and "writable w FILE_AUCTIONS" and "writable w FILE_DISPUTES"
    and "length (disputes w) < 2 ^ 32"
    and "read_auction (file_auction_id req) w = Some a" and "auction_status a = AUCTION_CLOSED"
    and "highest_bidder_id a = 0" and "current_bid a = rs c" and "0 \<le> c"
    and "L (seller_id a) = Some (b, h)" and "c + h \<le> b"
    and "rq = \<lparr>resolve_dispute_id = next_dispute_id w, resolve_new_status = DISPUTE_RESOLVED, resolve_resolution = txt\<rparr>"
  shows "ledger_rel (handle_resolve_dispute fd' rq m (handle_file_dispute fd req u w)) (L(seller_id a \<mapsto> (b - c, h))) \<and>
    ledger_total (L(seller_id a \<mapsto> (b - c, h))) = ledger_total L - c"
proof -
  let ?d = "new_dispute req u w" and ?w = "handle_file_dispute fd req u w"
  let ?a = "a\<lparr>auction_status := AUCTION_DISPUTED\<rparr>" and ?i = "file_auction_id req"
  have did: "dispute_id ?d = next_dispute_id w" by (simp add: new_dispute_def)
  have w: "?w = log_txn (L_FILE_DISPUTE (dispute_id ?d) (dispute_auction_id ?d) (user_id u))
      (send_msg fd MSG_RESOLVE_DISPUTE_RESP ERR_OK (P_Dispute ?d)
        (snd (write_auction ?a (snd (write_dispute ?d w)))))"
    using assms(6,8,9) dt.wr_status [of ?d w] by (simp add: handle_file_dispute_def Let_def case_prod_beta)
  have rel: "ledger_rel ?w L" using assms(1) by (simp add: w)
  have r: "read_dispute (resolve_dispute_id rq) ?w = Some ?d"
    using dt.rd_create_same [OF assms(6) did] assms(15) by (simp add: w)
  have i: "dispute_auction_id ?d = ?i" "dispute_status ?d = DISPUTE_OPEN" by (simp_all add: new_dispute_def)
  have id: "auction_id ?a = ?i" using at.rd_ident [OF assms(3,8)] by simp
  have ra: "read_auction (dispute_auction_id ?d) ?w = Some ?a"
    using at.rd_update [of ?i "snd (write_dispute ?d w)" a ?a ?i] assms(5,8) id by (simp add: w i)
  have "read_user 0 w = None" using assms(2) by (simp add: ut.rd_rows slot_of_0 numbered_def)
  then have z: "L 0 = None" using ledger_rel_Some [OF assms(1)] by (cases "L 0") force+
  then have s: "seller_id a \<noteq> 0" using assms(13) by auto
  have "c \<le> exact_limit"
    using ledger_rel_Some [OF assms(1,13)] assms(14) ledger_rel_sane [OF assms(1,13)] by (auto simp: exact_wallet_def)
  then show ?thesis
    using refund_ledger [OF rel _ _ r i(2) _ ra, of c fd' m] assms(2,4,10-15) z s by simp
qed

text \<open>The moderator is sent the first 256 unreviewed feedback records, but every record of the file
  is marked reviewed: when more are waiting, the others are never shown, for the next view sends
  none.\<close>

lemma view_feedback_loses_rest:
  assumes "feedback_file w = Some fs" and "writable w FILE_FEEDBACK"
  shows "\<exists>w'. handle_view_feedback fd w = w' \<and>
    sent w' = sent w @ [(fd, \<lparr>msg_type = MSG_VIEW_FEEDBACK_RESP, msg_status = ERR_OK,
      msg_payload = P_Feedbacks (take 256 (filter (\<lambda>f. \<not> reviewed f) fs))\<rparr>)] \<and>
    feedbacks w' = map (\<lambda>f. f\<lparr>reviewed := True\<rparr>) fs \<and>
    handle_view_feedback fd' w' = send_msg fd' MSG_VIEW_FEEDBACK_RESP ERR_OK (P_Feedbacks []) w'"
proof -
  let ?w = "send_msg fd MSG_VIEW_FEEDBACK_RESP ERR_OK (P_Feedbacks (take 256 (filter (\<lambda>f. \<not> reviewed f) fs)))
    (w\<lparr>feedback_file := Some (map (\<lambda>f. f\<lparr>reviewed := True\<rparr>) fs)\<rparr>)"
  have rl: "review_loop 0 gs = map (\<lambda>f. f\<lparr>reviewed := True\<rparr>) gs" for gs
    using review_loop_prefix [of 0 gs] by simp
  have w: "handle_view_feedback fd w = ?w"
    using assms by (simp add: handle_view_feedback_def collect_loop_take rl Let_def)
  have "map (\<lambda>f. f\<lparr>reviewed := True\<rparr>) (map (\<lambda>f. f\<lparr>reviewed := True\<rparr>) fs) = map (\<lambda>f. f\<lparr>reviewed := True\<rparr>) fs"
    by (simp add: o_def)
  moreover have "filter (\<lambda>f. \<not> reviewed f) (map (\<lambda>f. f\<lparr>reviewed := True\<rparr>) fs) = []" by simp
  moreover have "?w\<lparr>feedback_file := feedback_file ?w\<rparr> = ?w" by simp
  ultimately have "handle_view_feedback fd' ?w = send_msg fd' MSG_VIEW_FEEDBACK_RESP ERR_OK (P_Feedbacks []) ?w"
    using assms(2) by (simp add: handle_view_feedback_def collect_loop_take rl send_msg_def)
  then show ?thesis by (simp add: w) (simp add: send_msg_def)
qed

text \<open>The account switch respects the hierarchy: a moderator changes nothing of an account whose role
  is at least the moderator's own, and of any other account only the status; no other user's
  record changes.\<close>

lemma toggle_guard:
  assumes "numbered user_id (users w)" and "writable w FILE_USERS"
    and "read_user (toggle_user_id req) w = Some target"
  shows "read_user j (handle_toggle_account fd req m w) =
    (if j = toggle_user_id req \<and> role target < role m
     then Some (target\<lparr>acct_status := toggle_new_status req\<rparr>) else read_user j w)"
proof -
  have "user_id (target\<lparr>acct_status := toggle_new_status req\<rparr>) = toggle_user_id req"
    using ut.rd_ident [OF assms(1,3)] by simp
  from ut.rd_update [OF assms(3) this, of j] assms(2,3) show ?thesis
    by (cases "j = toggle_user_id req") (auto simp: handle_toggle_account_def Let_def)
qed

end
