(* ===== verification/Admin.thy ===== *)
theory Admin
  imports Dispute
begin

text \<open>
  \<^verbatim>\<open>server/admin.c\<close> and \<^verbatim>\<open>seed_admin.c\<close>: creation of accounts, the list of users, the change of a
  role, and the two handlers no message reaches (soft deletion and the change of a name). The
  digest of a new password is written into the record in place, over the memory of the fields
  \<open>password\<close> and \<open>full_name\<close>, which are adjacent.

  The theory shows when an account is created and that its name stays unique up to the 31
  characters that are stored, what the in-place digest does to the full name, and that the last
  administrator cannot be demoted.
\<close>

section \<open>Accounts\<close>

record AddUserPayload =
  add_username :: "char list"
  add_password :: "char list"
  add_full_name :: "char list"
  add_role :: Role

definition hash_into :: "shell \<Rightarrow> char list \<Rightarrow> User \<Rightarrow> User" where
  \<comment> \<open>\<^verbatim>\<open>sha256_hex(text, u.password)\<close>: up to 65 bytes from the start of the field\<close>
  "hash_into popen txt u =
     (let mem = sha256_hex popen txt (password u @ full_name u)
      in u\<lparr>password := take MAX_PASSWORD mem, full_name := take MAX_NAME (drop MAX_PASSWORD mem)\<rparr>)"

fun name_taken_loop :: "char list \<Rightarrow> User list \<Rightarrow> bool" where
  "name_taken_loop name [] = False"
| "name_taken_loop name (tmp # rest) =
     (if \<not> user_deleted tmp \<and> strncmp_eq (username tmp) name MAX_USERNAME then True
      else name_taken_loop name rest)"

definition new_user :: "shell \<Rightarrow> AddUserPayload \<Rightarrow> world \<Rightarrow> User" where
  "new_user popen req w =
     (let u = zero_User\<lparr>user_id := next_user_id w,
                role := add_role req,
                acct_status := ACCOUNT_ACTIVE,
                wallet_balance := 0,
                wallet_hold := 0,
                created_at := now w,
                last_login := 0,
                user_deleted := False,
                username := strncpy (username zero_User) (add_username req) (MAX_USERNAME - 1),
                full_name := strncpy (full_name zero_User) (add_full_name req) (MAX_NAME - 1)\<rparr>
      in hash_into popen (add_password req) u)"

definition hide_password :: "User \<Rightarrow> User" where
  \<comment> \<open>\<^verbatim>\<open>memset(u.password, 0, sizeof(u.password))\<close>\<close>
  "hide_password u = u\<lparr>password := replicate MAX_PASSWORD NUL\<rparr>"

definition handle_add_user :: "shell \<Rightarrow> int \<Rightarrow> AddUserPayload \<Rightarrow> world \<Rightarrow> world" where
  "handle_add_user popen client_fd req w =
     (if name_taken_loop (add_username req) (records (users_file w))
      then send_msg client_fd MSG_ADD_USER_RESP ERR_INTERNAL P_None w
      else
        let u = new_user popen req w;
            (result, w) = write_user u w
        in if result < 0 then send_msg client_fd MSG_ADD_USER_RESP ERR_INTERNAL P_None w
           else
             let u = hide_password u;
                 w = send_msg client_fd MSG_ADD_USER_RESP ERR_OK (P_User u) w
             in log_txn (L_ADD_USER (user_id u) (username u) (role u)) w)"

fun list_users_loop :: "User list \<Rightarrow> User list \<Rightarrow> User list" where
  "list_users_loop found [] = found"
| "list_users_loop found (u # rest) =
     (if length found < 512
      then if \<not> user_deleted u then list_users_loop (found @ [hide_password u]) rest
           else list_users_loop found rest
      else found)"

definition handle_list_users :: "int \<Rightarrow> world \<Rightarrow> world" where
  "handle_list_users client_fd w =
     (case users_file w of
        None \<Rightarrow> send_msg client_fd MSG_LIST_USERS_RESP ERR_OK P_None w
      | Some file \<Rightarrow>
          send_msg client_fd MSG_LIST_USERS_RESP ERR_OK (P_Users (list_users_loop [] file)) w)"

record ChangeRolePayload =
  change_role_user_id :: u32
  new_role :: Role

fun admin_count_loop :: "nat \<Rightarrow> User list \<Rightarrow> nat" where
  "admin_count_loop admin_count [] = admin_count"
| "admin_count_loop admin_count (tmp # rest) =
     (if \<not> user_deleted tmp \<and> acct_status tmp = ACCOUNT_ACTIVE \<and> role tmp = ROLE_ADMIN
      then admin_count_loop (admin_count + 1) rest else admin_count_loop admin_count rest)"

definition handle_change_role :: "int \<Rightarrow> ChangeRolePayload \<Rightarrow> world \<Rightarrow> world" where
  "handle_change_role client_fd req w =
     (case read_user (change_role_user_id req) w of
        None \<Rightarrow> send_msg client_fd MSG_CHANGE_ROLE_RESP ERR_NOT_FOUND P_None w
      | Some u \<Rightarrow>
          if role u = ROLE_ADMIN \<and> new_role req \<noteq> ROLE_ADMIN \<and>
             admin_count_loop 0 (records (users_file w)) \<le> 1
          then send_msg client_fd MSG_CHANGE_ROLE_RESP ERR_PERMISSION P_None w
          else
            let old_role = role u;
                u = u\<lparr>role := new_role req\<rparr>;
                w = snd (write_user u w);
                u = hide_password u;
                w = send_msg client_fd MSG_CHANGE_ROLE_RESP ERR_OK (P_User u) w
            in log_txn (L_CHANGE_ROLE (user_id u) old_role (role u)) w)"

record DeleteUserPayload =
  delete_user_id :: u32

definition handle_delete_user :: "int \<Rightarrow> DeleteUserPayload \<Rightarrow> world \<Rightarrow> world" where
  "handle_delete_user client_fd req w =
     (case read_user (delete_user_id req) w of
        None \<Rightarrow> send_msg client_fd MSG_ADD_USER_RESP ERR_NOT_FOUND P_None w
      | Some u \<Rightarrow>
          if role u = ROLE_ADMIN
          then send_msg client_fd MSG_ADD_USER_RESP ERR_PERMISSION P_None w
          else
            let u = u\<lparr>user_deleted := True, acct_status := ACCOUNT_INACTIVE\<rparr>;
                w = snd (write_user u w);
                w = send_msg client_fd MSG_ADD_USER_RESP ERR_OK P_None w
            in log_txn (L_SOFT_DELETE (user_id u)) w)"

record ModifyUserPayload =
  modify_user_id :: u32
  new_full_name :: "char list"

definition handle_modify_user :: "int \<Rightarrow> ModifyUserPayload \<Rightarrow> world \<Rightarrow> world" where
  "handle_modify_user client_fd req w =
     (case read_user (modify_user_id req) w of
        None \<Rightarrow> send_msg client_fd MSG_ADD_USER_RESP ERR_NOT_FOUND P_None w
      | Some u \<Rightarrow>
          let u = u\<lparr>full_name := strncpy (full_name u) (new_full_name req) (MAX_NAME - 1)\<rparr>;
              w = snd (write_user u w);
              u = hide_password u;
              w = send_msg client_fd MSG_ADD_USER_RESP ERR_OK (P_User u) w
          in log_txn (L_MODIFY_USER (user_id u)) w)"

section \<open>The first administrator\<close>

definition seed_sha256_hex :: "shell \<Rightarrow> char list \<Rightarrow> char list \<Rightarrow> char list" where
  \<comment> \<open>the copy in \<^verbatim>\<open>seed_admin.c\<close> leaves the buffer alone when \<^verbatim>\<open>popen\<close> fails\<close>
  "seed_sha256_hex popen input out =
     (case popen (sha256_cmd input) of
        None \<Rightarrow> out
      | Some txt \<Rightarrow> let out = fgets out 65 txt in out[strcspn_nl out := NUL])"

definition seed_admin :: "shell \<Rightarrow> time_t \<Rightarrow> User" where
  "seed_admin popen t =
     (let admin = zero_User\<lparr>user_id := 1, role := ROLE_ADMIN, acct_status := ACCOUNT_ACTIVE,
                    wallet_balance := 0, wallet_hold := 0, created_at := t, user_deleted := False,
                    username := strncpy (username zero_User) ''admin'' (MAX_USERNAME - 1),
                    full_name := strncpy (full_name zero_User) ''System Admin'' (MAX_NAME - 1)\<rparr>;
          mem = seed_sha256_hex popen ''admin123'' (password admin @ full_name admin)
      in admin\<lparr>password := take MAX_PASSWORD mem, full_name := take MAX_NAME (drop MAX_PASSWORD mem)\<rparr>)"

definition seed_main :: "shell \<Rightarrow> world \<Rightarrow> int \<times> world" where
  \<comment> \<open>\<^verbatim>\<open>O_TRUNC\<close>: whatever users.dat held is gone\<close>
  "seed_main popen w =
     (if \<not> writable w FILE_USERS then (1, w)
      else (0, w\<lparr>users_file := Some [seed_admin popen (now w)]\<rparr>))"

section \<open>Frames and shapes\<close>

lemma admin_frame [simp, frame_simps]:
  "auctions_file (handle_add_user popen fd ad w) = auctions_file w"
  "bids_file (handle_add_user popen fd ad w) = bids_file w"
  "sessions_file (handle_add_user popen fd ad w) = sessions_file w"
  "feedback_file (handle_add_user popen fd ad w) = feedback_file w"
  "disputes_file (handle_add_user popen fd ad w) = disputes_file w"
  "writable (handle_add_user popen fd ad w) = writable w"
  "registry (handle_add_user popen fd ad w) = registry w"
  "now (handle_add_user popen fd ad w) = now w"
  "auctions_file (handle_change_role fd cr w) = auctions_file w"
  "bids_file (handle_change_role fd cr w) = bids_file w"
  "sessions_file (handle_change_role fd cr w) = sessions_file w"
  "feedback_file (handle_change_role fd cr w) = feedback_file w"
  "disputes_file (handle_change_role fd cr w) = disputes_file w"
  "writable (handle_change_role fd cr w) = writable w"
  "registry (handle_change_role fd cr w) = registry w"
  "now (handle_change_role fd cr w) = now w"
  by (simp_all add: handle_add_user_def handle_change_role_def Let_def case_prod_beta split: option.split)

lemma list_users_frame [simp, frame_simps]:
  "users_file (handle_list_users fd w) = users_file w"
  "auctions_file (handle_list_users fd w) = auctions_file w"
  "bids_file (handle_list_users fd w) = bids_file w"
  "sessions_file (handle_list_users fd w) = sessions_file w"
  "feedback_file (handle_list_users fd w) = feedback_file w"
  "disputes_file (handle_list_users fd w) = disputes_file w"
  "writable (handle_list_users fd w) = writable w"
  "registry (handle_list_users fd w) = registry w"
  "now (handle_list_users fd w) = now w"
  by (simp_all add: handle_list_users_def split: option.split)

lemma list_users_loop_take:
  "length found \<le> 512 \<Longrightarrow>
   list_users_loop found us = take 512 (found @ map hide_password (filter (\<lambda>u. \<not> user_deleted u) us))"
  by (induction found us rule: list_users_loop.induct) auto

definition stored_name :: "User \<Rightarrow> char list" where
  "stored_name u = cstring (take MAX_USERNAME (username u))"

lemma name_taken_iff:
  "name_taken_loop name us \<longleftrightarrow>
     (\<exists>u \<in> set us. \<not> user_deleted u \<and> stored_name u = cstring (take MAX_USERNAME name))"
  by (induction name us rule: name_taken_loop.induct) (auto simp: strncmp_eq_def stored_name_def)

lemma cstring_take: "cstring (take n s) = take n (cstring s)"
proof (induction s arbitrary: n)
  case (Cons c s)
  then show ?case by (cases n) auto
qed simp

lemma hash_into_fields [simp]:
  "user_id (hash_into popen t u) = user_id u" "username (hash_into popen t u) = username u"
  "role (hash_into popen t u) = role u" "acct_status (hash_into popen t u) = acct_status u"
  "wallet_balance (hash_into popen t u) = wallet_balance u" "wallet_hold (hash_into popen t u) = wallet_hold u"
  "user_deleted (hash_into popen t u) = user_deleted u" "created_at (hash_into popen t u) = created_at u"
  "last_login (hash_into popen t u) = last_login u"
  by (simp_all add: hash_into_def Let_def)

lemma new_user_fields [simp]:
  "user_id (new_user popen req w) = next_user_id w" "role (new_user popen req w) = add_role req"
  "acct_status (new_user popen req w) = ACCOUNT_ACTIVE" "wallet_balance (new_user popen req w) = 0"
  "wallet_hold (new_user popen req w) = 0" "\<not> user_deleted (new_user popen req w)"
  by (simp_all add: new_user_def Let_def)

lemma new_user_name: "stored_name (new_user popen req w) = take 31 (cstring (add_username req))"
proof -
  have "username (new_user popen req w) = strncpy (replicate 32 NUL) (add_username req) 31"
    by (simp add: new_user_def Let_def zero_User_def MAX_USERNAME_def)
  then show ?thesis by (simp add: stored_name_def MAX_USERNAME_def cstring_strncpy_zero cstring_take)
qed

lemma new_user_digest:
  assumes "digest h" and "popen (sha256_cmd (add_password req)) = Some (h @ newline # rest)"
  shows "password (new_user popen req w) = h" and "cstring (full_name (new_user popen req w)) = []"
proof -
  let ?z = "replicate 64 NUL @ strncpy (replicate 64 NUL) (add_full_name req) 63"
  have mem: "sha256_hex popen (add_password req) ?z = h @ [NUL] @ drop 65 ?z"
    using sha256_hex_digest [OF assms(1), of popen "add_password req" rest ?z] assms(2) by blast
  have u: "password (new_user popen req w) = take 64 (sha256_hex popen (add_password req) ?z)"
    "full_name (new_user popen req w) = take 64 (drop 64 (sha256_hex popen (add_password req) ?z))"
    by (simp_all add: new_user_def hash_into_def Let_def zero_User_def MAX_PASSWORD_def MAX_NAME_def)
  have "length h = 64" using assms(1) by (simp add: digest_def)
  then show "password (new_user popen req w) = h" and "cstring (full_name (new_user popen req w)) = []"
    unfolding u mem by simp_all
qed

lemma add_user_world:
  "handle_add_user popen fd req w =
     (if (\<exists>u \<in> set (users w). \<not> user_deleted u \<and> stored_name u = cstring (take MAX_USERNAME (add_username req)))
         \<or> \<not> writable w FILE_USERS
      then send_msg fd MSG_ADD_USER_RESP ERR_INTERNAL P_None w
      else log_txn (L_ADD_USER (next_user_id w) (username (new_user popen req w)) (add_role req))
        (send_msg fd MSG_ADD_USER_RESP ERR_OK (P_User (hide_password (new_user popen req w)))
          (snd (write_user (new_user popen req w) w))))"
  using ut.wr_status [of "new_user popen req w" w] ut.wr_fail [of w "new_user popen req w"]
  by (auto simp: handle_add_user_def name_taken_iff Let_def case_prod_beta hide_password_def)

lemma add_user_users:
  assumes "length (users w) < 2 ^ 32"
  shows "users (handle_add_user popen fd req w) =
    (if (\<exists>u \<in> set (users w). \<not> user_deleted u \<and> stored_name u = cstring (take MAX_USERNAME (add_username req)))
        \<or> \<not> writable w FILE_USERS
     then users w else users w @ [new_user popen req w])"
  using ut.rows_create [of "new_user popen req w" w] assms by (simp add: add_user_world)

section \<open>The last administrator\<close>

definition active_admin :: "User \<Rightarrow> bool" where
  "active_admin u \<longleftrightarrow> \<not> user_deleted u \<and> acct_status u = ACCOUNT_ACTIVE \<and> role u = ROLE_ADMIN"

definition has_admin :: "world \<Rightarrow> bool" where
  "has_admin w \<longleftrightarrow> (\<exists>u \<in> set (users w). active_admin u)"

lemma admin_count_eq: "admin_count_loop n us = n + length (filter active_admin us)"
  by (induction n us rule: admin_count_loop.induct) (auto simp: active_admin_def)

lemma has_admin_frame [simp]:
  "has_admin (log_txn m w) = has_admin w" "has_admin (send_msg fd t e p w) = has_admin w"
  by (simp_all add: has_admin_def)

lemma has_admin_update:
  assumes "has_admin w" and "read_user i w = Some u" and "user_id v = i"
    and "active_admin u \<Longrightarrow> active_admin v \<or> 1 < length (filter active_admin (users w))"
  shows "has_admin (snd (write_user v w))"
proof (cases "writable w FILE_USERS")
  case False
  then show ?thesis using assms(1) by (simp add: ut.wr_fail)
next
  case True
  let ?k = "slot_of i"
  have k: "?k < length (users w)" "users w ! ?k = u" using assms(2) by (simp_all add: ut.rd_Some)
  have upd: "users (snd (write_user v w)) = (users w)[?k := v]"
    using ut.rows_update [OF assms(2,3)] True by simp
  have "\<exists>x \<in> set ((users w)[?k := v]). active_admin x"
  proof (cases "active_admin v")
    case True
    then show ?thesis using k(1) by (auto intro: set_update_memI)
  next
    case False
    have "\<exists>j < length (users w). j \<noteq> ?k \<and> active_admin (users w ! j)"
    proof (rule ccontr)
      assume "\<not> ?thesis"
      then have none: "\<not> active_admin (users w ! j)" if "j < length (users w)" "j \<noteq> ?k" for j
        using that by blast
      then have f: "filter active_admin (take ?k (users w)) = []" "filter active_admin (drop (Suc ?k) (users w)) = []"
        using k(1) by (auto simp: filter_empty_conv in_set_conv_nth)
      have "users w = take ?k (users w) @ u # drop (Suc ?k) (users w)" using k id_take_nth_drop by metis
      then have "filter active_admin (users w) = filter active_admin (take ?k (users w) @ u # drop (Suc ?k) (users w))"
        by metis
      then have "filter active_admin (users w) = (if active_admin u then [u] else [])" by (simp add: f)
      moreover have "\<exists>x \<in> set (users w). active_admin x" using assms(1) by (simp add: has_admin_def)
      then have "filter active_admin (users w) \<noteq> []" by (simp add: filter_empty_conv)
      ultimately show False using assms(4) False by (simp split: if_splits)
    qed
    then obtain j where "j < length (users w)" "j \<noteq> ?k" "active_admin (users w ! j)" by blast
    then show ?thesis by (intro bexI [of _ "users w ! j"]) (auto simp: in_set_conv_nth intro!: exI [of _ j])
  qed
  then show ?thesis by (simp add: has_admin_def upd)
qed

lemma has_admin_change_role:
  assumes "numbered user_id (users w)" and "has_admin w"
  shows "has_admin (handle_change_role fd req w)"
proof (cases "read_user (change_role_user_id req) w")
  case (Some u)
  have id: "user_id (u\<lparr>role := new_role req\<rparr>) = change_role_user_id req" using ut.rd_ident [OF assms(1) Some] by simp
  show ?thesis
  proof (cases "role u = ROLE_ADMIN \<and> new_role req \<noteq> ROLE_ADMIN \<and> admin_count_loop 0 (users w) \<le> 1")
    case True
    with Some assms(2) show ?thesis by (simp add: handle_change_role_def)
  next
    case False
    then have "has_admin (snd (write_user (u\<lparr>role := new_role req\<rparr>) w))"
      using has_admin_update [OF assms(2) Some id] by (auto simp: active_admin_def admin_count_eq)
    then show ?thesis using Some False by (auto simp: handle_change_role_def Let_def)
  qed
qed (simp add: handle_change_role_def assms)

lemma has_admin_other:
  assumes num: "numbered user_id (users w)" and ad: "has_admin w" and len: "length (users w) < 2 ^ 32"
  shows "has_admin (handle_delete_user fd dl w)" and "has_admin (handle_modify_user fd mo w)"
    and "role m \<le> ROLE_ADMIN \<Longrightarrow> has_admin (handle_toggle_account fd tg m w)"
    and "has_admin (handle_add_user popen fd au w)"
proof -
  have upd: "has_admin (snd (write_user v w))"
    if "read_user i w = Some u" "user_id v = user_id u" "active_admin u \<Longrightarrow> active_admin v" for i u v
    using has_admin_update [OF ad that(1)] ut.rd_ident [OF num that(1)] that(2,3) by blast
  show "has_admin (handle_delete_user fd dl w)"
    using ad by (auto simp: handle_delete_user_def Let_def active_admin_def intro: upd split: option.split)
  show "has_admin (handle_modify_user fd mo w)"
    using ad by (auto simp: handle_modify_user_def Let_def active_admin_def intro: upd split: option.split)
  show "has_admin (handle_toggle_account fd tg m w)" if "role m \<le> ROLE_ADMIN"
    using ad that by (auto simp: handle_toggle_account_def Let_def active_admin_def intro: upd split: option.split)
  show "has_admin (handle_add_user popen fd au w)"
    using ad add_user_users [OF len] by (auto simp: has_admin_def)
qed

section \<open>Unique names\<close>

definition unique_names :: "world \<Rightarrow> bool" where
  \<comment> \<open>no two accounts that are not deleted carry the same name\<close>
  "unique_names w \<longleftrightarrow> distinct (map stored_name (filter (\<lambda>u. \<not> user_deleted u) (users w)))"

lemma unique_names_frame [simp]:
  "unique_names (log_txn m w) = unique_names w" "unique_names (send_msg fd t e p w) = unique_names w"
  by (simp_all add: unique_names_def)

lemma filter_update_out:
  assumes "k < length xs" and "\<not> P (xs ! k)" and "\<not> P y"
  shows "filter P (xs[k := y]) = filter P xs"
proof -
  have "filter P (take k xs @ y # drop (Suc k) xs) = filter P (take k xs @ xs ! k # drop (Suc k) xs)"
    using assms by simp
  then show ?thesis using assms(1) by (simp add: upd_conv_take_nth_drop flip: id_take_nth_drop)
qed

lemma unique_update:
  assumes "unique_names w" and "read_user i w = Some u" and "user_id v = i" and "username v = username u"
    and "user_deleted u \<Longrightarrow> user_deleted v"
  shows "unique_names (snd (write_user v w))"
proof (cases "writable w FILE_USERS")
  case False
  then show ?thesis using assms(1) by (simp add: ut.wr_fail)
next
  case True
  let ?k = "slot_of i" and ?P = "\<lambda>u. \<not> user_deleted u"
  have k: "?k < length (users w)" "users w ! ?k = u" using assms(2) by (simp_all add: ut.rd_Some)
  have nm: "stored_name v = stored_name u" using assms(4) by (simp add: stored_name_def)
  have d: "distinct (map stored_name (filter ?P (users w)))" using assms(1) by (simp add: unique_names_def)
  consider "?P u" "?P v" | "?P u" "\<not> ?P v" | "\<not> ?P u" "\<not> ?P v" using assms(5) by blast
  then have "distinct (map stored_name (filter ?P ((users w)[?k := v])))"
  proof cases
    case 1
    with d k nm show ?thesis using filter_update_keep [of ?k "users w" ?P v stored_name] by simp
  next
    case 2
    with k d show ?thesis using filter_update_drop [of ?k "users w" ?P v stored_name] by simp
  next
    case 3
    with k d show ?thesis using filter_update_out [of ?k "users w" ?P v] by simp
  qed
  then show ?thesis using ut.rows_update [OF assms(2,3)] True by (simp add: unique_names_def)
qed

section \<open>Properties\<close>

text \<open>An account is created unless an account that is not deleted has the requested name. The new
  record comes last, under the next identifier, with the role asked for, an empty wallet, status
  active and the digest of the password; no other record changes. Its full name is empty,
  whatever was asked for: the 65th byte of the digest text falls on its first character.\<close>

lemma add_user_functional:
  assumes "numbered user_id (users w)" and "writable w FILE_USERS" and "length (users w) + 1 < 2 ^ 32"
    and "digest h" and "popen (sha256_cmd (add_password req)) = Some (h @ newline # rest)"
  shows "if \<exists>u \<in> set (users w). \<not> user_deleted u \<and> stored_name u = cstring (take MAX_USERNAME (add_username req))
    then handle_add_user popen fd req w = send_msg fd MSG_ADD_USER_RESP ERR_INTERNAL P_None w
    else \<exists>u. users (handle_add_user popen fd req w) = users w @ [u] \<and>
      numbered user_id (users (handle_add_user popen fd req w)) \<and>
      role u = add_role req \<and> wallet_balance u = 0 \<and> wallet_hold u = 0 \<and> acct_status u = ACCOUNT_ACTIVE \<and>
      stored_name u = take 31 (cstring (add_username req)) \<and> password u = h \<and> cstring (full_name u) = [] \<and>
      sent (handle_add_user popen fd req w) = sent w @ [(fd, \<lparr>msg_type = MSG_ADD_USER_RESP,
        msg_status = ERR_OK, msg_payload = P_User (u\<lparr>password := replicate 64 NUL\<rparr>)\<rparr>)]"
proof (cases "\<exists>u \<in> set (users w). \<not> user_deleted u \<and> stored_name u = cstring (take MAX_USERNAME (add_username req))")
  case True
  then show ?thesis by (simp add: add_user_world)
next
  case False
  let ?u = "new_user popen req w" and ?w = "handle_add_user popen fd req w"
  have U: "users ?w = users w @ [?u]" using add_user_users [of w popen fd req] False assms(2,3) by simp
  have "numbered user_id (users ?w)"
    using ut.numbered_create [OF assms(1), of ?u] assms(1-3) False by (auto simp: add_user_world)
  moreover have "sent ?w = sent w @ [(fd, \<lparr>msg_type = MSG_ADD_USER_RESP, msg_status = ERR_OK,
      msg_payload = P_User (?u\<lparr>password := replicate 64 NUL\<rparr>)\<rparr>)]"
    using False assms(2) by (simp add: add_user_world hide_password_def MAX_PASSWORD_def) (simp add: send_msg_def)
  ultimately show ?thesis
    using False U new_user_digest [where popen = popen and req = req and h = h and rest = rest and w = w]
      assms(4,5) new_user_name [of popen req w]
    by (simp only: if_False) (intro exI [of _ ?u], simp)
qed

definition sample_account :: AddUserPayload where
  "sample_account =
     \<lparr>add_username = c_array 32 ''eve'', add_password = ''pw'', add_full_name = c_array 64 ''Eve Smith'',
      add_role = ROLE_BIDDER\<rparr>"

lemma sample_names: "stored_name (sample_user i n r b h) = cstring (c_array 32 n)"
  by (simp add: stored_name_def MAX_USERNAME_def)

text \<open>C29: Account names stay unique: as long as the names asked for have at most 31 characters, no
  operation of the administrator or the moderator gives two accounts that are not deleted the
  same name.\<close>

theorem names_stay_unique:
  assumes "unique_names w" and "numbered user_id (users w)" and "length (cstring (add_username req)) \<le> 31"
  shows "unique_names (handle_add_user popen fd req w) \<and> unique_names (handle_change_role fd cr w) \<and>
    unique_names (handle_delete_user fd dl w) \<and> unique_names (handle_modify_user fd mo w) \<and>
    unique_names (handle_toggle_account fd tg m w)"
proof -
  have upd: "unique_names (snd (write_user v w))"
    if "read_user i w = Some u" "user_id v = user_id u" "username v = username u"
      "user_deleted u \<Longrightarrow> user_deleted v" for i u v
    using unique_update [OF assms(1) that(1)] ut.rd_ident [OF assms(2) that(1)] that(2-4) by blast
  have n: "stored_name (new_user popen req w) = cstring (take MAX_USERNAME (add_username req))"
    using assms(3) by (simp add: new_user_name cstring_take MAX_USERNAME_def)
  have "length (users w) < 2 ^ 32" using assms(2) by (simp add: numbered_def)
  then have "unique_names (handle_add_user popen fd req w)"
    using assms(1) n by (auto simp: unique_names_def add_user_users)
  moreover have "unique_names (handle_change_role fd cr w)"
    using assms(1) by (auto simp: handle_change_role_def Let_def intro: upd split: option.split)
  moreover have "unique_names (handle_delete_user fd dl w)"
    using assms(1) by (auto simp: handle_delete_user_def Let_def intro: upd split: option.split)
  moreover have "unique_names (handle_modify_user fd mo w)"
    using assms(1) by (auto simp: handle_modify_user_def Let_def intro: upd split: option.split)
  moreover have "unique_names (handle_toggle_account fd tg m w)"
    using assms(1) by (auto simp: handle_toggle_account_def Let_def intro: upd split: option.split)
  ultimately show ?thesis by simp
qed

lemma sample_unique: "unique_names sample_world"
  by (simp add: unique_names_def sample_names c_array_cstring)

theorem names_stay_unique_witness:
  "unique_names (handle_add_user sample_shell 9 sample_account sample_world)"
proof -
  have "length (cstring (add_username sample_account)) \<le> 31"
    by (simp add: sample_account_def c_array_cstring)
  from names_stay_unique [OF sample_unique sample_numbered(1) this] show ?thesis by blast
qed

text \<open>A name of 32 or more characters defeats the check: the comparison is made on 32 characters but
  only 31 are stored, so the same request, sent twice, is accepted twice and leaves two accounts
  with the same stored name.\<close>

lemma long_name_twice:
  assumes "\<forall>u \<in> set (users w). length (stored_name u) \<le> 31" and "writable w FILE_USERS"
    and "length (users w) + 2 < 2 ^ 32" and "32 \<le> length (cstring (add_username req))"
  shows "\<exists>a b. users (handle_add_user popen fd req (handle_add_user popen fd req w)) = users w @ [a, b] \<and>
    \<not> user_deleted a \<and> \<not> user_deleted b \<and> stored_name a = stored_name b \<and>
    \<not> unique_names (handle_add_user popen fd req (handle_add_user popen fd req w))"
proof -
  let ?n = "cstring (take MAX_USERNAME (add_username req))" and ?w = "handle_add_user popen fd req w"
  let ?a = "new_user popen req w" and ?b = "new_user popen req ?w"
  have "length ?n = 32" using assms(4) by (simp add: cstring_take MAX_USERNAME_def)
  then have free: "\<not> (\<exists>u \<in> set us. \<not> user_deleted u \<and> stored_name u = ?n)"
    if "\<forall>u \<in> set us. length (stored_name u) \<le> 31" for us using that by fastforce
  have U1: "users ?w = users w @ [?a]"
    using add_user_users [of w popen fd req] free [OF assms(1)] assms(2,3) by simp
  have "\<forall>u \<in> set (users ?w). length (stored_name u) \<le> 31" using assms(1) by (simp add: U1 new_user_name)
  from free [OF this] have "users (handle_add_user popen fd req ?w) = users w @ [?a, ?b]"
    using add_user_users [of ?w popen fd req] assms(2,3) by (simp add: U1)
  then show ?thesis by (simp add: new_user_name unique_names_def)
qed

text \<open>C27: The last administrator stays: no request of a moderator or an administrator (a new role, an
  account switch by anyone up to an administrator, a deletion, a new name, a new account) leaves
  the system without an active administrator when it had one.\<close>

theorem last_admin_kept:
  assumes "numbered user_id (users w)" and "has_admin w" and "role m \<le> ROLE_ADMIN"
  shows "has_admin (handle_change_role fd cr w) \<and> has_admin (handle_toggle_account fd tg m w) \<and>
    has_admin (handle_delete_user fd dl w) \<and> has_admin (handle_modify_user fd mo w) \<and>
    has_admin (handle_add_user popen fd au w)"
proof -
  have "length (users w) < 2 ^ 32" using assms(1) by (simp add: numbered_def)
  with assms show ?thesis by (simp add: has_admin_change_role has_admin_other)
qed

lemma sample_has_admin: "has_admin sample_world"
  by (simp add: has_admin_def active_admin_def)

theorem last_admin_kept_witness:
  "has_admin (handle_change_role 9 \<lparr>change_role_user_id = 1, new_role = ROLE_BIDDER\<rparr> sample_world)"
  using last_admin_kept [OF sample_numbered(1) sample_has_admin, of bob] by (simp add: role_defs)

text \<open>A change of password can still remove the last administrator: the connection of a user who
  was promoted after the login holds the old role, and when the only active administrator on file
  is that user, the change of password, accepted and confirmed, writes the old role back.\<close>

lemma stale_write_removes_admin:
  assumes "numbered user_id (users w)" and "writable w FILE_USERS"
    and "\<forall>x \<in> set (users w). active_admin x \<longrightarrow> user_id x = user_id u"
    and "read_user (user_id u) w = Some r" and "role u \<noteq> ROLE_ADMIN"
    and "strncmp_eq (hash_of popen (old_password req)) (password u) 64"
  shows "\<not> has_admin (snd (handle_change_password popen fd req u w))"
proof -
  let ?v = "u\<lparr>password := strncpy (password u) (hash_of popen (new_password req)) MAX_PASSWORD\<rparr>"
  let ?k = "slot_of (user_id u)"
  have "users (snd (handle_change_password popen fd req u w)) = (users w)[?k := ?v]"
    using assms(2,6) ut.rows_update [OF assms(4), of ?v] by (simp add: handle_change_password_def Let_def)
  moreover have "\<not> active_admin x" if "x \<in> set ((users w)[?k := ?v])" for x
  proof -
    from that obtain j where j: "j < length (users w)" "x = (users w)[?k := ?v] ! j"
      by (auto simp: in_set_conv_nth)
    show ?thesis
    proof (cases "j = ?k")
      case True
      with j assms(5) show ?thesis by (simp add: active_admin_def)
    next
      case False
      then have "user_id (users w ! j) \<noteq> user_id u" using numbered_slot [OF assms(1) j(1)] by simp
      with False j assms(3) show ?thesis by (metis nth_list_update_neq nth_mem)
    qed
  qed
  ultimately show ?thesis by (auto simp: has_admin_def)
qed

end
