(* ===== verification/Work_Queue.thy ===== *)
theory Work_Queue
  imports Prelude
begin

text \<open>
  The work queue of \<^verbatim>\<open>server/server.c\<close>: the circular buffer of accepted connections between the
  accept loop and the worker threads. Both operations run under the queue's lock; a dequeue on
  an empty queue blocks, which is \<open>None\<close> here (the thread waits and tries again). An enqueue on a full
  queue closes the connection. The theory shows that the buffer is a bounded first-in-first-out queue.
\<close>

definition WORK_QUEUE_SIZE :: nat where "WORK_QUEUE_SIZE = 64"

record WorkQueue =
  wq_fds :: "int list"
  wq_front :: nat
  wq_rear :: nat
  wq_count :: nat
  wq_ready :: int

definition init_work_queue :: WorkQueue where
  "init_work_queue =
     \<lparr>wq_fds = replicate WORK_QUEUE_SIZE (-1), wq_front = 0, wq_rear = 0, wq_count = 0, wq_ready = 0\<rparr>"

definition enqueue_client :: "int \<Rightarrow> WorkQueue \<Rightarrow> int \<times> int list \<times> WorkQueue" where
  \<comment> \<open>the result, the descriptors it closes, and the queue\<close>
  "enqueue_client fd wq =
     (if wq_count wq = WORK_QUEUE_SIZE then (-1, [fd], wq)
      else (0, [], wq\<lparr>wq_fds := (wq_fds wq)[wq_rear wq := fd],
                  wq_rear := (wq_rear wq + 1) mod WORK_QUEUE_SIZE,
                  wq_count := wq_count wq + 1,
                  wq_ready := 1\<rparr>))"

definition dequeue_client :: "WorkQueue \<Rightarrow> (int \<times> WorkQueue) option" where
  "dequeue_client wq =
     (if wq_count wq = 0 then None
      else Some (wq_fds wq ! wq_front wq,
                 wq\<lparr>wq_front := (wq_front wq + 1) mod WORK_QUEUE_SIZE, wq_count := wq_count wq - 1\<rparr>))"

section \<open>The contract\<close>

datatype queue_op = Enqueue int | Dequeue

fun run_queue ::
  "(int \<Rightarrow> 'q \<Rightarrow> int \<times> int list \<times> 'q) \<Rightarrow> ('q \<Rightarrow> (int \<times> 'q) option) \<Rightarrow> queue_op list \<Rightarrow> 'q \<Rightarrow> int list \<times> int list \<times> 'q" where
  \<comment> \<open>the descriptors accepted and those served by a sequence of operations, in order\<close>
  "run_queue enq deq [] q = ([], [], q)"
| "run_queue enq deq (Enqueue fd # ops) q =
     (let (result, closed, q) = enq fd q; (accepted, served, q) = run_queue enq deq ops q
      in (if result < 0 then accepted else fd # accepted, served, q))"
| "run_queue enq deq (Dequeue # ops) q =
     (case deq q of
        None \<Rightarrow> run_queue enq deq ops q
      | Some (fd, q) \<Rightarrow>
          let (accepted, served, q) = run_queue enq deq ops q in (accepted, fd # served, q))"

locale bounded_queue =
  fixes enq :: "int \<Rightarrow> 'q \<Rightarrow> int \<times> int list \<times> 'q"
    and deq :: "'q \<Rightarrow> (int \<times> 'q) option"
    and empty :: 'q
    and items :: "'q \<Rightarrow> int list"
    and ok :: "'q \<Rightarrow> bool"
    and capacity :: nat
  assumes empty_ok: "ok empty" and empty_items: "items empty = []"
    and enq_full: "ok q \<Longrightarrow> length (items q) = capacity \<Longrightarrow> enq x q = (-1, [x], q)"
    and enq_room: "ok q \<Longrightarrow> length (items q) < capacity \<Longrightarrow>
          fst (enq x q) = 0 \<and> fst (snd (enq x q)) = [] \<and> ok (snd (snd (enq x q))) \<and>
          items (snd (snd (enq x q))) = items q @ [x]"
    and deq_empty: "ok q \<Longrightarrow> items q = [] \<Longrightarrow> deq q = None"
    and deq_item: "ok q \<Longrightarrow> items q = x # xs \<Longrightarrow> \<exists>q'. deq q = Some (x, q') \<and> ok q' \<and> items q' = xs"
    and bounded: "ok q \<Longrightarrow> length (items q) \<le> capacity"
begin

lemma run_history:
  "ok q \<Longrightarrow> run_queue enq deq ops q = (accepted, served, q') \<Longrightarrow>
   ok q' \<and> items q @ accepted = served @ items q'"
proof (induction ops arbitrary: q accepted served q')
  case Nil
  then show ?case by simp
next
  case (Cons op ops)
  show ?case
  proof (cases op)
    case (Enqueue fd)
    show ?thesis
    proof (cases "length (items q) = capacity")
      case True
      with Cons.IH [of q] Cons.prems enq_full [of q fd] show ?thesis
        by (auto simp: Enqueue Let_def split: prod.splits)
    next
      case False
      then have e: "fst (enq fd q) = 0 \<and> ok (snd (snd (enq fd q))) \<and> items (snd (snd (enq fd q))) = items q @ [fd]"
        using enq_room [of q fd] bounded [OF Cons.prems(1)] Cons.prems(1) by simp
      obtain acc srv q1 where r: "run_queue enq deq ops (snd (snd (enq fd q))) = (acc, srv, q1)"
        by (cases "run_queue enq deq ops (snd (snd (enq fd q)))")
      from e Cons.IH [OF _ r] Cons.prems show ?thesis by (auto simp: Enqueue case_prod_beta r)
    qed
  next
    case Dequeue
    show ?thesis
    proof (cases "items q")
      case Nil
      with Cons.prems deq_empty [of q] have "run_queue enq deq ops q = (accepted, served, q')"
        by (simp add: Dequeue)
      from Cons.IH [OF Cons.prems(1) this] show ?thesis .
    next
      case (Cons x xs)
      then obtain q1 where q1: "deq q = Some (x, q1)" "ok q1" "items q1 = xs"
        using deq_item [of q x xs] Cons.prems by blast
      obtain acc srv q2 where r: "run_queue enq deq ops q1 = (acc, srv, q2)"
        by (cases "run_queue enq deq ops q1")
      with q1 Cons.IH [OF q1(2) r] Cons.prems Cons show ?thesis by (auto simp: Dequeue)
    qed
  qed
qed

end

section \<open>The circular buffer\<close>

definition queued :: "WorkQueue \<Rightarrow> int list" where
  \<comment> \<open>the waiting descriptors, oldest first\<close>
  "queued wq = map (\<lambda>k. wq_fds wq ! ((wq_front wq + k) mod WORK_QUEUE_SIZE)) [0..<wq_count wq]"

definition queue_inv :: "WorkQueue \<Rightarrow> bool" where
  "queue_inv wq \<longleftrightarrow>
     length (wq_fds wq) = WORK_QUEUE_SIZE \<and> wq_front wq < WORK_QUEUE_SIZE \<and>
     wq_count wq \<le> WORK_QUEUE_SIZE \<and> wq_rear wq = (wq_front wq + wq_count wq) mod WORK_QUEUE_SIZE"

lemma slots_distinct:
  assumes "k < c" and "c < (n::nat)"
  shows "(f + k) mod n \<noteq> (f + c) mod n"
proof
  assume "(f + k) mod n = (f + c) mod n"
  then have "n dvd (f + c) - (f + k)" using assms(1) by (intro mod_eq_dvd_iff_nat [THEN iffD1]) auto
  moreover have "(f + c) - (f + k) = c - k" by simp
  ultimately show False using assms by (auto dest: dvd_imp_le)
qed

interpretation wq: bounded_queue enqueue_client dequeue_client init_work_queue queued queue_inv WORK_QUEUE_SIZE
proof (unfold_locales, goal_cases)
  case 1
  show ?case by (simp add: queue_inv_def init_work_queue_def WORK_QUEUE_SIZE_def)
next
  case 2
  show ?case by (simp add: queued_def init_work_queue_def)
next
  case (3 q x)
  then show ?case by (simp add: queued_def enqueue_client_def)
next
  case (4 q x)
  let ?n = WORK_QUEUE_SIZE
  have c: "wq_count q < ?n" using 4(2) by (simp add: queued_def)
  have inv: "length (wq_fds q) = ?n" "wq_front q < ?n" "wq_rear q = (wq_front q + wq_count q) mod ?n"
    using 4(1) by (simp_all add: queue_inv_def)
  have "queued (snd (snd (enqueue_client x q))) = queued q @ [x]"
  proof -
    have "(wq_fds q)[wq_rear q := x] ! ((wq_front q + k) mod ?n) = wq_fds q ! ((wq_front q + k) mod ?n)"
      if "k < wq_count q" for k using slots_distinct [OF that c, of "wq_front q"] inv(3) by simp
    moreover have "wq_rear q < length (wq_fds q)" using inv by (simp add: WORK_QUEUE_SIZE_def)
    ultimately show ?thesis
      using c inv(3) by (auto simp: enqueue_client_def queued_def)
  qed
  moreover have "queue_inv (snd (snd (enqueue_client x q)))"
    using c inv by (auto simp: enqueue_client_def queue_inv_def mod_Suc_eq)
  ultimately show ?case using c by (simp add: enqueue_client_def)
next
  case (5 q)
  then show ?case by (simp add: dequeue_client_def queued_def)
next
  case (6 q x xs)
  let ?n = WORK_QUEUE_SIZE
  let ?q = "q\<lparr>wq_front := (wq_front q + 1) mod ?n, wq_count := wq_count q - 1\<rparr>"
  have inv: "length (wq_fds q) = ?n" "wq_front q < ?n" "wq_count q \<le> ?n"
    "wq_rear q = (wq_front q + wq_count q) mod ?n"
    using 6(1) by (simp_all add: queue_inv_def)
  obtain c where c: "wq_count q = Suc c" using 6(2) by (cases "wq_count q") (auto simp: queued_def)
  have "queued q = map (\<lambda>k. wq_fds q ! ((wq_front q + k) mod ?n)) [0..<Suc c]"
    by (simp only: queued_def c)
  also have "\<dots> = wq_fds q ! wq_front q # queued ?q"
    by (subst map_upt_Suc) (use inv(2) in \<open>simp add: queued_def mod_simps c\<close>)
  finally have "queued q = wq_fds q ! wq_front q # queued ?q" .
  with 6(2) have "x = wq_fds q ! wq_front q" "queued ?q = xs" by simp_all
  moreover have "queue_inv ?q" using inv c by (auto simp: queue_inv_def mod_simps WORK_QUEUE_SIZE_def)
  ultimately show ?case using c by (simp add: dequeue_client_def)
next
  case (7 q)
  then show ?case by (simp add: queued_def queue_inv_def)
qed

section \<open>Properties\<close>

text \<open>The circular buffer is a first-in-first-out queue of at most 64 connections: after any
  sequence of enqueues and dequeues from the start, the connections accepted are, in order, the
  ones served followed by the ones waiting, so none is lost, served twice or overtaken; a
  connection is turned away, and closed, only when 64 are waiting.\<close>

lemma work_queue_fifo:
  "case run_queue enqueue_client dequeue_client ops init_work_queue of (accepted, served, wq) \<Rightarrow>
     accepted = served @ queued wq \<and> length (queued wq) \<le> 64 \<and>
     (fst (enqueue_client fd wq) < 0 \<longleftrightarrow> length (queued wq) = 64) \<and>
     fst (snd (enqueue_client fd wq)) = (if length (queued wq) = 64 then [fd] else [])"
proof -
  obtain acc srv q where r: "run_queue enqueue_client dequeue_client ops init_work_queue = (acc, srv, q)"
    by (cases "run_queue enqueue_client dequeue_client ops init_work_queue")
  from wq.run_history [OF wq.empty_ok r] have "queue_inv q" "acc = srv @ queued q"
    by (simp_all add: wq.empty_items)
  then show ?thesis
    using wq.bounded [of q] wq.enq_full [of q fd] wq.enq_room [of q fd]
    by (cases "length (queued q) = 64") (auto simp: r WORK_QUEUE_SIZE_def)
qed

end
