(* ===== verification/Server.thy ===== *)
theory Server
  imports Admin Work_Queue
begin

text \<open>
  The conversation of \<^verbatim>\<open>server/server.c\<close> with one client: the authentication gate, the routing of
  a request to its handler behind the role gates, the loop that ends at a logout or a disconnect,
  and the cleanup after it. A request is given decoded (the cast of the buffer to the payload
  type of its message); one that the switch does not list is \<open>RQ_OTHER\<close>.

  The role gates look at the copy of the user record that the connection got at login.
\<close>

datatype (plugins only: code size) request =
    RQ_LOGIN LoginPayload | RQ_LOGOUT | RQ_CHANGE_PASS ChangePassPayload
  | RQ_VIEW_AUCTIONS | RQ_PLACE_BID PlaceBidPayload | RQ_VIEW_BALANCE | RQ_DEPOSIT DepositPayload
  | RQ_VIEW_MY_BIDS | RQ_SUBMIT_FEEDBACK FeedbackPayload | RQ_FILE_DISPUTE FileDisputePayload
  | RQ_CREATE_AUCTION CreateAuctionPayload | RQ_CLOSE_AUCTION CloseAuctionPayload
  | RQ_VIEW_DISPUTES | RQ_RESOLVE_DISPUTE ResolveDisputePayload | RQ_VIEW_FEEDBACK
  | RQ_TOGGLE_ACCOUNT ToggleAccountPayload
  | RQ_ADD_USER AddUserPayload | RQ_LIST_USERS | RQ_CHANGE_ROLE ChangeRolePayload
  | RQ_OTHER

record conn =
  conn_fd :: int
  current_user :: User
  authenticated :: bool
  running :: bool

definition new_conn :: "int \<Rightarrow> conn" where
  "new_conn fd = \<lparr>conn_fd = fd, current_user = zero_User, authenticated = False, running = True\<rparr>"

abbreviation denied :: "conn \<Rightarrow> world \<Rightarrow> world" where
  "denied c w \<equiv> send_msg (conn_fd c) MSG_ERROR ERR_PERMISSION P_None w"

fun dispatch :: "shell \<Rightarrow> request \<Rightarrow> conn \<Rightarrow> world \<Rightarrow> conn \<times> world" where
  "dispatch popen (RQ_FILE_DISPUTE q) c w =
     (c, if role (current_user c) = ROLE_BIDDER then handle_file_dispute (conn_fd c) q (current_user c) w
         else denied c w)"
| "dispatch popen (RQ_LOGIN q) c w =
     (let (auth, u, w) = handle_login popen (conn_fd c) q (current_user c) w
      in (c\<lparr>authenticated := auth, current_user := u\<rparr>, w))"
| "dispatch popen RQ_LOGOUT c w =
     (c\<lparr>running := False\<rparr>, handle_logout (conn_fd c) (current_user c) w)"
| "dispatch popen (RQ_CHANGE_PASS q) c w =
     (let (u, w) = handle_change_password popen (conn_fd c) q (current_user c) w
      in (c\<lparr>current_user := u\<rparr>, w))"
| "dispatch popen RQ_VIEW_AUCTIONS c w = (c, handle_view_auctions (conn_fd c) w)"
| "dispatch popen (RQ_PLACE_BID q) c w =
     (c, if role (current_user c) = ROLE_BIDDER then handle_place_bid (conn_fd c) q (current_user c) w
         else denied c w)"
| "dispatch popen RQ_VIEW_BALANCE c w = (c, handle_view_balance (conn_fd c) (current_user c) w)"
| "dispatch popen (RQ_DEPOSIT q) c w =
     (let (u, w) = handle_deposit (conn_fd c) q (current_user c) w in (c\<lparr>current_user := u\<rparr>, w))"
| "dispatch popen RQ_VIEW_MY_BIDS c w = (c, handle_view_my_bids (conn_fd c) (current_user c) w)"
| "dispatch popen (RQ_SUBMIT_FEEDBACK q) c w =
     (c, handle_submit_feedback (conn_fd c) q (current_user c) w)"
| "dispatch popen (RQ_CREATE_AUCTION q) c w =
     (c, if role (current_user c) = ROLE_AUCTIONEER \<or> role (current_user c) = ROLE_ADMIN
         then handle_create_auction (conn_fd c) q (current_user c) w else denied c w)"
| "dispatch popen (RQ_CLOSE_AUCTION q) c w =
     (c, if role (current_user c) = ROLE_AUCTIONEER \<or> role (current_user c) = ROLE_ADMIN
         then handle_close_auction (conn_fd c) q (current_user c) w else denied c w)"
| "dispatch popen RQ_VIEW_DISPUTES c w =
     (c, if role (current_user c) \<ge> ROLE_MODERATOR then handle_view_disputes (conn_fd c) w else denied c w)"
| "dispatch popen (RQ_RESOLVE_DISPUTE q) c w =
     (c, if role (current_user c) \<ge> ROLE_MODERATOR
         then handle_resolve_dispute (conn_fd c) q (current_user c) w else denied c w)"
| "dispatch popen RQ_VIEW_FEEDBACK c w =
     (c, if role (current_user c) \<ge> ROLE_MODERATOR then handle_view_feedback (conn_fd c) w else denied c w)"
| "dispatch popen (RQ_TOGGLE_ACCOUNT q) c w =
     (c, if role (current_user c) \<ge> ROLE_MODERATOR
         then handle_toggle_account (conn_fd c) q (current_user c) w else denied c w)"
| "dispatch popen (RQ_ADD_USER q) c w =
     (c, if role (current_user c) = ROLE_ADMIN then handle_add_user popen (conn_fd c) q w else denied c w)"
| "dispatch popen RQ_LIST_USERS c w =
     (c, if role (current_user c) = ROLE_ADMIN then handle_list_users (conn_fd c) w else denied c w)"
| "dispatch popen (RQ_CHANGE_ROLE q) c w =
     (c, if role (current_user c) = ROLE_ADMIN then handle_change_role (conn_fd c) q w else denied c w)"
| "dispatch popen RQ_OTHER c w = (c, send_msg (conn_fd c) MSG_ERROR ERR_INTERNAL P_None w)"

fun is_login :: "request \<Rightarrow> bool" where
  "is_login (RQ_LOGIN q) = True"
| "is_login _ = False"

definition serve_request :: "shell \<Rightarrow> request \<Rightarrow> conn \<Rightarrow> world \<Rightarrow> conn \<times> world" where
  \<comment> \<open>the body of the loop after \<^verbatim>\<open>recv_msg\<close>\<close>
  "serve_request popen rq c w =
     (if \<not> authenticated c \<and> \<not> is_login rq
      then (c, send_msg (conn_fd c) MSG_ERROR ERR_AUTH_FAIL P_None w)
      else dispatch popen rq c w)"

fun client_loop :: "shell \<Rightarrow> request list \<Rightarrow> conn \<Rightarrow> world \<Rightarrow> conn \<times> world" where
  \<comment> \<open>the requests the client sends before it disconnects\<close>
  "client_loop popen [] c w = (c, w)"
| "client_loop popen (rq # rqs) c w =
     (let (c, w) = serve_request popen rq c w
      in if running c then client_loop popen rqs c w else (c, w))"

definition cleanup :: "conn \<Rightarrow> world \<Rightarrow> world" where
  "cleanup c w =
     (if authenticated c \<and> user_id (current_user c) \<noteq> 0
      then let slot = find_session_slot (user_id (current_user c)) w;
               w = (if slot \<ge> 0 then snd (write_session slot zero_Session w) else w)
           in notify_unregister (user_id (current_user c)) w
      else w)"

definition handle_client :: "shell \<Rightarrow> int \<Rightarrow> request list \<Rightarrow> world \<Rightarrow> world" where
  "handle_client popen client_fd rqs w =
     (if client_fd \<le> 0 then w
      else let (c, w) = client_loop popen rqs (new_conn client_fd) w in cleanup c w)"

section \<open>What a request touches\<close>

lemma deposit_rest [simp]:
  "snd (case handle_deposit fd q u w of (u, w) \<Rightarrow> (c\<lparr>current_user := u\<rparr>, w)) = snd (handle_deposit fd q u w)"
  "snd (case handle_change_password popen fd p u w of (u, w) \<Rightarrow> (c\<lparr>current_user := u\<rparr>, w)) =
     snd (handle_change_password popen fd p u w)"
  "snd (case handle_login popen fd l u w of (auth, u, w) \<Rightarrow> (c\<lparr>authenticated := auth, current_user := u\<rparr>, w)) =
     snd (snd (handle_login popen fd l u w))"
  by (simp_all add: case_prod_beta)

lemma login_frame [simp, frame_simps]:
  "auctions_file (snd (snd (handle_login popen fd l u w))) = auctions_file w"
  "bids_file (snd (snd (handle_login popen fd l u w))) = bids_file w"
  "feedback_file (snd (snd (handle_login popen fd l u w))) = feedback_file w"
  "disputes_file (snd (snd (handle_login popen fd l u w))) = disputes_file w"
  "writable (snd (snd (handle_login popen fd l u w))) = writable w"
  "now (snd (snd (handle_login popen fd l u w))) = now w"
  by (simp_all add: handle_login_def Let_def case_prod_beta split: option.split)

lemma serve_sessions:
  assumes "\<not> is_login rq" and "rq \<noteq> RQ_LOGOUT"
  shows "sessions_file (snd (serve_request popen rq c w)) = sessions_file w"
    and "registry (snd (serve_request popen rq c w)) = registry w"
    and "authenticated (fst (serve_request popen rq c w)) = authenticated c"
    and "running (fst (serve_request popen rq c w)) = running c"
    and "conn_fd (fst (serve_request popen rq c w)) = conn_fd c"
  using assms by (cases rq; simp add: serve_request_def case_prod_beta)+

lemma serve_writable [simp]: "writable (snd (serve_request popen rq c w)) = writable w"
  by (cases rq) (simp_all add: serve_request_def case_prod_beta handle_logout_def Let_def)

section \<open>Properties\<close>

text \<open>Nothing happens before a login: on a connection that is not authenticated every request other
  than a login is answered with an authentication error and changes no file, session or registry
  entry, and the connection stays as it was.\<close>

lemma authentication_gate:
  assumes "\<not> authenticated c" and "\<not> is_login rq"
  shows "serve_request popen rq c w = (c, send_msg (conn_fd c) MSG_ERROR ERR_AUTH_FAIL P_None w)"
  using assms by (simp add: serve_request_def)

text \<open>C28: The roles are separated: only a bidder's bid or dispute, a creation or close by an auctioneer
  or an administrator, or the decision of a role from moderator up changes the auction file; only
  bids and settlements change the bid file; only a bidder files and only a role from moderator up
  decides a dispute.\<close>

theorem role_separation:
  assumes "r = role (current_user c)" and "w' = snd (serve_request popen rq c w)"
  shows "(auctions_file w' \<noteq> auctions_file w \<longrightarrow>
       r = ROLE_BIDDER \<and> (\<exists>q. rq = RQ_PLACE_BID q) \<or> r = ROLE_BIDDER \<and> (\<exists>q. rq = RQ_FILE_DISPUTE q) \<or>
       (r = ROLE_AUCTIONEER \<or> r = ROLE_ADMIN) \<and> ((\<exists>q. rq = RQ_CREATE_AUCTION q) \<or> (\<exists>q. rq = RQ_CLOSE_AUCTION q)) \<or>
       r \<ge> ROLE_MODERATOR \<and> (\<exists>q. rq = RQ_RESOLVE_DISPUTE q)) \<and>
    (bids_file w' \<noteq> bids_file w \<longrightarrow>
       r = ROLE_BIDDER \<and> (\<exists>q. rq = RQ_PLACE_BID q) \<or>
       (r = ROLE_AUCTIONEER \<or> r = ROLE_ADMIN) \<and> (\<exists>q. rq = RQ_CLOSE_AUCTION q)) \<and>
    (disputes_file w' \<noteq> disputes_file w \<longrightarrow>
       r = ROLE_BIDDER \<and> (\<exists>q. rq = RQ_FILE_DISPUTE q) \<or>
       r \<ge> ROLE_MODERATOR \<and> (\<exists>q. rq = RQ_RESOLVE_DISPUTE q))"
  using assms
  by (cases rq) (simp_all add: serve_request_def case_prod_beta handle_view_balance_def
      handle_change_password_def Let_def split: option.split)

theorem role_separation_witness:
  "auctions_file (snd (serve_request sample_shell (RQ_CLOSE_AUCTION \<lparr>close_auction_id = 2\<rparr>)
     (new_conn 7\<lparr>current_user := bob, authenticated := True\<rparr>) sample_world)) = auctions_file sample_world"
  using role_separation [OF refl refl, of sample_shell "RQ_CLOSE_AUCTION \<lparr>close_auction_id = 2\<rparr>"
      "new_conn 7\<lparr>current_user := bob, authenticated := True\<rparr>" sample_world]
  by (auto simp: role_defs)

text \<open>C39: A login request on an authenticated connection leaks the session: when it is refused (because
  the user is, as must be, logged in already), the connection counts as not authenticated, so the
  cleanup at its end does not clear the session, and every later login of the user is refused.\<close>

theorem relogin_leaks_session:
  assumes "authenticated c" and "running c" and "i \<in> set (active_sessions (sessions w))"
    and "\<not> (\<exists>v. login_accepts popen q w v)"
    and "client_loop popen [RQ_LOGIN q] c w = (c', w')"
    and "find_user_by_username (login_username q') (cleanup c' w') = Some v" and "user_id v = i"
  shows "\<not> authenticated c' \<and> i \<in> set (active_sessions (sessions (cleanup c' w'))) \<and>
    \<not> fst (handle_login popen' fd' q' out (cleanup c' w'))"
proof -
  obtain e w1 where l: "handle_login popen (conn_fd c) q (current_user c) w =
      (False, current_user c, send_msg (conn_fd c) MSG_LOGIN_RESP e P_None w1)" "sessions w1 = sessions w"
    using login_failure [OF assms(4), of "conn_fd c" "current_user c"] by (metis free_slot_sessions)
  have "c' = c\<lparr>authenticated := False\<rparr>" "w' = send_msg (conn_fd c) MSG_LOGIN_RESP e P_None w1"
    using assms(1,2,5) by (auto simp: serve_request_def l Let_def)
  then have "\<not> authenticated c'" "cleanup c' w' = w'" "sessions w' = sessions w"
    using l(2) by (simp_all add: cleanup_def)
  then show ?thesis using assms(3,6,7) by (auto simp: login_result login_accepts_def)
qed

definition logged_in_conn :: conn where
  "logged_in_conn = new_conn 7\<lparr>current_user := bob, authenticated := True\<rparr>"

lemma logged_in_again:
  "find_user_by_username (login_username sample_login) (logged_in_world 7 bob sample_world)
     = Some (bob\<lparr>last_login := 65\<rparr>)"
proof -
  have "users (logged_in_world 7 bob sample_world) = (users sample_world)[2 := bob\<lparr>last_login := 65\<rparr>]"
    using ut.rows_update [of 3 sample_world bob "bob\<lparr>last_login := 65\<rparr>"]
    by (simp add: logged_in_users slot_of_def)
  then show ?thesis
    by (simp add: find_user_by_username_def strncmp_eq_def c_array_cstring MAX_USERNAME_def sample_login_def)
qed

theorem relogin_leaks_session_witness:
  "\<not> fst (handle_login sample_shell 8 sample_login zero_User
     (snd (client_loop sample_shell [RQ_LOGIN sample_login] logged_in_conn (logged_in_world 7 bob sample_world))))"
proof -
  let ?w = "logged_in_world 7 bob sample_world"
  obtain c' w' where cl: "client_loop sample_shell [RQ_LOGIN sample_login] logged_in_conn ?w = (c', w')"
    by (cases "client_loop sample_shell [RQ_LOGIN sample_login] logged_in_conn ?w")
  have act: "3 \<in> set (active_sessions (sessions ?w))"
    using logged_in_sessions_inv [OF sample_accepts, of 7] by (simp add: sessions_inv_def)
  have no: "\<not> (\<exists>v. login_accepts sample_shell sample_login ?w v)"
    using act by (auto simp: login_accepts_def logged_in_again)
  obtain e w1 where l: "handle_login sample_shell 7 sample_login bob ?w =
      (False, bob, send_msg 7 MSG_LOGIN_RESP e P_None w1)" "users_file w1 = users_file ?w"
    using login_failure [OF no, of 7 bob] by (metis find_free_slot_frame(1))
  then have w': "\<not> authenticated c'" "users_file w' = users_file ?w"
    using cl by (auto simp: logged_in_conn_def new_conn_def serve_request_def)
  then have cu: "cleanup c' w' = w'" by (simp add: cleanup_def)
  have "find_user_by_username (login_username sample_login) (cleanup c' w') = Some (bob\<lparr>last_login := 65\<rparr>)"
    using logged_in_again w'(2) by (simp add: find_user_by_username_def cu)
  moreover have "authenticated logged_in_conn" "running logged_in_conn"
    by (simp_all add: logged_in_conn_def new_conn_def)
  ultimately have "\<not> fst (handle_login sample_shell 8 sample_login zero_User (cleanup c' w'))"
    using relogin_leaks_session [OF _ _ act no cl, of sample_login] by simp
  then show ?thesis unfolding cl cu by simp
qed

text \<open>A change of role or status does not reach an open connection: the role gates look at the
  user's copy in the connection, so a user who has been demoted, banned or deleted on file still
  hands out roles on a connection opened as an administrator.\<close>

lemma open_connection_keeps_role:
  assumes "authenticated c" and "role (current_user c) = ROLE_ADMIN"
    and "read_user (user_id (current_user c)) w = Some r"
    and "role r \<noteq> ROLE_ADMIN \<or> acct_status r = ACCOUNT_BANNED \<or> user_deleted r"
    and "read_user (change_role_user_id q) w = Some u" and "role u \<noteq> ROLE_ADMIN"
    and "numbered user_id (users w)" and "writable w FILE_USERS"
  shows "read_user (change_role_user_id q) (snd (serve_request popen (RQ_CHANGE_ROLE q) c w))
    = Some (u\<lparr>role := new_role q\<rparr>)"
proof -
  have "user_id (u\<lparr>role := new_role q\<rparr>) = change_role_user_id q" using ut.rd_ident [OF assms(7,5)] by simp
  from ut.rd_update [OF assms(5) this, of "change_role_user_id q"] show ?thesis
    using assms by (simp add: serve_request_def handle_change_role_def Let_def)
qed

end
