(* ===== verification/System.thy ===== *)
theory System
  imports Server
begin

text \<open>
  The server as a whole: connections that open, send requests and end, the timer and the clock, as
  a step relation over the state and the open connections. A request is handled in one step; the
  order of steps is arbitrary, so the relation contains every order in which complete requests
  of the clients and complete rounds of the timer can follow each other.

  The theory shows that every reachable state satisfies the invariants of the components, as long
  as the amounts in requests are finite (see \<open>nan_deposit_unlimited_credit\<close> and
  \<open>nan_bid_accepted\<close> for what happens otherwise) and no table reaches \<open>2 ^ 32 - 1\<close> records.
\<close>

section \<open>The invariant of the state\<close>

definition room :: "world \<Rightarrow> bool" where
  \<comment> \<open>the next identifier of no table wraps around\<close>
  "room w \<longleftrightarrow>
     length (users w) + 1 < 2 ^ 32 \<and> length (auctions w) + 1 < 2 ^ 32 \<and> length (disputes w) + 1 < 2 ^ 32"

definition registry_ok :: "world \<Rightarrow> bool" where
  \<comment> \<open>only users with an active session are notified\<close>
  "registry_ok w \<longleftrightarrow>
     registry_inv (registry w) \<and> set (active_users (registry w)) \<subseteq> set (active_sessions (sessions w))"

definition finite_prices :: "world \<Rightarrow> bool" where
  "finite_prices w \<longleftrightarrow>
     (\<forall>a \<in> set (auctions w). is_finite (current_bid a)) \<and> (\<forall>b \<in> set (bids w). is_finite (bid_amount b))"

definition world_inv :: "world \<Rightarrow> bool" where
  "world_inv w \<longleftrightarrow>
     users_inv w \<and> numbered auction_id (auctions w) \<and> disputes_inv w \<and> bid_book w \<and> finite_prices w \<and>
     sessions_inv (sessions w) \<and> registry_ok w \<and> (\<forall>f. writable w f)"

definition conn_ok :: "world \<Rightarrow> conn \<Rightarrow> bool" where
  "conn_ok w c \<longleftrightarrow>
     0 < conn_fd c \<and>
     (authenticated c \<longrightarrow>
        (\<exists>r. read_user (user_id (current_user c)) w = Some r) \<and> wallet_ok (current_user c))"

fun finite_request :: "request \<Rightarrow> bool" where
  "finite_request (RQ_DEPOSIT q) = is_finite (deposit_amount q)"
| "finite_request (RQ_PLACE_BID q) = is_finite (bid_req_amount q)"
| "finite_request (RQ_CREATE_AUCTION q) = is_finite (create_start_price q)"
| "finite_request _ = True"

lemma world_inv_parts:
  assumes "world_inv w"
  shows "users_inv w" "numbered auction_id (auctions w)" "disputes_inv w" "bid_book w" "finite_prices w"
    "sessions_inv (sessions w)" "registry_ok w" "writable w f" "numbered user_id (users w)"
    "list_all wallet_ok (users w)" "numbered dispute_id (disputes w)"
  using assms by (auto simp: world_inv_def users_inv_def disputes_inv_def)

lemma world_inv_frame [simp]:
  "world_inv (log_txn m w) = world_inv w" "world_inv (send_msg fd t e p w) = world_inv w"
  by (simp_all add: world_inv_def finite_prices_def registry_ok_def)

text \<open>A step that changes only one part keeps the others.\<close>

lemma inv_cong:
  "auctions_file w' = auctions_file w \<Longrightarrow> disputes_file w' = disputes_file w \<Longrightarrow> disputes_inv w' = disputes_inv w"
  "auctions_file w' = auctions_file w \<Longrightarrow> bids_file w' = bids_file w \<Longrightarrow> bid_book w' = bid_book w"
  "auctions_file w' = auctions_file w \<Longrightarrow> bids_file w' = bids_file w \<Longrightarrow> finite_prices w' = finite_prices w"
  "sessions w' = sessions w \<Longrightarrow> registry w' = registry w \<Longrightarrow> registry_ok w' = registry_ok w"
  by (simp_all add: disputes_inv_def read_auction_def finite_prices_def registry_ok_def bid_book_def)

lemma world_inv_users:
  assumes "world_inv w" and "users_inv w'"
    and "auctions_file w' = auctions_file w" "bids_file w' = bids_file w" "disputes_file w' = disputes_file w"
    and "sessions_file w' = sessions_file w" "registry w' = registry w" "writable w' = writable w"
  shows "world_inv w'"
  using assms inv_cong [of w' w] by (simp add: world_inv_def)

lemma world_inv_same:
  assumes "world_inv w" and "users_file w' = users_file w"
    and "auctions_file w' = auctions_file w" "bids_file w' = bids_file w" "disputes_file w' = disputes_file w"
    and "sessions_file w' = sessions_file w" "registry w' = registry w" "writable w' = writable w"
  shows "world_inv w'"
  using assms users_inv_cong [of w' w] world_inv_users [of w w'] by (simp add: world_inv_def)

lemma world_inv_sessions:
  assumes "world_inv w" and "sessions_inv (sessions w')" and "registry_ok w'" and "users_inv w'"
    and "auctions_file w' = auctions_file w" "bids_file w' = bids_file w" "disputes_file w' = disputes_file w"
    and "writable w' = writable w"
  shows "world_inv w'"
  using assms inv_cong [of w' w] by (simp add: world_inv_def)

section \<open>Users\<close>

lemma users_inv_update:
  assumes "users_inv w" and "read_user i w = Some r" and "user_id v = i" and "wallet_ok v"
  shows "users_inv (snd (write_user v w))"
  using assms ut.numbered_update [of w i r v] ut.all_update [of wallet_ok w i r v] by (simp add: users_inv_def)

lemma users_inv_create:
  assumes "users_inv w" and "user_id v = next_user_id w" and "length (users w) + 1 < 2 ^ 32" and "wallet_ok v"
  shows "users_inv (snd (write_user v w))"
  using assms ut.numbered_create [of w v] ut.rows_create [of v w] by (simp add: users_inv_def)

lemma reads_wallet_ok: "users_inv w \<Longrightarrow> read_user i w = Some r \<Longrightarrow> wallet_ok r"
  using ut.rd_all by (auto simp: users_inv_def)

lemma reads_id: "users_inv w \<Longrightarrow> read_user i w = Some r \<Longrightarrow> user_id r = i"
  by (auto simp: users_inv_def ut.rd_ident)

definition users_grow :: "world \<Rightarrow> world \<Rightarrow> bool" where
  "users_grow w w' \<longleftrightarrow> length (users w) \<le> length (users w')"

lemma users_grow_read: "users_grow w w' \<Longrightarrow> read_user i w = Some r \<Longrightarrow> \<exists>r'. read_user i w' = Some r'"
  by (auto simp: users_grow_def ut.rd_rows split: if_splits)

lemma users_grow_same: "users_file w' = users_file w \<Longrightarrow> users_grow w w'"
  by (simp add: users_grow_def)

lemma users_grow_kept: "accounts_kept w w' \<Longrightarrow> users_grow w w'"
  by (simp add: users_grow_def accounts_kept_length)

lemma users_grow_write [simp]: "users_grow w (snd (write_user u w))"
  by (simp add: users_grow_def write_user_def length_rec_write)

lemma users_grow_frame [simp]:
  "users_grow w (log_txn m v) = users_grow w v" "users_grow w (send_msg fd t e p v) = users_grow w v"
  by (simp_all add: users_grow_def)

lemma wallet_ok_update [simp]:
  "wallet_ok (u\<lparr>acct_status := a\<rparr>) = wallet_ok u" "wallet_ok (u\<lparr>role := r\<rparr>) = wallet_ok u"
  "wallet_ok (u\<lparr>last_login := t\<rparr>) = wallet_ok u" "wallet_ok (u\<lparr>password := p\<rparr>) = wallet_ok u"
  by (simp_all add: wallet_ok_def)

lemma toggle_inv:
  "users_inv w \<Longrightarrow> users_inv (handle_toggle_account fd q m w) \<and> users_grow w (handle_toggle_account fd q m w)"
  by (auto simp: handle_toggle_account_def Let_def users_grow_same reads_id
      intro!: users_inv_update dest: reads_wallet_ok split: option.split)

lemma change_role_inv:
  "users_inv w \<Longrightarrow> users_inv (handle_change_role fd q w) \<and> users_grow w (handle_change_role fd q w)"
  by (auto simp: handle_change_role_def Let_def users_grow_same reads_id
      intro!: users_inv_update dest: reads_wallet_ok split: option.split)

lemma add_user_inv:
  assumes "users_inv w" and "room w"
  shows "users_inv (handle_add_user popen fd q w) \<and> users_grow w (handle_add_user popen fd q w)"
proof -
  have "wallet_ok (new_user popen q w)" by (simp add: wallet_ok_def zero_rs)
  with assms users_inv_create [of w "new_user popen q w"] show ?thesis
    by (simp add: add_user_world room_def users_grow_same)
qed

lemma change_password_inv:
  assumes "users_inv w" and "read_user (user_id u) w = Some r" and "wallet_ok u"
  shows "users_inv (snd (handle_change_password popen fd q u w)) \<and>
    users_grow w (snd (handle_change_password popen fd q u w)) \<and>
    user_id (fst (handle_change_password popen fd q u w)) = user_id u \<and>
    wallet_ok (fst (handle_change_password popen fd q u w))"
  using assms users_inv_update [OF assms(1,2)]
  by (simp add: handle_change_password_def Let_def users_grow_same)

lemma deposit_inv:
  assumes inv: "users_inv w" and fin: "is_finite (deposit_amount q)" and u: "wallet_ok u"
  shows "users_inv (snd (handle_deposit fd q u w)) \<and> users_grow w (snd (handle_deposit fd q u w)) \<and>
    user_id (fst (handle_deposit fd q u w)) = user_id u \<and> wallet_ok (fst (handle_deposit fd q u w))"
proof -
  let ?w = "snd (credit_wallet (user_id u) (deposit_amount q) w)"
  have i: "users_inv ?w" using inv fin by (rule wallet_inv(4))
  have "numbered user_id (users w)" using inv by (simp add: users_inv_def)
  then have g: "users_grow w ?w" using cw.op_accounts by (intro users_grow_kept) simp
  have "users_inv (snd (handle_deposit fd q u w)) \<and> users_grow w (snd (handle_deposit fd q u w))"
    using i g inv by (simp add: handle_deposit_world Let_def users_grow_same)
  moreover have "user_id (fst (handle_deposit fd q u w)) = user_id u \<and> wallet_ok (fst (handle_deposit fd q u w))"
    using u reads_id [OF i] reads_wallet_ok [OF i]
    by (auto simp: handle_deposit_def Let_def case_prod_beta split: option.split)
  ultimately show ?thesis by simp
qed

lemma login_inv:
  assumes inv: "world_inv w" and fd: "0 < fd"
  shows "world_inv (snd (snd (handle_login popen fd q out w))) \<and>
    users_grow w (snd (snd (handle_login popen fd q out w))) \<and>
    (fst (handle_login popen fd q out w) \<longrightarrow>
      (\<exists>r. read_user (user_id (fst (snd (handle_login popen fd q out w)))) w = Some r) \<and>
      wallet_ok (fst (snd (handle_login popen fd q out w))))"
proof (cases "\<exists>u. login_accepts popen q w u")
  case False
  obtain e w1 where l: "handle_login popen fd q out w = (False, out, send_msg fd MSG_LOGIN_RESP e P_None w1)"
    "w1 = w \<or> w1 = snd (find_free_slot w)" using login_failure [OF False, of fd out] by blast
  then have "sessions w1 = sessions w" by auto
  then have "world_inv w1"
    using l(2) world_inv_parts [OF inv] inv users_inv_cong [of w1 w] inv_cong(4) [of w1 w]
    by (intro world_inv_sessions [OF inv]) auto
  with l show ?thesis by (auto simp: users_grow_same)
next
  case True
  then obtain u where u: "login_accepts popen q w u" ..
  note P = world_inv_parts [OF inv]
  let ?w = "logged_in_world fd u w" and ?v = "u\<lparr>last_login := now w\<rparr>"
  have r: "read_user (user_id u) w = Some u"
    using u P(9) by (auto simp: login_accepts_def intro: find_user_read)
  have S: "sessions_inv (sessions ?w)" "user_id u \<in> set (active_sessions (sessions ?w))"
    using logged_in_sessions_inv [OF u P(6,8)] by simp_all
  have "user_id u \<notin> set (active_users (registry w))"
    using u P(7) by (auto simp: login_accepts_def registry_ok_def)
  then have "registry_inv (registry ?w)"
    using rg.inv_reg [of "registry w" "user_id u" fd] P(7) fd
    by (simp add: logged_in_registry registry_ok_def lookup_absent)
  moreover have "set (active_sessions (sessions w)) \<subseteq> set (active_sessions (sessions ?w))"
    using logged_in_sessions_keep [OF u P(6,8)] .
  ultimately have R: "registry_ok ?w"
    using P(7) S(2) set_active_register [of "user_id u" fd "registry w"]
    by (auto simp: registry_ok_def logged_in_registry)
  have w: "wallet_ok u" using reads_wallet_ok [OF P(1) r] .
  then have "users_inv (snd (write_user ?v w))" using users_inv_update [OF P(1) r] by simp
  then have "users_inv ?w" by (simp add: users_inv_cong [OF logged_in_users])
  then have "world_inv ?w" using S R by (intro world_inv_sessions [OF inv]) simp_all
  moreover have "users_grow w ?w" using users_grow_write [of w ?v] by (simp add: users_grow_def logged_in_users)
  ultimately show ?thesis using r w by (simp add: login_success [OF u])
qed

lemma end_session_inv:
  assumes inv: "world_inv w"
    and w': "sessions w' = sessions (if find_session_slot i w \<ge> 0
           then snd (write_session (find_session_slot i w) zero_Session w) else w)"
      "registry w' = unregister_loop i (registry w)" "users_file w' = users_file w"
      "auctions_file w' = auctions_file w" "bids_file w' = bids_file w" "disputes_file w' = disputes_file w"
      "writable w' = writable w"
  shows "world_inv w' \<and> set (active_sessions (sessions w')) = set (active_sessions (sessions w)) - {i}"
proof -
  note P = world_inv_parts [OF inv]
  have S: "sessions_inv (sessions w') \<and> set (active_sessions (sessions w')) = set (active_sessions (sessions w)) - {i}"
  proof (cases "find_session_slot i w \<ge> 0")
    case True
    with sessions_inv_clear [OF P(6,8) True] w'(1) show ?thesis by simp
  next
    case False
    then show ?thesis using slot_none_iff [of i w] w'(1) P(6) by auto
  qed
  have "distinct (active_users (registry w))" using P(7) by (simp add: registry_ok_def registry_inv_def)
  then have "set (active_users (registry w')) = set (active_users (registry w)) - {i}"
    by (simp add: w'(2) active_unregister)
  then have R: "registry_ok w'"
    using P(7) S rg.inv_unreg [of "registry w" i] unfolding registry_ok_def w'(2) by auto
  have "users_inv w'" using P(1) users_inv_cong [OF w'(3)] by simp
  with S R show ?thesis using world_inv_sessions [OF inv _ R _ w'(4-7)] by simp
qed

lemma logout_inv:
  "world_inv w \<Longrightarrow> world_inv (handle_logout fd u w) \<and>
     set (active_sessions (sessions (handle_logout fd u w))) = set (active_sessions (sessions w)) - {user_id u}"
  by (rule end_session_inv) (simp_all add: logout_sessions)

lemma cleanup_frame [simp, frame_simps]:
  "users_file (cleanup c w) = users_file w" "auctions_file (cleanup c w) = auctions_file w"
  "bids_file (cleanup c w) = bids_file w" "disputes_file (cleanup c w) = disputes_file w"
  "feedback_file (cleanup c w) = feedback_file w" "writable (cleanup c w) = writable w"
  by (simp_all add: cleanup_def Let_def)

lemma cleanup_inv:
  assumes "world_inv w"
  shows "world_inv (cleanup c w) \<and>
    set (active_sessions (sessions (cleanup c w))) = set (active_sessions (sessions w)) -
      (if authenticated c \<and> user_id (current_user c) \<noteq> 0 then {user_id (current_user c)} else {})"
proof (cases "authenticated c \<and> user_id (current_user c) \<noteq> 0")
  case True
  then have "world_inv (cleanup c w) \<and> set (active_sessions (sessions (cleanup c w))) =
      set (active_sessions (sessions w)) - {user_id (current_user c)}"
    by (intro end_session_inv [OF assms]) (simp_all add: cleanup_def Let_def notify_unregister_def)
  with True show ?thesis by simp
next
  case False
  then have "cleanup c w = w" by (auto simp: cleanup_def)
  with False assms show ?thesis by auto
qed

section \<open>Auctions, bids and disputes\<close>

lemma finite_prices_close:
  assumes "finite_prices w" and "auctions w' = map (close_in S) (auctions w)"
    and "bids w' = map f (bids w)" and "flag_only f"
  shows "finite_prices w'"
  using assms by (auto simp: finite_prices_def close_in_def flag_only_keeps)

lemma world_inv_close_in:
  assumes inv: "world_inv w" and A: "auctions w' = map (close_in S) (auctions w)"
    and B: "bids w' = map f (bids w)" "flag_only f" and U: "users_inv w'"
    and rest: "disputes_file w' = disputes_file w" "sessions_file w' = sessions_file w"
      "registry w' = registry w" "writable w' = writable w"
  shows "world_inv w'"
proof -
  note P = world_inv_parts [OF inv]
  have "disputes_inv w'" using P(3) A rest(1) by (intro disputes_close_in [of w w' S]) simp_all
  moreover have "bid_book w'" using bid_book_map [OF A B] P(4) by simp
  moreover have "finite_prices w'" using finite_prices_close [OF P(5) A B] .
  moreover have "registry_ok w'" using P(7) inv_cong(4) [of w' w] rest by simp
  ultimately show ?thesis using P(2,6) inv U A rest by (simp add: world_inv_def numbered_map)
qed

lemma settle_inv:
  assumes inv: "world_inv w" and a: "read_auction i w = Some a" "auction_status a = AUCTION_OPEN"
  shows "world_inv (snd (close_auction_internal a w)) \<and> users_grow w (snd (close_auction_internal a w))"
proof -
  note P = world_inv_parts [OF inv]
  have "is_finite (current_bid a)" using P(5) at.rd_mem [OF a(1)] by (simp add: finite_prices_def)
  then have "users_inv (snd (close_auction_internal a w))" using P(1) by (rule close_inv [rotated])
  moreover obtain f where f: "flag_only f" "bids (snd (close_auction_internal a w)) = map f (bids w)"
    using bids_close by blast
  ultimately have "world_inv (snd (close_auction_internal a w))"
    using world_inv_close_in [OF inv auctions_close [OF P(2,8) a] f(2,1)] by simp
  then show ?thesis using close_accounts [OF P(9), of a] by (simp add: users_grow_kept)
qed

lemma handle_close_inv:
  "world_inv w \<Longrightarrow> world_inv (handle_close_auction fd q u w) \<and> users_grow w (handle_close_auction fd q u w)"
  using settle_inv [of w]
  by (auto simp: handle_close_auction_def Let_def case_prod_beta users_grow_same split: option.split)

lemma users_grow_trans: "users_grow v w \<Longrightarrow> users_grow w x \<Longrightarrow> users_grow v x"
  by (simp add: users_grow_def)

lemma timer_close_inv: "world_inv w \<Longrightarrow> world_inv (timer_close i w) \<and> users_grow w (timer_close i w)"
  using settle_inv [of w]
  by (auto simp: timer_close_def case_prod_beta users_grow_same split: option.split)

lemma timer_tick_inv: "world_inv w \<Longrightarrow> world_inv (timer_tick w) \<and> users_grow w (timer_tick w)"
proof -
  have "world_inv w \<Longrightarrow> world_inv (fold timer_close is w) \<and> users_grow w (fold timer_close is w)" for "is"
  proof (induction "is" arbitrary: w)
    case (Cons i "is")
    with timer_close_inv [OF Cons.prems, of i] Cons.IH [of "timer_close i w"] show ?case
      by (auto intro: users_grow_trans)
  qed (simp add: users_grow_same)
  then show "world_inv w \<Longrightarrow> world_inv (timer_tick w) \<and> users_grow w (timer_tick w)" by (simp add: timer_tick_eq)
qed

lemma place_bid_world_inv:
  assumes inv: "world_inv w" and fin: "is_finite (bid_req_amount q)"
  shows "world_inv (handle_place_bid fd q u w) \<and> users_grow w (handle_place_bid fd q u w)"
proof -
  note P = world_inv_parts [OF inv]
  let ?w = "handle_place_bid fd q u w"
  have U: "users_inv ?w" using place_bid_inv [OF P(1) fin] P(5) by (simp add: finite_prices_def)
  have D: "disputes_inv ?w" using disputes_place_bid [OF P(3,2,8)] .
  have "\<forall>b \<in> set (bids w). bid_amount b \<noteq> NaN" using P(5) by (auto simp: finite_prices_def)
  then have K: "bid_book ?w" using bid_book_place [OF P(4,2,8,8) is_finite_not_NaN [OF fin]] by blast
  have AB: "numbered auction_id (auctions ?w) \<and> finite_prices ?w"
  proof (cases rule: place_bid_cases [where req = q and u = u and w = w and fd = fd])
    case (rejected e)
    then show ?thesis using P(2,5) by (simp add: finite_prices_def)
  next
    case (accepted a)
    have rd: "read_auction (bid_req_auction_id q) w = Some a" using accepted by (simp add: bid_accepts_def)
    have id: "auction_id (raised q u a) = bid_req_auction_id q" using at.rd_ident [OF P(2) rd] by (simp add: raised_def)
    have "numbered auction_id (auctions ?w)"
      using at.numbered_update [OF P(2) rd id] at.rows_update [OF rd id] P(8) accepted_auctions [OF accepted P(2,8)]
      by simp
    then show ?thesis
      using P(5) fin accepted_auctions [OF accepted P(2,8), of fd] accepted_bids [OF accepted P(8), of fd]
      by (auto simp: finite_prices_def raised_def new_bid_def dest!: set_update_subset_insert [THEN subsetD])
  qed
  have "registry_ok ?w" using P(7) inv_cong(4) [of ?w w] by simp
  then have "world_inv ?w" using U D K AB P(6) inv by (simp add: world_inv_def)
  then show ?thesis using place_bid_accounts [OF P(9)] by (simp add: users_grow_kept)
qed

lemma create_world_inv:
  assumes inv: "world_inv w" and room: "room w" and fin: "is_finite (create_start_price q)"
  shows "world_inv (handle_create_auction fd q u w)"
proof -
  note P = world_inv_parts [OF inv]
  let ?w = "handle_create_auction fd q u w" and ?a = "new_auction q u w"
  have len: "length (auctions w) + 1 < 2 ^ 32" using room by (simp add: room_def)
  have id: "auction_id ?a = next_auction_id w" by (simp add: new_auction_def)
  have "numbered auction_id (auctions ?w)"
    using at.numbered_create [OF P(2) id len] P(2)
    by (simp add: handle_create_auction_def Let_def case_prod_beta)
  moreover have "finite_prices ?w"
    using P(5) fin at.rows_create [OF id] len
    by (auto simp: handle_create_auction_def Let_def case_prod_beta finite_prices_def new_auction_def)
  moreover have "registry_ok ?w" using P(7) inv_cong(4) [of ?w w] by simp
  moreover have "users_inv ?w" using P(1) users_inv_cong [of ?w w] by simp
  ultimately show ?thesis
    using disputes_create [OF P(3) len] bid_book_create [OF P(4,2) len] P(6) inv by (simp add: world_inv_def)
qed

lemma status_book:
  assumes A: "auctions w' = (auctions w)[k := a\<lparr>auction_status := s\<rparr>]" and k: "k < length (auctions w)"
    and a: "auctions w ! k = a" and B: "bids w' = bids w"
    and inv: "bid_book w" "finite_prices w" "numbered auction_id (auctions w)"
  shows "bid_book w' \<and> finite_prices w' \<and> numbered auction_id (auctions w')"
proof -
  have "a \<in> set (auctions w)" using k a by auto
  then have "finite_prices w'"
    using inv(2) A B by (auto simp: finite_prices_def dest!: set_update_subset_insert [THEN subsetD])
  moreover have "numbered auction_id (auctions w')"
    using inv(3) A k a by (auto simp: numbered_def nth_list_update)
  ultimately show ?thesis using bid_book_status [OF A k a B inv(1)] by simp
qed

lemma world_inv_status:
  assumes inv: "world_inv w" and a: "read_auction i w = Some a"
    and A: "auctions w' = (auctions w)[slot_of i := a\<lparr>auction_status := s\<rparr>]" and B: "bids w' = bids w"
    and D: "disputes_inv w'" and U: "users_inv w'"
    and rest: "sessions_file w' = sessions_file w" "registry w' = registry w" "writable w' = writable w"
  shows "world_inv w'"
proof -
  note P = world_inv_parts [OF inv]
  have "slot_of i < length (auctions w)" "auctions w ! slot_of i = a" using a by (simp_all add: at.rd_Some)
  from status_book [OF A this B P(4,5,2)] show ?thesis
    using D U P(6,7) inv_cong(4) [of w' w] rest inv by (simp add: world_inv_def)
qed

lemma world_inv_disputes:
  assumes inv: "world_inv w" and "auctions_file w' = auctions_file w" and "bids_file w' = bids_file w"
    and "disputes_inv w'" and "users_inv w'"
    and "sessions_file w' = sessions_file w" "registry w' = registry w" "writable w' = writable w"
  shows "world_inv w'"
  using assms inv_cong [of w' w] by (simp add: world_inv_def)

lemma file_dispute_world_inv:
  assumes inv: "world_inv w" and room: "room w"
  shows "world_inv (handle_file_dispute fd q u w)"
proof -
  note P = world_inv_parts [OF inv]
  let ?w = "handle_file_dispute fd q u w"
  have D: "disputes_inv ?w" using disputes_file_dispute [OF P(3,2,8)] room by (simp add: room_def)
  have U: "users_inv ?w" using P(1) users_inv_cong [of ?w w] by simp
  show ?thesis
  proof (cases "\<exists>a. read_auction (file_auction_id q) w = Some a \<and> auction_status a = AUCTION_CLOSED")
    case False
    then have "auctions_file ?w = auctions_file w"
      by (auto simp: handle_file_dispute_def split: option.split)
    then show ?thesis using D U by (intro world_inv_disputes [OF inv]) simp_all
  next
    case True
    then obtain a where a: "read_auction (file_auction_id q) w = Some a" "auction_status a = AUCTION_CLOSED" by blast
    let ?a = "a\<lparr>auction_status := AUCTION_DISPUTED\<rparr>" and ?w1 = "snd (write_dispute (new_dispute q u w) w)"
    have id: "auction_id ?a = file_auction_id q" using at.rd_ident [OF P(2) a(1)] by simp
    have "auctions ?w = auctions (snd (write_auction ?a ?w1))"
      using a dt.wr_status [of "new_dispute q u w" w] P(8)
      by (simp add: handle_file_dispute_def Let_def case_prod_beta)
    also have "\<dots> = (auctions w)[slot_of (file_auction_id q) := ?a]"
      using at.rows_update [of "file_auction_id q" ?w1 a ?a] a(1) id P(8) by simp
    finally show ?thesis using D U by (intro world_inv_status [OF inv a(1)]) simp_all
  qed
qed

lemma refund_inv:
  assumes "users_inv w" and "is_finite (current_bid a)"
  shows "users_inv (refund d a w) \<and> accounts_kept w (refund d a w)"
proof -
  have "numbered user_id (users w)" using assms(1) by (simp add: users_inv_def)
  then show ?thesis
    using assms by (auto simp: refund_def Let_def wallet_inv wallet_kept accounts_kept_refl split: option.split)
qed

lemma resolve_world_inv:
  assumes inv: "world_inv w"
  shows "world_inv (handle_resolve_dispute fd q u w) \<and> users_grow w (handle_resolve_dispute fd q u w)"
proof (cases "resolve_new_status q \<in> {DISPUTE_RESOLVED, DISPUTE_REJECTED} \<and>
    (\<exists>d. read_dispute (resolve_dispute_id q) w = Some d \<and> dispute_status d = DISPUTE_OPEN)")
  case False
  then have "\<exists>e. handle_resolve_dispute fd q u w = send_msg fd MSG_RESOLVE_DISPUTE_RESP e P_None w"
    by (auto simp: handle_resolve_dispute_def split: option.split)
  with inv show ?thesis by (auto simp: users_grow_same)
next
  case True
  note P = world_inv_parts [OF inv]
  let ?w = "handle_resolve_dispute fd q u w"
  from True obtain d where d: "read_dispute (resolve_dispute_id q) w = Some d" "dispute_status d = DISPUTE_OPEN"
    by blast
  let ?d = "decided q u (now w) d" and ?w1 = "snd (write_dispute (decided q u (now w) d) w)"
  have "standing d" using d(2) by (simp add: standing_def)
  then obtain a where a: "read_auction (dispute_auction_id d) w = Some a" "auction_status a = AUCTION_DISPUTED"
    using P(3) dt.rd_mem [OF d(1)] by (auto simp: disputes_inv_def)
  have fin: "is_finite (current_bid a)" using P(5) at.rd_mem [OF a(1)] by (simp add: finite_prices_def)
  let ?a = "a\<lparr>auction_status := AUCTION_CLOSED\<rparr>"
  let ?w2 = "if resolve_new_status q = DISPUTE_RESOLVED then refund ?d a ?w1 else snd (write_auction ?a ?w1)"
  have aid: "dispute_auction_id ?d = dispute_auction_id d" by (simp add: decided_def)
  have w: "?w = log_txn (L_RESOLVE_DISPUTE (dispute_id ?d) (dispute_status ?d) (user_id u))
      (send_msg fd MSG_RESOLVE_DISPUTE_RESP ERR_OK (P_Dispute ?d) ?w2)"
    using True d a aid by (auto simp: handle_resolve_dispute_def Let_def)
  have D: "disputes_inv ?w2" using disputes_resolve [OF P(3,2,8,8), of fd q u] by (simp add: w)
  have U: "users_inv ?w2 \<and> users_grow w ?w2"
  proof (cases "resolve_new_status q = DISPUTE_RESOLVED")
    case True
    have "users_inv ?w1" using P(1) by simp
    then have "users_inv (refund ?d a ?w1)" "accounts_kept ?w1 (refund ?d a ?w1)"
      using refund_inv [of ?w1 a ?d] fin by blast+
    then show ?thesis using True accounts_kept_length [of ?w1 "refund ?d a ?w1"] by (simp add: users_grow_def)
  qed (use P(1) in \<open>simp add: users_grow_same\<close>)
  have "world_inv ?w2"
  proof (cases "resolve_new_status q = DISPUTE_RESOLVED")
    case True
    then show ?thesis using D U by (intro world_inv_disputes [OF inv]) auto
  next
    case False
    have id: "auction_id ?a = dispute_auction_id d" using at.rd_ident [OF P(2) a(1)] by simp
    have "auctions ?w2 = (auctions w)[slot_of (dispute_auction_id d) := ?a]"
      using at.rows_update [of "dispute_auction_id d" ?w1 a ?a] a(1) id P(8) False by simp
    then show ?thesis using D U False by (intro world_inv_status [OF inv a(1)]) auto
  qed
  then show ?thesis using U by (simp add: w)
qed

section \<open>Every request keeps the invariant\<close>

lemma conn_ok_grow: "conn_ok w c \<Longrightarrow> users_grow w w' \<Longrightarrow> conn_ok w' c"
  using users_grow_read by (auto simp: conn_ok_def)

lemma serve_inv:
  assumes inv: "world_inv w" and room: "room w" and c: "conn_ok w c" and fin: "finite_request rq"
  shows "world_inv (snd (serve_request popen rq c w)) \<and> users_grow w (snd (serve_request popen rq c w)) \<and>
    conn_ok (snd (serve_request popen rq c w)) (fst (serve_request popen rq c w))"
proof (cases "\<not> authenticated c \<and> \<not> is_login rq")
  case True
  with inv c show ?thesis by (simp add: serve_request_def users_grow_same conn_ok_def)
next
  case False
  then have sv: "serve_request popen rq c w = dispatch popen rq c w" by (auto simp: serve_request_def)
  note P = world_inv_parts [OF inv]
  have same: "world_inv w' \<and> users_grow w w' \<and> conn_ok w' c"
    if "world_inv w'" "users_grow w w'" for w' using that conn_ok_grow [OF c] by blast
  have files: "world_inv w' \<and> users_grow w w' \<and> conn_ok w' c"
    if "users_file w' = users_file w" "auctions_file w' = auctions_file w" "bids_file w' = bids_file w"
      "disputes_file w' = disputes_file w" "sessions_file w' = sessions_file w" "registry w' = registry w"
      "writable w' = writable w" for w'
    using world_inv_same [OF inv that] users_grow_same [OF that(1)] by (intro same)
  have users: "world_inv w' \<and> users_grow w w' \<and> conn_ok w' c"
    if "users_inv w' \<and> users_grow w w'" "auctions_file w' = auctions_file w" "bids_file w' = bids_file w"
      "disputes_file w' = disputes_file w" "sessions_file w' = sessions_file w" "registry w' = registry w"
      "writable w' = writable w" for w'
    using world_inv_users [OF inv, of w'] that by (intro same) auto
  have auth: "\<not> is_login rq \<Longrightarrow> authenticated c" using False by blast
  let ?G = "\<lambda>w'. world_inv w' \<and> users_grow w w' \<and> conn_ok w' c"
  have den: "?G (denied c w)" by (rule files) simp_all
  show ?thesis
  proof (cases rq)
    case (RQ_LOGIN q)
    let ?l = "handle_login popen (conn_fd c) q (current_user c) w"
    have fd: "0 < conn_fd c" using c by (simp add: conn_ok_def)
    have l: "world_inv (snd (snd ?l))" "users_grow w (snd (snd ?l))"
      "fst ?l \<Longrightarrow> \<exists>r. read_user (user_id (fst (snd ?l))) w = Some r" "fst ?l \<Longrightarrow> wallet_ok (fst (snd ?l))"
      using login_inv [OF inv fd, of popen q "current_user c"] by blast+
    have "\<exists>r. read_user (user_id (fst (snd ?l))) (snd (snd ?l)) = Some r" if "fst ?l"
      using l(3) [OF that] users_grow_read [OF l(2)] by blast
    with l(1,2,4) fd show ?thesis
      unfolding RQ_LOGIN sv [unfolded RQ_LOGIN] by (simp add: case_prod_beta conn_ok_def)
  next
    case RQ_LOGOUT
    have "?G (handle_logout (conn_fd c) (current_user c) w)"
      using logout_inv [OF inv] by (intro same) (simp_all add: users_grow_same)
    then show ?thesis unfolding RQ_LOGOUT sv [unfolded RQ_LOGOUT] by (simp add: conn_ok_def)
  next
    case (RQ_CHANGE_PASS q)
    then have "authenticated c" using auth by simp
    then obtain r where "read_user (user_id (current_user c)) w = Some r" "wallet_ok (current_user c)"
      using c by (auto simp: conn_ok_def)
    from change_password_inv [OF P(1) this, of popen "conn_fd c" q]
    have cp: "users_inv (snd (handle_change_password popen (conn_fd c) q (current_user c) w)) \<and>
      users_grow w (snd (handle_change_password popen (conn_fd c) q (current_user c) w))"
      "user_id (fst (handle_change_password popen (conn_fd c) q (current_user c) w)) = user_id (current_user c)"
      "wallet_ok (fst (handle_change_password popen (conn_fd c) q (current_user c) w))" by blast+
    from users [OF cp(1)] cp(2,3) show ?thesis unfolding RQ_CHANGE_PASS sv [unfolded RQ_CHANGE_PASS]
      using c by (simp add: case_prod_beta conn_ok_def)
  next
    case (RQ_DEPOSIT q)
    then have "wallet_ok (current_user c)" using auth c by (simp add: conn_ok_def)
    from deposit_inv [OF P(1) _ this, of q "conn_fd c"] fin RQ_DEPOSIT
    have dp: "users_inv (snd (handle_deposit (conn_fd c) q (current_user c) w)) \<and>
      users_grow w (snd (handle_deposit (conn_fd c) q (current_user c) w))"
      "user_id (fst (handle_deposit (conn_fd c) q (current_user c) w)) = user_id (current_user c)"
      "wallet_ok (fst (handle_deposit (conn_fd c) q (current_user c) w))" by simp_all
    from users [OF dp(1)] dp(2,3) show ?thesis unfolding RQ_DEPOSIT sv [unfolded RQ_DEPOSIT]
      using c by (simp add: case_prod_beta conn_ok_def)
  next
    case (RQ_PLACE_BID q)
    have "?G (handle_place_bid (conn_fd c) q (current_user c) w)" using place_bid_world_inv [OF inv, of q] fin RQ_PLACE_BID
      by (intro same) simp_all
    with den show ?thesis unfolding RQ_PLACE_BID sv [unfolded RQ_PLACE_BID] by simp
  next
    case (RQ_CREATE_AUCTION q)
    have "?G (handle_create_auction (conn_fd c) q (current_user c) w)" using create_world_inv [OF inv room, of q] fin RQ_CREATE_AUCTION
      by (intro same) (simp_all add: users_grow_same)
    with den show ?thesis unfolding RQ_CREATE_AUCTION sv [unfolded RQ_CREATE_AUCTION] by simp
  next
    case (RQ_CLOSE_AUCTION q)
    have "?G (handle_close_auction (conn_fd c) q (current_user c) w)" using handle_close_inv [OF inv] by (intro same) simp_all
    with den show ?thesis unfolding RQ_CLOSE_AUCTION sv [unfolded RQ_CLOSE_AUCTION] by simp
  next
    case (RQ_FILE_DISPUTE q)
    have "?G (handle_file_dispute (conn_fd c) q (current_user c) w)" using file_dispute_world_inv [OF inv room]
      by (intro same) (simp_all add: users_grow_same)
    with den show ?thesis unfolding RQ_FILE_DISPUTE sv [unfolded RQ_FILE_DISPUTE] by simp
  next
    case (RQ_RESOLVE_DISPUTE q)
    have "?G (handle_resolve_dispute (conn_fd c) q (current_user c) w)" using resolve_world_inv [OF inv] by (intro same) simp_all
    with den show ?thesis unfolding RQ_RESOLVE_DISPUTE sv [unfolded RQ_RESOLVE_DISPUTE] by simp
  next
    case (RQ_TOGGLE_ACCOUNT q)
    have "?G (handle_toggle_account (conn_fd c) q (current_user c) w)" by (rule users [OF toggle_inv [OF P(1)]]) simp_all
    with den show ?thesis unfolding RQ_TOGGLE_ACCOUNT sv [unfolded RQ_TOGGLE_ACCOUNT] by simp
  next
    case (RQ_ADD_USER q)
    have "?G (handle_add_user popen (conn_fd c) q w)" by (rule users [OF add_user_inv [OF P(1) room]]) simp_all
    with den show ?thesis unfolding RQ_ADD_USER sv [unfolded RQ_ADD_USER] by simp
  next
    case (RQ_CHANGE_ROLE q)
    have "?G (handle_change_role (conn_fd c) q w)" by (rule users [OF change_role_inv [OF P(1)]]) simp_all
    with den show ?thesis unfolding RQ_CHANGE_ROLE sv [unfolded RQ_CHANGE_ROLE] by simp
  next
    case RQ_VIEW_AUCTIONS
    have "?G (handle_view_auctions (conn_fd c) w)" by (rule files) simp_all
    with den show ?thesis unfolding RQ_VIEW_AUCTIONS sv [unfolded RQ_VIEW_AUCTIONS] by simp
  next
    case RQ_VIEW_BALANCE
    have "?G (handle_view_balance (conn_fd c) (current_user c) w)" by (rule files) simp_all
    with den show ?thesis unfolding RQ_VIEW_BALANCE sv [unfolded RQ_VIEW_BALANCE] by simp
  next
    case RQ_VIEW_MY_BIDS
    have "?G (handle_view_my_bids (conn_fd c) (current_user c) w)" by (rule files) simp_all
    with den show ?thesis unfolding RQ_VIEW_MY_BIDS sv [unfolded RQ_VIEW_MY_BIDS] by simp
  next
    case (RQ_SUBMIT_FEEDBACK q)
    have "?G (handle_submit_feedback (conn_fd c) q (current_user c) w)" by (rule files) simp_all
    with den show ?thesis unfolding RQ_SUBMIT_FEEDBACK sv [unfolded RQ_SUBMIT_FEEDBACK] by simp
  next
    case RQ_VIEW_DISPUTES
    have "?G (handle_view_disputes (conn_fd c) w)" by (rule files) simp_all
    with den show ?thesis unfolding RQ_VIEW_DISPUTES sv [unfolded RQ_VIEW_DISPUTES] by simp
  next
    case RQ_VIEW_FEEDBACK
    have "?G (handle_view_feedback (conn_fd c) w)" by (rule files) simp_all
    with den show ?thesis unfolding RQ_VIEW_FEEDBACK sv [unfolded RQ_VIEW_FEEDBACK] by simp
  next
    case RQ_LIST_USERS
    have "?G (handle_list_users (conn_fd c) w)" by (rule files) simp_all
    with den show ?thesis unfolding RQ_LIST_USERS sv [unfolded RQ_LIST_USERS] by simp
  next
    case RQ_OTHER
    have "?G (send_msg (conn_fd c) MSG_ERROR ERR_INTERNAL P_None w)" by (rule files) simp_all
    with den show ?thesis unfolding RQ_OTHER sv [unfolded RQ_OTHER] by simp
  qed
qed

section \<open>The steps of the system\<close>

record system =
  sys_world :: world
  sys_conns :: "int \<rightharpoonup> conn"

inductive sys_step :: "shell \<Rightarrow> (conn \<Rightarrow> request \<Rightarrow> bool) \<Rightarrow> system \<Rightarrow> system \<Rightarrow> bool"
  for popen :: shell and ok :: "conn \<Rightarrow> request \<Rightarrow> bool" where
  connect:
    "0 < fd \<Longrightarrow> sys_conns s fd = None \<Longrightarrow>
     sys_step popen ok s (s\<lparr>sys_conns := (sys_conns s)(fd \<mapsto> new_conn fd)\<rparr>)"
| request:
    "sys_conns s fd = Some c \<Longrightarrow> running c \<Longrightarrow> ok c rq \<Longrightarrow>
     serve_request popen rq c (sys_world s) = (c', w') \<Longrightarrow> room w' \<Longrightarrow>
     sys_step popen ok s \<lparr>sys_world = w', sys_conns = (sys_conns s)(fd \<mapsto> c')\<rparr>"
| hangup:
    "sys_conns s fd = Some c \<Longrightarrow>
     sys_step popen ok s \<lparr>sys_world = cleanup c (sys_world s), sys_conns = (sys_conns s)(fd := None)\<rparr>"
| timer: "sys_step popen ok s (s\<lparr>sys_world := timer_tick (sys_world s)\<rparr>)"
| clock: "now (sys_world s) \<le> t \<Longrightarrow> sys_step popen ok s (s\<lparr>sys_world := (sys_world s)\<lparr>now := t\<rparr>\<rparr>)"

inductive_cases sys_stepE: "sys_step popen ok s s'"

inductive reachable :: "shell \<Rightarrow> (conn \<Rightarrow> request \<Rightarrow> bool) \<Rightarrow> world \<Rightarrow> system \<Rightarrow> bool"
  for popen :: shell and ok :: "conn \<Rightarrow> request \<Rightarrow> bool" and w0 :: world where
  start: "reachable popen ok w0 \<lparr>sys_world = w0, sys_conns = Map.empty\<rparr>"
| step: "reachable popen ok w0 s \<Longrightarrow> sys_step popen ok s s' \<Longrightarrow> reachable popen ok w0 s'"

definition start_world :: "shell \<Rightarrow> (dbfile \<Rightarrow> bool) \<Rightarrow> time_t \<Rightarrow> world" where
  \<comment> \<open>an empty data directory in which \<^verbatim>\<open>seed_admin\<close> has been run\<close>
  "start_world popen wr t =
     snd (seed_main popen
       \<lparr>users_file = None, auctions_file = None, bids_file = None, sessions_file = None,
        feedback_file = None, disputes_file = None, txn_log = [], writable = wr,
        registry = empty_registry, sent = [], now = t\<rparr>)"

definition sys_inv :: "system \<Rightarrow> bool" where
  "sys_inv s \<longleftrightarrow>
     world_inv (sys_world s) \<and> room (sys_world s) \<and>
     (\<forall>fd c. sys_conns s fd = Some c \<longrightarrow> conn_fd c = fd \<and> conn_ok (sys_world s) c)"

lemma start_world_inv: "world_inv (start_world popen (\<lambda>_. True) t) \<and> room (start_world popen (\<lambda>_. True) t)"
  using rg.inv_empty
  by (simp add: world_inv_def room_def start_world_def seed_main_def seed_admin_def Let_def users_inv_def numbered_eval
      wallet_ok_def zero_rs disputes_inv_def bid_book_def finite_prices_def sessions_inv_def registry_ok_def
      empty_registry_def active_users_def)

lemma new_conn_fields [simp]:
  "conn_fd (new_conn fd) = fd" "\<not> authenticated (new_conn fd)" "current_user (new_conn fd) = zero_User"
  "running (new_conn fd)"
  by (simp_all add: new_conn_def)

lemma new_conn_ok: "0 < fd \<Longrightarrow> conn_ok w (new_conn fd)"
  by (simp add: conn_ok_def)

lemma timer_tick_room:
  assumes "world_inv w" and "room w"
  shows "room (timer_tick w)"
proof -
  note P = world_inv_parts [OF assms(1)]
  have "length (users (timer_tick w)) = length (users w)"
    unfolding timer_tick_eq by (rule accounts_kept_length [OF fold_timer_accounts [OF P(9)]])
  moreover have "length (auctions (timer_tick w)) = length (auctions w)"
    by (simp add: timer_tick_auctions [OF P(2,8)])
  ultimately show ?thesis using assms(2) by (simp add: room_def)
qed

lemma clock_inv: "world_inv (w\<lparr>now := t\<rparr>) = world_inv w" "conn_ok (w\<lparr>now := t\<rparr>) c = conn_ok w c"
  "room (w\<lparr>now := t\<rparr>) = room w"
  by (simp_all add: world_inv_def users_inv_def disputes_inv_def bid_book_def finite_prices_def registry_ok_def
      read_auction_def conn_ok_def read_user_def room_def)

lemma step_inv:
  assumes inv: "sys_inv s" and ok: "\<And>c rq. ok c rq \<Longrightarrow> finite_request rq" and "sys_step popen ok s s'"
  shows "sys_inv s'"
  using assms(3)
proof (cases rule: sys_stepE [consumes 1, case_names connect request hangup timer clock])
  case (connect fd)
  with inv show ?thesis by (auto simp: sys_inv_def new_conn_ok)
next
  case (request fd c rq c' w')
  have c: "conn_ok (sys_world s) c" "conn_fd c = fd" using inv request(2) by (auto simp: sys_inv_def)
  have W: "world_inv w'" "users_grow (sys_world s) w'" "conn_ok w' c'"
    using serve_inv [of "sys_world s" c rq popen] inv c(1) ok [OF request(4)] request(5) by (auto simp: sys_inv_def)
  have "conn_fd c' = fd"
    using request(5) c(2) by (cases rq) (auto simp: serve_request_def case_prod_beta split: if_splits)
  then show ?thesis
    using W request inv conn_ok_grow [OF _ W(2)] by (auto simp: sys_inv_def)
next
  case (hangup fd c)
  have "conn_ok (cleanup c (sys_world s)) x = conn_ok (sys_world s) x" for x
    by (simp add: conn_ok_def read_user_def)
  with hangup inv cleanup_inv [of "sys_world s" c] show ?thesis
    by (auto simp: sys_inv_def room_def split: if_splits)
next
  case timer
  with inv timer_tick_inv [of "sys_world s"] timer_tick_room [of "sys_world s"] show ?thesis
    by (auto simp: sys_inv_def intro: conn_ok_grow)
next
  case (clock t)
  with inv show ?thesis by (auto simp: sys_inv_def clock_inv)
qed

lemma reachable_inv:
  assumes "reachable popen ok w0 s" and "world_inv w0" and "room w0" and "\<And>c rq. ok c rq \<Longrightarrow> finite_request rq"
  shows "sys_inv s"
  using assms(1)
proof (induction rule: reachable.induct)
  case start
  with assms show ?case by (simp add: sys_inv_def)
next
  case (step s s')
  with assms(4) show ?case by (blast intro: step_inv)
qed

section \<open>Sessions and connections\<close>

definition polite :: "conn \<Rightarrow> request \<Rightarrow> bool" where
  \<comment> \<open>finite amounts, and no second login on an authenticated connection\<close>
  "polite c rq \<longleftrightarrow> finite_request rq \<and> (authenticated c \<longrightarrow> \<not> is_login rq)"

definition sessions_open :: "system \<Rightarrow> bool" where
  \<comment> \<open>every active session belongs to an open, authenticated connection\<close>
  "sessions_open s \<longleftrightarrow>
     (\<forall>i \<in> set (active_sessions (sessions (sys_world s))). i \<noteq> 0 \<and>
        (\<exists>fd c. sys_conns s fd = Some c \<and> authenticated c \<and> user_id (current_user c) = i))"

lemma logged_in_sessions_sub:
  assumes "login_accepts popen q w u" and "writable w FILE_SESSIONS"
  shows "set (active_sessions (sessions (logged_in_world fd u w))) \<subseteq> insert (user_id u) (set (active_sessions (sessions w)))"
proof -
  have "fst (find_free_slot w) \<ge> 0" using assms(1) by (simp add: login_accepts_def)
  from sessions_create_eq [OF assms(2) this, of "session_record fd u w"] show ?thesis
    using set_active_update [of "sessions w" "nat (fst (find_free_slot w))" "session_record fd u w"]
    by (auto simp: logged_in_sessions session_record_def split: if_splits)
qed

lemma serve_user:
  assumes inv: "world_inv w" and c: "conn_ok w c" and fin: "finite_request rq" and nl: "\<not> is_login rq"
  shows "authenticated (fst (serve_request popen rq c w)) = authenticated c \<and>
    user_id (current_user (fst (serve_request popen rq c w))) = user_id (current_user c)"
proof (cases "authenticated c")
  case False
  with nl show ?thesis by (simp add: serve_request_def)
next
  case True
  then obtain r where r: "read_user (user_id (current_user c)) w = Some r" "wallet_ok (current_user c)"
    using c by (auto simp: conn_ok_def)
  note P = world_inv_parts [OF inv]
  show ?thesis
    using nl fin True change_password_inv [OF P(1) r] deposit_inv [OF P(1) _ r(2)]
    by (cases rq) (simp_all add: serve_request_def case_prod_beta)
qed

lemma serve_sessions_sub:
  assumes inv: "world_inv w" and c: "conn_ok w c" and p: "polite c rq"
  shows "\<forall>i \<in> set (active_sessions (sessions (snd (serve_request popen rq c w)))).
    i \<in> set (active_sessions (sessions w)) \<or>
    (authenticated (fst (serve_request popen rq c w)) \<and>
     user_id (current_user (fst (serve_request popen rq c w))) = i \<and> i \<noteq> 0)"
proof (cases rq)
  case (RQ_LOGIN q)
  note P = world_inv_parts [OF inv]
  show ?thesis
  proof (cases "\<exists>u. login_accepts popen q w u")
    case True
    then obtain u where u: "login_accepts popen q w u" ..
    have "read_user (user_id u) w = Some u"
      using u P(9) by (auto simp: login_accepts_def intro: find_user_read)
    then have "user_id u \<noteq> 0" using P(9) by (auto simp: ut.rd_Some slot_of_0 numbered_def)
    then show ?thesis
      using logged_in_sessions_sub [OF u P(8), of "conn_fd c"]
      by (auto simp: RQ_LOGIN serve_request_def login_success [OF u])
  next
    case False
    from login_failure [OF False, of "conn_fd c" "current_user c"] show ?thesis
      by (auto simp: RQ_LOGIN serve_request_def)
  qed
next
  case RQ_LOGOUT
  then show ?thesis using logout_inv [OF inv] by (simp add: serve_request_def)
qed (use serve_sessions(1) [of rq popen c w] in simp_all)

lemma conn_of_user:
  assumes "sys_conns s fd = Some c" and "authenticated c \<Longrightarrow> authenticated c' \<and> user_id (current_user c') = user_id (current_user c)"
    and "sys_conns s g = Some d" "authenticated d" "user_id (current_user d) = i"
  shows "\<exists>g d. ((sys_conns s)(fd \<mapsto> c')) g = Some d \<and> authenticated d \<and> user_id (current_user d) = i"
proof (cases "g = fd")
  case True
  with assms show ?thesis by (intro exI [of _ fd] exI [of _ c']) auto
next
  case False
  with assms(3-5) show ?thesis by (intro exI [of _ g] exI [of _ d]) auto
qed

lemma sessions_open_step:
  assumes inv: "sys_inv s" and op: "sessions_open s" and st: "sys_step popen polite s s'"
  shows "sessions_open s'"
  using st
proof (cases rule: sys_stepE [consumes 1, case_names connect request hangup timer clock])
  case (connect fd)
  show ?thesis unfolding sessions_open_def
  proof
    fix i
    assume "i \<in> set (active_sessions (sessions (sys_world s')))"
    then obtain g d where "i \<noteq> 0" "sys_conns s g = Some d" "authenticated d" "user_id (current_user d) = i"
      using op by (auto simp: connect(1) sessions_open_def)
    with connect(3) show "i \<noteq> 0 \<and> (\<exists>fd c. sys_conns s' fd = Some c \<and> authenticated c \<and> user_id (current_user c) = i)"
      by (intro conjI exI [of _ g] exI [of _ d]) (auto simp: connect(1))
  qed
next
  case (request fd c rq c' w')
  have c: "conn_ok (sys_world s) c" "world_inv (sys_world s)" using inv request(2) by (auto simp: sys_inv_def)
  have fin: "finite_request rq" using request(4) by (simp add: polite_def)
  have sv: "fst (serve_request popen rq c (sys_world s)) = c'" "snd (serve_request popen rq c (sys_world s)) = w'"
    using request(5) by simp_all
  have keep: "authenticated c' \<and> user_id (current_user c') = user_id (current_user c)" if "authenticated c"
    using serve_user [OF c(2,1) fin, of popen] request(4) that sv(1) by (simp add: polite_def)
  show ?thesis unfolding sessions_open_def
  proof
    fix i
    assume "i \<in> set (active_sessions (sessions (sys_world s')))"
    then consider "i \<in> set (active_sessions (sessions (sys_world s)))"
      | "authenticated c'" "user_id (current_user c') = i" "i \<noteq> 0"
      using serve_sessions_sub [OF c(2,1) request(4), of popen] sv request(1) by auto
    then show "i \<noteq> 0 \<and> (\<exists>fd c. sys_conns s' fd = Some c \<and> authenticated c \<and> user_id (current_user c) = i)"
    proof cases
      case 1
      then obtain g d where "i \<noteq> 0" "sys_conns s g = Some d" "authenticated d" "user_id (current_user d) = i"
        using op by (auto simp: sessions_open_def)
      with conn_of_user [OF request(2) keep] show ?thesis by (simp add: request(1))
    next
      case 2
      then show ?thesis by (auto simp: request(1))
    qed
  qed
next
  case (hangup fd c)
  have "world_inv (sys_world s)" using inv by (simp add: sys_inv_def)
  note cl = cleanup_inv [OF this, of c, THEN conjunct2]
  show ?thesis unfolding sessions_open_def
  proof
    fix i
    assume i: "i \<in> set (active_sessions (sessions (sys_world s')))"
    then have "i \<in> set (active_sessions (sessions (sys_world s)))" using cl by (simp add: hangup(1) split: if_splits)
    then obtain g d where d: "i \<noteq> 0" "sys_conns s g = Some d" "authenticated d" "user_id (current_user d) = i"
      using op by (auto simp: sessions_open_def)
    have "g \<noteq> fd" using d i hangup(2) cl by (auto simp: hangup(1))
    with d show "i \<noteq> 0 \<and> (\<exists>fd c. sys_conns s' fd = Some c \<and> authenticated c \<and> user_id (current_user c) = i)"
      by (auto simp: hangup(1))
  qed
next
  case timer
  with op show ?thesis by (simp add: sessions_open_def)
next
  case (clock t)
  with op show ?thesis by (simp add: sessions_open_def)
qed

section \<open>A concrete run\<close>

text \<open>The seeded administrator connects, logs in and creates an auction.\<close>

lemma seed_sha: "popen (sha256_cmd i) = Some txt \<Longrightarrow> seed_sha256_hex popen i out = sha256_hex popen i out"
  by (simp add: seed_sha256_hex_def sha256_hex_def)

lemma seed_fields [simp]:
  "user_id (seed_admin popen t) = 1" "role (seed_admin popen t) = ROLE_ADMIN"
  "acct_status (seed_admin popen t) = ACCOUNT_ACTIVE" "user_deleted (seed_admin popen t) = False"
  by (simp_all add: seed_admin_def Let_def)

lemma seed_password: "password (seed_admin sample_shell t) = replicate 64 CHR ''a''"
proof -
  let ?c = "sha256_cmd ''admin123''"
  have p: "sample_shell ?c = Some (replicate 64 CHR ''a'' @ newline # [])" by (simp add: sample_shell_def)
  have "sha256_hex sample_shell ''admin123'' out = replicate 64 CHR ''a'' @ [NUL] @ drop 65 out" for out
    using sha256_hex_digest [OF sample_digest, of sample_shell "''admin123''" "[]" out] p by blast
  moreover have "seed_sha256_hex sample_shell ''admin123'' out = sha256_hex sample_shell ''admin123'' out" for out
    using seed_sha p by blast
  ultimately show ?thesis by (simp add: seed_admin_def Let_def MAX_PASSWORD_def)
qed

definition seeded :: world where
  "seeded = start_world sample_shell (\<lambda>_. True) 65"

lemma seeded_files [simp]:
  "users seeded = [seed_admin sample_shell 65]" "sessions seeded = []" "auctions seeded = []"
  "disputes seeded = []" "bids seeded = []" "writable seeded f" "registry seeded = empty_registry" "now seeded = 65"
  by (simp_all add: seeded_def start_world_def seed_main_def)

definition admin_login :: LoginPayload where
  "admin_login = \<lparr>login_username = c_array 32 ''admin'', login_password = ''admin123''\<rparr>"

lemma seeded_login: "login_accepts sample_shell admin_login seeded (seed_admin sample_shell 65)"
proof -
  have "cstring (take 32 (username (seed_admin sample_shell 65))) = ''admin''"
    by (simp add: seed_admin_def Let_def zero_User_def MAX_USERNAME_def strncpy_def cstring_id
        replicate_append_same)
  then have "find_user_by_username (c_array 32 ''admin'') seeded = Some (seed_admin sample_shell 65)"
    by (simp add: find_user_by_username_def strncmp_eq_def c_array_cstring MAX_USERNAME_def)
  then show ?thesis
    by (simp add: login_accepts_def admin_login_def seed_password find_free_slot_def MAX_SESSIONS_def)
qed

abbreviation admin_user :: User where
  "admin_user \<equiv> seed_admin sample_shell 65\<lparr>last_login := 65\<rparr>"

definition admin_conn :: conn where
  "admin_conn = new_conn 7\<lparr>authenticated := True, current_user := admin_user\<rparr>"

definition admin_world :: world where
  "admin_world = logged_in_world 7 (seed_admin sample_shell 65) seeded"

lemma admin_files [simp]:
  "users admin_world = [admin_user]" "auctions admin_world = []" "disputes admin_world = []"
  "bids admin_world = []" "writable admin_world f" "now admin_world = 65"
proof -
  have "read_user 1 seeded = Some (seed_admin sample_shell 65)" by (simp add: ut.rd_rows slot_of_def)
  from ut.rows_update [OF this, of admin_user] show "users admin_world = [admin_user]"
    by (simp add: admin_world_def logged_in_users slot_of_def)
qed (simp_all add: admin_world_def)

lemma admin_active: "1 \<in> set (active_sessions (sessions admin_world))"
  using logged_in_sessions_inv [OF seeded_login, of 7] by (simp add: admin_world_def sessions_inv_def)

lemma reachable_connect:
  "reachable popen ok w \<lparr>sys_world = w, sys_conns = [7 \<mapsto> new_conn 7]\<rparr>"
  using reachable.step [OF reachable.start sys_step.connect [of 7 "\<lparr>sys_world = w, sys_conns = Map.empty\<rparr>"]]
  by simp

lemma login_step:
  assumes "ok (new_conn 7) (RQ_LOGIN admin_login)"
  shows "sys_step sample_shell ok \<lparr>sys_world = seeded, sys_conns = [7 \<mapsto> new_conn 7]\<rparr>
    \<lparr>sys_world = admin_world, sys_conns = [7 \<mapsto> admin_conn]\<rparr>"
proof -
  let ?s = "\<lparr>sys_world = seeded, sys_conns = [7 \<mapsto> new_conn 7]\<rparr>"
  have "serve_request sample_shell (RQ_LOGIN admin_login) (new_conn 7) seeded = (admin_conn, admin_world)"
    by (simp add: serve_request_def login_success [OF seeded_login] admin_conn_def admin_world_def)
  then have "sys_step sample_shell ok ?s \<lparr>sys_world = admin_world, sys_conns = (sys_conns ?s)(7 \<mapsto> admin_conn)\<rparr>"
    using assms by (intro sys_step.request [where c = "new_conn 7" and rq = "RQ_LOGIN admin_login"])
      (simp_all add: room_def)
  then show ?thesis by simp
qed

lemma reach_login: "reachable sample_shell polite seeded \<lparr>sys_world = admin_world, sys_conns = [7 \<mapsto> admin_conn]\<rparr>"
  using reachable.step [OF reachable_connect login_step [of polite]] by (simp add: polite_def)

definition auction_world :: world where
  "auction_world = handle_create_auction 7 sample_creation admin_user admin_world"

lemma auction_world_auctions [simp]: "auctions auction_world = [new_auction sample_creation admin_user admin_world]"
proof -
  let ?a = "new_auction sample_creation admin_user admin_world"
  have "auctions (snd (write_auction ?a admin_world)) = [?a]"
    using at.rows_create [of ?a admin_world] by (simp add: new_auction_def)
  then show ?thesis
    using at.wr_status [of ?a admin_world]
    by (simp add: auction_world_def handle_create_auction_def case_prod_beta Let_def sample_creation_def)
qed

lemma reach_auction: "reachable sample_shell polite seeded \<lparr>sys_world = auction_world, sys_conns = [7 \<mapsto> admin_conn]\<rparr>"
proof -
  let ?s = "\<lparr>sys_world = admin_world, sys_conns = [7 \<mapsto> admin_conn]\<rparr>"
  have "serve_request sample_shell (RQ_CREATE_AUCTION sample_creation) admin_conn admin_world = (admin_conn, auction_world)"
    by (simp add: serve_request_def admin_conn_def auction_world_def)
  moreover have "room auction_world"
    unfolding room_def by (simp add: auction_world_def del: auction_world_auctions)
      (simp add: auction_world_def [symmetric])
  ultimately have "sys_step sample_shell polite ?s \<lparr>sys_world = auction_world, sys_conns = (sys_conns ?s)(7 \<mapsto> admin_conn)\<rparr>"
    by (intro sys_step.request [where c = admin_conn and rq = "RQ_CREATE_AUCTION sample_creation"])
      (simp_all add: polite_def sample_creation_def admin_conn_def)
  with reachable.step [OF reach_login] show ?thesis by force
qed

lemma reachable_weaken: "reachable popen polite w s \<Longrightarrow> reachable popen (\<lambda>c. finite_request) w s"
proof (induction rule: reachable.induct)
  case start
  show ?case by (rule reachable.start)
next
  case (step s s')
  have "sys_step popen (\<lambda>c. finite_request) s s'"
    using step(2) by (cases rule: sys_step.cases) (auto intro: sys_step.intros simp: polite_def)
  with step(3) show ?case by (rule reachable.step)
qed

section \<open>Properties\<close>

text \<open>C2: In every state the server can reach from an empty data directory and a seeded administrator,
  by any interleaving of connections, requests with finite amounts, disconnects and timer rounds:
  \<open>0 \<le> hold \<le> balance\<close> for every user, no user has two active sessions, no auction has two standing
  disputes, and every auction record agrees with its bids on file.\<close>

theorem system_invariant:
  assumes "reachable popen (\<lambda>c. finite_request) (start_world popen (\<lambda>_. True) t) s" and "w = sys_world s"
  shows "(\<forall>u \<in> set (users w). 0 \<le> wallet_hold u \<and> wallet_hold u \<le> wallet_balance u) \<and>
    distinct (active_sessions (sessions w)) \<and>
    distinct (map dispute_auction_id (filter (\<lambda>d. dispute_status d \<noteq> DISPUTE_REJECTED) (disputes w))) \<and>
    (\<forall>a \<in> set (auctions w). in_step a (book (auction_id a) (bids w)))"
proof -
  have "sys_inv s" using reachable_inv [OF assms(1)] start_world_inv by simp
  then have "world_inv w" using assms(2) by (simp add: sys_inv_def)
  from world_inv_parts [OF this] show ?thesis
    by (auto simp: list_all_iff wallet_ok_def sessions_inv_def disputes_inv_def bid_book_def standing_def [abs_def])
qed

theorem system_invariant_witness:
  "1 \<in> set (active_sessions (sessions auction_world)) \<and> distinct (active_sessions (sessions auction_world)) \<and>
    (\<exists>a. auctions auction_world = [a] \<and> in_step a (book (auction_id a) (bids auction_world)))"
proof -
  have "sessions auction_world = sessions admin_world" by (simp add: auction_world_def)
  then show ?thesis
    using system_invariant [OF reachable_weaken [OF reach_auction [unfolded seeded_def]] refl] admin_active by simp
qed

text \<open>C3: In every such state the leader of an auction is the highest bidder: no bid on file for the
  auction exceeds its current bid, and an auction with a leader has a bid of that leader at
  exactly the current bid.\<close>

theorem leader_is_highest_bidder:
  assumes "reachable popen (\<lambda>c. finite_request) (start_world popen (\<lambda>_. True) t) s" and "w = sys_world s"
    and "a \<in> set (auctions w)"
  shows "(\<forall>b \<in> set (bids w). bid_auction_id b = auction_id a \<longrightarrow> bid_amount b \<le> current_bid a) \<and>
    (highest_bidder_id a \<noteq> 0 \<longrightarrow> (\<exists>b \<in> set (bids w). bid_auction_id b = auction_id a \<and>
       bidder_id b = highest_bidder_id a \<and> bid_amount b = current_bid a))"
proof -
  have "sys_inv s" using reachable_inv [OF assms(1)] start_world_inv by simp
  then have inv: "world_inv w" using assms(2) by (simp add: sys_inv_def)
  note P = world_inv_parts [OF inv]
  let ?bs = "book (auction_id a) (bids w)"
  have st: "in_step a ?bs" using P(4) assms(3) by (simp add: bid_book_def)
  have le: "bid_amount b \<le> current_bid a" if "b \<in> set ?bs" for b
  proof -
    have ne: "?bs \<noteq> []" using that by auto
    then have bs: "?bs = butlast ?bs @ [last ?bs]" by simp
    have srt: "sorted_wrt (\<lambda>b c. bid_amount b < bid_amount c) (butlast ?bs @ [last ?bs])"
      using st bs unfolding in_step_def by metis
    have cur: "current_bid a = bid_amount (last ?bs)" using st ne by (simp add: in_step_def)
    have "b \<in> set (butlast ?bs) \<or> b = last ?bs" using that bs by (metis Un_iff empty_iff set_ConsD set_append list.set(1))
    then have "bid_amount b < bid_amount (last ?bs) \<or> b = last ?bs" using srt by (auto simp: sorted_wrt_append)
    moreover have "bid_amount b \<noteq> NaN"
      using that P(5) by (auto simp: finite_prices_def book_def)
    ultimately show ?thesis using cur by (auto simp: dbl_le_refl dbl_less_imp_le)
  qed
  have "\<exists>b \<in> set (bids w). bid_auction_id b = auction_id a \<and> bidder_id b = highest_bidder_id a \<and> bid_amount b = current_bid a"
    if "highest_bidder_id a \<noteq> 0"
  proof -
    have ne: "?bs \<noteq> []" using st that by (auto simp: in_step_def)
    then have "last ?bs \<in> set ?bs" by simp
    then have "last ?bs \<in> set (bids w)" "bid_auction_id (last ?bs) = auction_id a" by (simp_all add: book_def)
    then show ?thesis using st ne by (intro bexI [of _ "last ?bs"]) (simp_all add: in_step_def)
  qed
  then show ?thesis using le by (auto simp: book_def)
qed

theorem leader_is_highest_bidder_witness:
  "\<exists>a. auctions auction_world = [a] \<and> (\<forall>b \<in> set (bids auction_world). bid_auction_id b = auction_id a \<longrightarrow>
     bid_amount b \<le> current_bid a)"
  using leader_is_highest_bidder [OF reachable_weaken [OF reach_auction [unfolded seeded_def]] refl,
      of "new_auction sample_creation admin_user admin_world"] by simp



end
