(* ===== verification/Timer_Run.thy ===== *)
theory Timer_Run
  imports System
begin

text \<open>
  The timer thread among everything else the server does. Its loop sleeps, reads the clock, collects
  at most 64 expired auctions and closes them; between two rounds any number of requests is served, and
  time passes. A run is a sequence of steps of the system with the rounds of the timer counted. The
  theory shows that no auction waits longer than the open auctions before it in the file explain,
  and that the timer closes nothing before its time.
\<close>

section \<open>Rounds\<close>

inductive rounds :: "shell \<Rightarrow> (conn \<Rightarrow> request \<Rightarrow> bool) \<Rightarrow> system \<Rightarrow> nat \<Rightarrow> system \<Rightarrow> bool"
  for popen :: shell and ok :: "conn \<Rightarrow> request \<Rightarrow> bool" and s :: system where
  none: "rounds popen ok s 0 s"
| round: "rounds popen ok s k s' \<Longrightarrow> rounds popen ok s (Suc k) (s'\<lparr>sys_world := timer_tick (sys_world s')\<rparr>)"
| other: "rounds popen ok s k s' \<Longrightarrow> sys_step popen ok s' s'' \<Longrightarrow> rounds popen ok s k s''"

section \<open>What no step undoes\<close>

definition aged :: "world \<Rightarrow> world \<Rightarrow> bool" where
  \<comment> \<open>time has passed, records have kept their places and end times, and none has become open again\<close>
  "aged w w' \<longleftrightarrow>
     now w \<le> now w' \<and> length (auctions w) \<le> length (auctions w') \<and>
     (\<forall>k < length (auctions w).
        auction_id (auctions w' ! k) = auction_id (auctions w ! k) \<and>
        end_time (auctions w' ! k) = end_time (auctions w ! k) \<and>
        (auction_status (auctions w' ! k) = AUCTION_OPEN \<longrightarrow> auction_status (auctions w ! k) = AUCTION_OPEN))"

lemma aged_trans: "aged u v \<Longrightarrow> aged v w \<Longrightarrow> aged u w"
  by (fastforce simp: aged_def)

lemma aged_same: "auctions w' = auctions w \<Longrightarrow> now w \<le> now w' \<Longrightarrow> aged w w'"
  by (simp add: aged_def)

lemma aged_append: "auctions w' = auctions w @ as \<Longrightarrow> now w' = now w \<Longrightarrow> aged w w'"
  by (simp add: aged_def nth_append)

lemma aged_close_in: "auctions w' = map (close_in S) (auctions w) \<Longrightarrow> now w' = now w \<Longrightarrow> aged w w'"
  by (auto simp: aged_def close_in_def)

lemma aged_update:
  assumes "auctions w' = (auctions w)[slot_of i := a']" and "now w' = now w" and "read_auction i w = Some a"
    and "auction_id a' = auction_id a" "end_time a' = end_time a"
    and "auction_status a' = AUCTION_OPEN \<Longrightarrow> auction_status a = AUCTION_OPEN"
  shows "aged w w'"
  using assms by (auto simp: aged_def at.rd_Some nth_list_update)

lemma aged_status_set:
  assumes "status_set st w w'" and "st \<noteq> AUCTION_OPEN" and "now w' = now w"
  shows "aged w w'"
  using assms(1) unfolding status_set_def
proof (elim disjE exE conjE)
  assume "auctions w' = auctions w"
  with assms(3) show ?thesis by (simp add: aged_same)
next
  fix i a
  assume a: "read_auction i w = Some a" "auctions w' = (auctions w)[slot_of i := a\<lparr>auction_status := st\<rparr>]"
  show ?thesis by (rule aged_update [OF a(2) assms(3) a(1)]) (use assms(2) in simp_all)
qed

lemma serve_now: "now (snd (serve_request popen rq c w)) = now w"
  by (cases rq) (simp_all add: serve_request_def case_prod_beta handle_logout_def Let_def)

lemma place_bid_aged:
  assumes "world_inv w"
  shows "aged w (handle_place_bid fd q u w)"
proof (cases rule: place_bid_cases [where req = q and u = u and w = w and fd = fd])
  case (rejected e)
  then show ?thesis by (simp add: aged_same)
next
  case (accepted a)
  note P = world_inv_parts [OF assms]
  have "read_auction (bid_req_auction_id q) w = Some a" "auction_status a = AUCTION_OPEN"
    using accepted by (simp_all add: bid_accepts_def)
  then show ?thesis
    by (intro aged_update [OF accepted_auctions [OF accepted P(2,8), of fd]]) (simp_all add: raised_def)
qed

lemma create_aged:
  assumes "room w"
  shows "aged w (handle_create_auction fd q u w)"
proof -
  let ?a = "new_auction q u w"
  have "auctions (snd (write_auction ?a w)) \<in> {auctions w, auctions w @ [?a]}"
    using at.rows_create [of ?a w] assms by (simp add: new_auction_def room_def)
  then show ?thesis
    by (auto simp: handle_create_auction_def Let_def case_prod_beta intro: aged_same aged_append)
qed

lemma close_aged:
  assumes "world_inv w"
  shows "aged w (handle_close_auction fd q u w)"
proof (cases "\<exists>a. read_auction (close_auction_id q) w = Some a \<and> auction_status a = AUCTION_OPEN \<and>
    (seller_id a = user_id u \<or> role u = ROLE_ADMIN)")
  case True
  note P = world_inv_parts [OF assms]
  from True obtain a where a: "read_auction (close_auction_id q) w = Some a" "auction_status a = AUCTION_OPEN"
    "seller_id a = user_id u \<or> role u = ROLE_ADMIN" by blast
  with auctions_close [OF P(2,8) a(1,2)] show ?thesis
    by (intro aged_close_in [where S = "{close_auction_id q}"]) (auto simp: handle_close_auction_def Let_def case_prod_beta)
next
  case False
  then have "auctions (handle_close_auction fd q u w) = auctions w"
    by (auto simp: handle_close_auction_def split: option.split)
  then show ?thesis by (simp add: aged_same)
qed

lemma serve_aged:
  assumes inv: "world_inv w" and room: "room w"
  shows "aged w (snd (serve_request popen rq c w))"
proof (cases "auctions (snd (serve_request popen rq c w)) = auctions w")
  case True
  then show ?thesis using aged_same serve_now [of popen rq c w] by simp
next
  case False
  note P = world_inv_parts [OF inv]
  note st = aged_status_set [OF file_dispute_status [OF P(2)]] aged_status_set [OF resolve_status [OF P(2)]]
  from False show ?thesis
    using place_bid_aged [OF inv] create_aged [OF room] close_aged [OF inv] st
    by (cases rq) (auto simp: serve_request_def case_prod_beta handle_view_balance_def handle_change_password_def
        handle_logout_def Let_def aged_same split: option.splits if_splits)
qed

lemma timer_aged: "world_inv w \<Longrightarrow> aged w (timer_tick w)"
  using world_inv_parts [of w] by (intro aged_close_in [OF timer_tick_auctions]) simp_all

lemma step_aged:
  assumes inv: "sys_inv s" and st: "sys_step popen ok s s'"
  shows "aged (sys_world s) (sys_world s')"
proof -
  have w: "world_inv (sys_world s)" "room (sys_world s)" using inv by (simp_all add: sys_inv_def)
  from st show ?thesis
  proof (cases rule: sys_stepE [consumes 1, case_names connect request hangup timer clock])
    case (request fd c rq c' w')
    with serve_aged [OF w, of popen rq c] show ?thesis by simp
  next
    case (hangup fd c)
    have "auctions (cleanup c (sys_world s)) = auctions (sys_world s)" "now (cleanup c (sys_world s)) = now (sys_world s)"
      by (simp_all add: cleanup_def Let_def)
    with hangup(1) show ?thesis by (simp add: aged_same)
  qed (use timer_aged [OF w(1)] in \<open>simp_all add: aged_same\<close>)
qed

section \<open>What a round achieves\<close>

definition ahead :: "nat \<Rightarrow> world \<Rightarrow> nat" where
  \<comment> \<open>how many auctions before the \<open>i\<close>-th record are open\<close>
  "ahead i w = length (filter (\<lambda>a. auction_status a = AUCTION_OPEN) (take i (auctions w)))"

lemma ahead_aged:
  assumes "aged w w'" and "i \<le> length (auctions w)"
  shows "ahead i w' \<le> ahead i w"
proof -
  have l: "length (take i (auctions w)) = i" "length (take i (auctions w')) = i"
    using assms by (simp_all add: aged_def)
  have "{k. k < i \<and> auction_status (take i (auctions w') ! k) = AUCTION_OPEN} \<subseteq>
      {k. k < i \<and> auction_status (take i (auctions w) ! k) = AUCTION_OPEN}"
    using assms by (auto simp: aged_def)
  then show ?thesis
    unfolding ahead_def length_filter_conv_card l by (intro card_mono) simp_all
qed

lemma round_progress:
  assumes num: "numbered auction_id (auctions w)" and wr: "writable w FILE_AUCTIONS"
    and i: "i < length (auctions w)" "expired (now w) (auctions w ! i)"
    and still: "auction_status (auctions (timer_tick w) ! i) = AUCTION_OPEN"
  shows "ahead i (timer_tick w) + 64 \<le> ahead i w"
proof -
  let ?E = "expired (now w)" and ?xs = "auctions w"
  let ?zs = "filter ?E (take i ?xs)" and ?ids = "map auction_id (filter ?E ?xs)"
  let ?S = "set (take 64 ?ids)"
  let ?O = "\<lambda>a. auction_status a = AUCTION_OPEN"
  have tick: "auctions (timer_tick w) = map (close_in ?S) ?xs" by (rule timer_tick_auctions [OF num wr])
  have xs: "?xs = take i ?xs @ ?xs ! i # drop (Suc i) ?xs" using i(1) by (simp add: id_take_nth_drop)
  then have ids: "?ids = map auction_id ?zs @ auction_id (?xs ! i) # map auction_id (filter ?E (drop (Suc i) ?xs))"
    using i(2) by (metis (no_types, lifting) filter.simps(2) filter_append list.simps(9) map_append)
  have "auction_id (?xs ! i) \<notin> ?S" using still i by (auto simp: tick close_in_def expired_def split: if_splits)
  then have long: "64 \<le> length ?zs" unfolding ids by (cases "64 \<le> length ?zs") (auto simp: take_Cons')
  then have S: "?S = set (take 64 (map auction_id ?zs))" unfolding ids by simp
  have "distinct (map auction_id ?zs)"
    using numbered_distinct [OF num] by (simp add: distinct_map_filter distinct_take take_map [symmetric])
  from filter_out_prefix [OF this, of 64] have left: "length (filter (\<lambda>a. auction_id a \<notin> ?S) ?zs) + 64 = length ?zs"
    using long unfolding S by simp
  have sp: "length (filter ?O ys) = length (filter ?E ys) + length (filter (\<lambda>a. ?O a \<and> \<not> ?E a) ys)" for ys
    by (induction ys) (auto simp: expired_def)
  have "length (filter (\<lambda>a. ?O (close_in ?S a)) ys) \<le>
      length (filter (\<lambda>a. auction_id a \<notin> ?S) (filter ?E ys)) + length (filter (\<lambda>a. ?O a \<and> \<not> ?E a) ys)" for ys
    by (induction ys) (auto simp: expired_def close_in_def)
  from this [of "take i ?xs"] show ?thesis
    using left sp [of "take i ?xs"] by (simp add: ahead_def tick take_map filter_map o_def)
qed

lemma tick_only_expired:
  assumes "numbered auction_id (auctions w)" and "writable w FILE_AUCTIONS"
  shows "\<forall>j < length (auctions w). let a = auctions w ! j; b = auctions (timer_tick w) ! j
    in b = a \<or> auction_status a = AUCTION_OPEN \<and> end_time a \<le> now w \<and> b = a\<lparr>auction_status := AUCTION_CLOSED\<rparr>"
proof (intro allI impI)
  fix j
  let ?S = "set (take 64 (map auction_id (filter (expired (now w)) (auctions w))))" and ?a = "auctions w ! j"
  assume j: "j < length (auctions w)"
  have "expired (now w) ?a" if "auction_id ?a \<in> ?S"
  proof -
    from in_set_takeD [OF that] obtain b where b: "b \<in> set (auctions w)" "expired (now w) b" "auction_id b = auction_id ?a"
      by auto
    then have "b = ?a" using numbered_distinct [OF assms(1)] j by (auto simp: distinct_map dest: inj_onD)
    with b(2) show ?thesis by simp
  qed
  with j show "let a = ?a; b = auctions (timer_tick w) ! j
    in b = a \<or> auction_status a = AUCTION_OPEN \<and> end_time a \<le> now w \<and> b = a\<lparr>auction_status := AUCTION_CLOSED\<rparr>"
    by (auto simp: timer_tick_auctions [OF assms] close_in_def expired_def Let_def simp del: set_take_subset_set_take)
qed

lemma rounds_progress:
  assumes "rounds popen ok s k s'" and "sys_inv s" and ok: "\<And>c rq. ok c rq \<Longrightarrow> finite_request rq"
    and i: "i < length (auctions (sys_world s))" "expired (now (sys_world s)) (auctions (sys_world s) ! i)"
  shows "sys_inv s' \<and> aged (sys_world s) (sys_world s') \<and>
    (auction_status (auctions (sys_world s') ! i) = AUCTION_OPEN \<longrightarrow>
      ahead i (sys_world s') + 64 * k \<le> ahead i (sys_world s))"
  using assms(1,2)
proof (induction rule: rounds.induct)
  case none
  then show ?case by (simp add: aged_same)
next
  case (round k s')
  let ?w = "sys_world s" and ?w' = "sys_world s'" and ?s'' = "s'\<lparr>sys_world := timer_tick (sys_world s')\<rparr>"
  from round have inv: "sys_inv s'" and ag: "aged ?w ?w'"
    and le: "auction_status (auctions ?w' ! i) = AUCTION_OPEN \<longrightarrow> ahead i ?w' + 64 * k \<le> ahead i ?w" by auto
  have w': "world_inv ?w'" using inv by (simp add: sys_inv_def)
  note P = world_inv_parts [OF w']
  have "sys_inv ?s''" using inv ok sys_step.timer by (rule step_inv)
  moreover have tick: "aged ?w' (timer_tick ?w')" using timer_aged [OF w'] .
  moreover have "ahead i (timer_tick ?w') + 64 * Suc k \<le> ahead i ?w"
    if "auction_status (auctions (timer_tick ?w') ! i) = AUCTION_OPEN"
  proof -
    have l: "i < length (auctions ?w')" using i(1) ag by (simp add: aged_def)
    have o: "auction_status (auctions ?w' ! i) = AUCTION_OPEN" using that tick l by (simp add: aged_def)
    then have "expired (now ?w') (auctions ?w' ! i)" using i ag by (auto simp: aged_def expired_def)
    from round_progress [OF P(2,8) l this that] le o show ?thesis by simp
  qed
  ultimately show ?case using aged_trans [OF ag] by simp
next
  case (other k s' s'')
  let ?w = "sys_world s" and ?w' = "sys_world s'" and ?w'' = "sys_world s''"
  from other have inv: "sys_inv s'" and ag: "aged ?w ?w'"
    and le: "auction_status (auctions ?w' ! i) = AUCTION_OPEN \<longrightarrow> ahead i ?w' + 64 * k \<le> ahead i ?w" by auto
  have st: "aged ?w' ?w''" using step_aged [OF inv other.hyps(2)] .
  have l: "i < length (auctions ?w')" using i(1) ag by (simp add: aged_def)
  have "ahead i ?w'' + 64 * k \<le> ahead i ?w" if "auction_status (auctions ?w'' ! i) = AUCTION_OPEN"
    using that st l le ahead_aged [OF st, of i] by (simp add: aged_def)
  moreover have "sys_inv s''" using inv ok other.hyps(2) by (rule step_inv)
  ultimately show ?case using aged_trans [OF ag st] by blast
qed

section \<open>Properties\<close>



end
