(* ===== verification/Escrow.thy ===== *)
theory Escrow
  imports Dispute
begin

text \<open>
  Escrow: how the wallets and the auctions fit together. On whole amounts, every user's hold is
  exactly the sum of the current bids of the open auctions the user leads. From this follows that
  the wallet operations whose results the server drops cannot fail, so that bids, settlements and
  the timer neither create nor lose money. The bound on the amounts is on the total of all wallets:
  below \<open>2 ^ 52\<close> rupees no sum rounds.
\<close>

section \<open>Held funds\<close>

fun rupees :: "dbl \<Rightarrow> int" where
  "rupees (Fin n) = n div one"
| "rupees x = 0"

lemma rupees_rs [simp]: "rupees (rs n) = n"
  by (simp add: rs_def)

definition led :: "u32 \<Rightarrow> Auction \<Rightarrow> int" where
  \<comment> \<open>what an auction freezes for user \<open>i\<close>\<close>
  "led i a = (if auction_status a = AUCTION_OPEN \<and> highest_bidder_id a = i then rupees (current_bid a) else 0)"

definition held :: "u32 \<Rightarrow> Auction list \<Rightarrow> int" where
  "held i as = sum_list (map (led i) as)"

definition priced :: "ledger \<Rightarrow> Auction \<Rightarrow> bool" where
  \<comment> \<open>an open auction stands at a positive whole price, and its seller and leader have accounts\<close>
  "priced L a \<longleftrightarrow>
     (auction_status a = AUCTION_OPEN \<longrightarrow>
        (\<exists>c. current_bid a = rs c \<and> 0 < c) \<and> L (seller_id a) \<noteq> None \<and>
        (highest_bidder_id a \<noteq> 0 \<longrightarrow> L (highest_bidder_id a) \<noteq> None))"

definition escrow :: "world \<Rightarrow> ledger \<Rightarrow> bool" where
  "escrow w L \<longleftrightarrow>
     ledger_rel w L \<and> L 0 = None \<and> (\<forall>i b h. L i = Some (b, h) \<longrightarrow> h = held i (auctions w)) \<and>
     (\<forall>a \<in> set (auctions w). priced L a) \<and> ledger_total L < exact_limit"

definition tables_ok :: "world \<Rightarrow> bool" where
  "tables_ok w \<longleftrightarrow>
     numbered user_id (users w) \<and> numbered auction_id (auctions w) \<and> (\<forall>f. writable w f)"

lemma held_update:
  "k < length as \<Longrightarrow> held i (as[k := a]) = held i as - led i (as ! k) + led i a"
proof -
  assume k: "k < length as"
  have "held i (take k as @ as ! k # drop (Suc k) as) + led i a =
      held i (take k as @ a # drop (Suc k) as) + led i (as ! k)"
    by (simp add: held_def)
  then show ?thesis using k by (simp add: upd_conv_take_nth_drop flip: id_take_nth_drop)
qed

lemma led_nonneg: "priced L a \<Longrightarrow> 0 \<le> led i a"
  by (auto simp: priced_def led_def)

lemma held_ge:
  assumes "\<forall>a \<in> set as. priced L a" and "a \<in> set as"
  shows "led i a \<le> held i as"
proof -
  have "0 \<le> x" if "x \<in> set (map (led i) as)" for x using that assms(1) led_nonneg by auto
  then show ?thesis unfolding held_def using assms(2) by (intro member_le_sum_list) auto
qed

lemma total_ge:
  assumes "\<And>i b h. L i = Some (b, h) \<Longrightarrow> 0 \<le> h \<and> h \<le> b" and "L i = Some (b, h)"
  shows "b \<le> ledger_total L"
proof -
  have "fst (the (L i)) \<le> (\<Sum>j \<in> dom L. fst (the (L j)))"
  proof (rule member_le_sum)
    show "i \<in> dom L" using assms(2) by auto
    show "0 \<le> fst (the (L j))" if "j \<in> dom L - {i}" for j
      using that assms(1) [of j] by fastforce
  qed simp
  then show ?thesis using assms(2) by (simp add: ledger_total_def)
qed

lemma escrowD:
  assumes "escrow w L"
  shows "ledger_rel w L" "L 0 = None" "L i = Some (b, h) \<Longrightarrow> h = held i (auctions w)"
    "a \<in> set (auctions w) \<Longrightarrow> priced L a" "ledger_total L < exact_limit"
    "L i = Some (b, h) \<Longrightarrow> 0 \<le> h \<and> h \<le> b" "L i = Some (b, h) \<Longrightarrow> b \<le> ledger_total L"
  using assms total_ge [of L i b h] ledger_rel_sane [of w L] by (auto simp: escrow_def)

lemma priced_upd: "priced L a \<Longrightarrow> priced (L(i \<mapsto> x)) a"
  by (auto simp: priced_def)

lemma priced_mono: "priced L a \<Longrightarrow> dom L \<subseteq> dom L' \<Longrightarrow> priced L' a"
  by (fastforce simp: priced_def)

lemma dom_settle:
  "ledger_settle L i c = Some L' \<Longrightarrow> dom L' = dom L" "ledger_credit L i c = Some L' \<Longrightarrow> dom L' = dom L"
  "ledger_release L i c = Some L' \<Longrightarrow> dom L' = dom L"
  by (auto simp: ledger_settle_def ledger_credit_def ledger_release_def ledger_delta_Some split: if_splits)

lemma dom_close: "ledger_close L a c = Some L' \<Longrightarrow> dom L' = dom L"
  by (auto simp: ledger_close_def dom_settle split: if_splits option.splits)

lemma escrow_cong:
  "users_file w' = users_file w \<Longrightarrow> auctions w' = auctions w \<Longrightarrow> escrow w' L = escrow w L"
  by (simp add: escrow_def ledger_rel_cong [of w' w])

section \<open>Settlement\<close>

lemma close_holds:
  assumes "ledger_close L a c = Some L'" and "0 \<le> c" and "L 0 = None"
    and "\<And>i b h. L i = Some (b, h) \<Longrightarrow> 0 \<le> h \<and> h \<le> b"
    and "highest_bidder_id a \<noteq> 0 \<Longrightarrow> \<exists>b h. L (highest_bidder_id a) = Some (b, h) \<and> c \<le> h"
    and "L' i = Some (b', h')"
  shows "\<exists>b h. L i = Some (b, h) \<and> h' = (if i = highest_bidder_id a then h - c else h)"
  using assms
  by (fastforce simp: ledger_close_def ledger_settle_def ledger_credit_def ledger_release_def ledger_delta_Some
      split: if_splits option.splits)

lemma escrow_settle:
  assumes es: "escrow w L" and ok: "tables_ok w"
    and a: "read_auction i w = Some a" "auction_status a = AUCTION_OPEN"
  shows "\<exists>L'. escrow (snd (close_auction_internal a w)) L' \<and> ledger_total L' = ledger_total L"
proof -
  note E = escrowD [OF es]
  have num: "numbered user_id (users w)" "numbered auction_id (auctions w)"
    and wr: "writable w FILE_USERS" "writable w FILE_AUCTIONS" using ok by (simp_all add: tables_ok_def)
  have mem: "a \<in> set (auctions w)" using a(1) by (rule at.rd_mem)
  then have pr: "priced L a" by (rule E(4))
  then obtain c where c: "current_bid a = rs c" "0 < c" using a(2) by (auto simp: priced_def)
  have lead: "\<exists>b h. L (highest_bidder_id a) = Some (b, h) \<and> c \<le> h" if nz: "highest_bidder_id a \<noteq> 0"
  proof -
    obtain b h where bh: "L (highest_bidder_id a) = Some (b, h)" using pr a(2) nz by (auto simp: priced_def)
    moreover have "led (highest_bidder_id a) a \<le> held (highest_bidder_id a) (auctions w)"
      using held_ge [OF _ mem] E(4) by blast
    ultimately show ?thesis using E(3) [OF bh] a(2) c(1) by (simp add: led_def)
  qed
  obtain bs hs where s: "L (seller_id a) = Some (bs, hs)" using pr a(2) by (auto simp: priced_def)
  have "\<exists>L'. ledger_close L a c = Some L'"
    by (rule ledger_close_defined) (use lead s c(2) E(6) in auto)
  then obtain L' where L': "ledger_close L a c = Some L'" ..
  have tot: "ledger_total L' = ledger_total L" using L' by (rule ledger_close_total)
  have holds: "\<exists>b h. L j = Some (b, h) \<and> h' = (if j = highest_bidder_id a then h - c else h)"
    if "L' j = Some (b', h')" for j b' h'
    using close_holds [OF L' _ E(2) E(6) lead that] c(2) by simp
  have sane: "0 \<le> h' \<and> h' \<le> b'" if "L' j = Some (b', h')" for j b' h'
    using L' that c(2) E(6) lead
    by (fastforce simp: ledger_close_def ledger_settle_def ledger_credit_def ledger_release_def ledger_delta_Some
        split: if_splits option.splits)
  have bd: "ledger_bounded L'"
    using total_ge [OF sane] tot E(5) unfolding ledger_bounded_def by fastforce
  let ?w = "snd (close_auction_internal a w)"
  have rel: "ledger_rel ?w L'"
  proof (cases "highest_bidder_id a = 0")
    case True
    then have "L' = L" using L' by (simp add: ledger_close_def)
    moreover have "users_file ?w = users_file w" using True by (simp add: close_users close_wallets_def)
    ultimately show ?thesis using E(1) ledger_rel_cong [of ?w w] by simp
  next
    case False
    with lead obtain b h where bh: "L (highest_bidder_id a) = Some (b, h)" "c \<le> h" by blast
    then have "c \<le> exact_limit" using E(5) E(6,7) [OF bh(1)] by simp
    with close_refines [OF E(1) num(1) wr(1) c(1) _ _ L' bd] c(2) show ?thesis by simp
  qed
  have A: "auctions ?w = (auctions w)[slot_of i := a\<lparr>auction_status := AUCTION_CLOSED\<rparr>]"
    using at.rows_update [OF a(1), of "a\<lparr>auction_status := AUCTION_CLOSED\<rparr>"] at.rd_ident [OF num(2) a(1)] wr(2)
    by simp
  have slot: "slot_of i < length (auctions w)" "auctions w ! slot_of i = a" using a(1) by (simp_all add: at.rd_Some)
  have H: "held j (auctions ?w) = held j (auctions w) - led j a" for j
    unfolding A using slot by (simp add: held_update) (simp add: led_def)
  have "h' = held j (auctions ?w)" if "L' j = Some (b', h')" for j b' h'
  proof -
    from holds [OF that] obtain b h where bh: "L j = Some (b, h)"
      "h' = (if j = highest_bidder_id a then h - c else h)" by blast
    with E(3) [OF bh(1)] show ?thesis unfolding H using a(2) c(1) by (simp add: led_def)
  qed
  moreover have "priced L' x" if "x \<in> set (auctions ?w)" for x
  proof -
    have "x = a\<lparr>auction_status := AUCTION_CLOSED\<rparr> \<or> x \<in> set (auctions w)"
      using that set_update_subset_insert [of "auctions w"] unfolding A by fastforce
    then show ?thesis
      using priced_mono [OF E(4), of x L'] dom_close [OF L'] by (auto simp: priced_def)
  qed
  moreover have "L' 0 = None" using dom_close [OF L'] E(2) by (metis domIff)
  ultimately have "escrow ?w L'" using rel tot E(5) by (simp add: escrow_def)
  then show ?thesis using tot by blast
qed

lemma tables_close:
  "tables_ok w \<Longrightarrow> read_auction i w = Some a \<Longrightarrow> auction_status a = AUCTION_OPEN \<Longrightarrow>
   tables_ok (snd (close_auction_internal a w))"
  using close_accounts [of w a] auctions_close [of w i a]
  by (simp add: tables_ok_def accounts_kept_numbered numbered_map)

lemma escrow_frame [simp]:
  "escrow (log_txn m w) L = escrow w L" "escrow (send_msg fd t e p w) L = escrow w L"
  by (rule escrow_cong; simp)+

lemma escrow_timer_close:
  assumes "escrow w L" and "tables_ok w"
  shows "tables_ok (timer_close i w) \<and> (\<exists>L'. escrow (timer_close i w) L' \<and> ledger_total L' = ledger_total L)"
  using assms escrow_settle [OF assms] tables_close [OF assms(2)]
  by (auto simp: timer_close_def case_prod_beta tables_ok_def split: option.split)

lemma escrow_timer:
  assumes "escrow w L" and "tables_ok w"
  shows "\<exists>L'. escrow (timer_tick w) L' \<and> ledger_total L' = ledger_total L"
proof -
  have "escrow w L \<Longrightarrow> tables_ok w \<Longrightarrow> \<exists>L'. escrow (fold timer_close is w) L' \<and> ledger_total L' = ledger_total L"
    for "is" L w
  proof (induction "is" arbitrary: w L)
    case (Cons i "is")
    from escrow_timer_close [OF Cons.prems, of i]
    obtain L1 where "tables_ok (timer_close i w)" "escrow (timer_close i w) L1" "ledger_total L1 = ledger_total L"
      by blast
    with Cons.IH [of "timer_close i w" L1] show ?case by auto
  qed auto
  with assms show ?thesis by (simp add: timer_tick_eq)
qed

lemma escrow_close:
  assumes "escrow w L" and "tables_ok w"
  shows "\<exists>L'. escrow (handle_close_auction fd q u w) L' \<and> ledger_total L' = ledger_total L"
  using assms escrow_settle [OF assms]
  by (auto simp: handle_close_auction_def Let_def case_prod_beta split: option.split)

section \<open>Bids\<close>

lemma escrow_bid:
  assumes es: "escrow w L" and ok: "tables_ok w" and m: "bid_req_amount q = rs m"
  shows "\<exists>L'. escrow (handle_place_bid fd q u w) L' \<and> ledger_total L' = ledger_total L"
proof (cases rule: place_bid_cases [where req = q and u = u and w = w and fd = fd])
  case (rejected e)
  with es show ?thesis by auto
next
  case (accepted a)
  note E = escrowD [OF es]
  let ?w = "handle_place_bid fd q u w" and ?p = "highest_bidder_id a" and ?i = "user_id u"
  have num: "numbered user_id (users w)" "numbered auction_id (auctions w)"
    and wr: "writable w FILE_USERS" "writable w FILE_AUCTIONS" using ok by (simp_all add: tables_ok_def)
  have a: "read_auction (bid_req_auction_id q) w = Some a" "auction_status a = AUCTION_OPEN"
    using accepted by (simp_all add: bid_accepts_def)
  have mem: "a \<in> set (auctions w)" using a(1) by (rule at.rd_mem)
  have pr: "priced L a" using mem by (rule E(4))
  then obtain c where c: "current_bid a = rs c" "0 < c" using a(2) by (auto simp: priced_def)
  have cm: "c < m" using accepted m c by (simp add: bid_accepts_def)
  have lead: "\<exists>b h. L ?p = Some (b, h) \<and> c \<le> h" if nz: "?p \<noteq> 0"
  proof -
    obtain b h where bh: "L ?p = Some (b, h)" using pr a(2) nz by (auto simp: priced_def)
    moreover have "led ?p a \<le> held ?p (auctions w)" using held_ge [OF _ mem] E(4) by blast
    ultimately show ?thesis using E(3) [OF bh] a(2) c(1) by (simp add: led_def)
  qed
  define L1 where "L1 = (if ?p = 0 then L else case L ?p of Some (b, h) \<Rightarrow> L(?p \<mapsto> (b, h - c)) | None \<Rightarrow> L)"
  have L1: "L1 = (case L ?p of Some (b, h) \<Rightarrow> if ?p = 0 then L else L(?p \<mapsto> (b, h - c)) | None \<Rightarrow> L)"
    by (auto simp: L1_def split: option.split)
  obtain b h where bh: "L1 ?i = Some (b, h)" "m \<le> b - h"
    and rel: "ledger_rel ?w (L1(?i \<mapsto> (b, h + m)))"
    using bid_ledger [OF E(1) num(1) wr(1) accepted m c lead, of fd] L1 by auto
  have L1_cases: "\<exists>h0. L j = Some (b', h0) \<and> h' = (if j = ?p then h0 - c else h0)" if "L1 j = Some (b', h')" for j b' h'
    using that E(2) lead by (auto simp: L1_def split: if_splits)
  have A: "auctions ?w = (auctions w)[slot_of (bid_req_auction_id q) := raised q u a]"
    using accepted_auctions [OF accepted num(2) wr(2)] .
  have slot: "slot_of (bid_req_auction_id q) < length (auctions w)" "auctions w ! slot_of (bid_req_auction_id q) = a"
    using a(1) by (simp_all add: at.rd_Some)
  have H: "held j (auctions ?w) = held j (auctions w) - (if j = ?p then c else 0) + (if j = ?i then m else 0)" for j
    using slot a(2) c(1) m by (simp add: A held_update led_def raised_def)
  let ?L = "L1(?i \<mapsto> (b, h + m))"
  have "h' = held j (auctions ?w)" if "?L j = Some (b', h')" for j b' h'
  proof (cases "j = ?i")
    case True
    with that L1_cases [OF bh(1)] E(3) show ?thesis by (fastforce simp: H)
  next
    case False
    with that L1_cases [of j b' h'] E(3) show ?thesis by (fastforce simp: H)
  qed
  moreover have "dom L \<subseteq> dom ?L" using lead by (auto simp: L1_def split: if_splits option.splits)
  then have "priced ?L x" if "x \<in> set (auctions ?w)" for x
  proof -
    have "x = raised q u a \<or> x \<in> set (auctions w)"
      using that set_update_subset_insert [of "auctions w"] unfolding A by fastforce
    moreover have "priced ?L (raised q u a)"
      using priced_mono [OF pr \<open>dom L \<subseteq> dom ?L\<close>] m cm c(2) a(2) by (auto simp: priced_def raised_def)
    ultimately show ?thesis using priced_mono [OF E(4) \<open>dom L \<subseteq> dom ?L\<close>] by blast
  qed
  moreover have tot: "ledger_total ?L = ledger_total L"
  proof -
    have "ledger_total L1 = ledger_total L" using lead by (auto simp: L1_def ledger_total_update split: option.split)
    then show ?thesis using bh(1) by (simp add: ledger_total_update)
  qed
  moreover have "?L 0 = None"
  proof -
    have "L1 0 = None" using E(2) by (auto simp: L1_def split: option.split)
    moreover from this have "?i \<noteq> 0" using bh(1) by auto
    ultimately show ?thesis by simp
  qed
  ultimately have "escrow ?w ?L" using rel E(5) by (simp add: escrow_def)
  then show ?thesis using tot by blast
qed

section \<open>Deposits and creations\<close>

lemma escrow_deposit:
  assumes es: "escrow w L" and ok: "tables_ok w" and u: "L (user_id u) = Some (b, h)"
    and x: "deposit_amount q = rs x" and lim: "ledger_total L + max 0 x < exact_limit"
  shows "\<exists>L'. escrow (snd (handle_deposit fd q u w)) L' \<and> ledger_total L' = ledger_total L + max 0 x"
proof (cases "0 < x")
  case False
  with x es show ?thesis by (auto simp: handle_deposit_def)
next
  case True
  note E = escrowD [OF es]
  let ?i = "user_id u" and ?L = "L(user_id u \<mapsto> (b + x, h))"
  have L': "ledger_credit L ?i x = Some ?L" using u E(6) [OF u] True by (simp add: ledger_credit_Some)
  have "ledger_bounded ?L"
    using ledger_rel_bounded [OF E(1)] E(7) [OF u] lim True by (intro ledger_bounded_upd) auto
  moreover have "\<bar>x\<bar> \<le> exact_limit" using True lim E(6,7) [OF u] by simp
  ultimately have cr: "fst (credit_wallet ?i (rs x) w) = 0" "ledger_rel (snd (credit_wallet ?i (rs x) w)) ?L"
    using cl.refines_Some [OF E(1) _ _ _ L'] ok by (simp_all add: tables_ok_def)
  have tot: "ledger_total ?L = ledger_total L + x" using u by (simp add: ledger_total_update)
  have "escrow (snd (credit_wallet ?i (rs x) w)) ?L"
    using cr(2) E(2,3,4) u lim tot True by (auto simp: escrow_def intro: priced_upd)
  then have "escrow (snd (handle_deposit fd q u w)) ?L"
    using cr(1) x True by (simp add: handle_deposit_world Let_def)
  with tot True show ?thesis by auto
qed

lemma escrow_create:
  assumes es: "escrow w L" and ok: "tables_ok w" and u: "L (user_id u) \<noteq> None"
    and p: "create_start_price q = rs p" and len: "length (auctions w) + 1 < 2 ^ 32"
  shows "escrow (handle_create_auction fd q u w) L"
proof (cases "create_start_price q \<le> 0 \<or> duration_seconds q < 10")
  case True
  with es show ?thesis by (simp add: handle_create_auction_def)
next
  case False
  note E = escrowD [OF es]
  let ?a = "new_auction q u w"
  have A: "auctions (handle_create_auction fd q u w) = auctions w @ [?a]"
    using False at.rows_create [of ?a w] at.wr_status [of ?a w] ok len
    by (simp add: handle_create_auction_def Let_def case_prod_beta tables_ok_def new_auction_def)
  have "priced L ?a" using False p u by (auto simp: priced_def new_auction_def)
  moreover have "held i (auctions w @ [?a]) = held i (auctions w)" if "i \<noteq> 0" for i
    using that by (simp add: held_def led_def new_auction_def)
  moreover have "L i = Some (b, h) \<Longrightarrow> i \<noteq> 0" for i b h using E(2) by auto
  ultimately show ?thesis
    using es ledger_rel_cong [of "handle_create_auction fd q u w" w] by (auto simp: escrow_def A)
qed

lemma leader_pays:
  assumes "escrow w L" and "tables_ok w" and "a \<in> set (auctions w)" and "auction_status a = AUCTION_OPEN"
    and "highest_bidder_id a \<noteq> 0"
  shows "fst (settle_payment (highest_bidder_id a) (current_bid a) w) = 0"
proof -
  note E = escrowD [OF assms(1)]
  let ?p = "highest_bidder_id a"
  have pr: "priced L a" using assms(3) by (rule E(4))
  then obtain c b h where c: "current_bid a = rs c" "0 < c" "L ?p = Some (b, h)"
    using assms(4,5) by (auto simp: priced_def)
  have "led ?p a \<le> held ?p (auctions w)" using held_ge [OF _ assms(3)] E(4) by blast
  then have ch: "c \<le> h" using E(3) [OF c(3)] assms(4) c(1) by (simp add: led_def)
  then have L': "ledger_settle L ?p c = Some (L(?p \<mapsto> (b - c, h - c)))"
    using c E(6) [OF c(3)] by (simp add: ledger_settle_Some)
  have "ledger_bounded (L(?p \<mapsto> (b - c, h - c)))"
    using ledger_bounded_settle [OF ledger_rel_bounded [OF E(1)] L'] c(2) by simp
  moreover have "\<bar>c\<bar> \<le> exact_limit" using ch c(2) E(5) E(6,7) [OF c(3)] by simp
  ultimately show ?thesis
    using sl.refines_Some [OF E(1) _ _ _ L'] assms(2) c(1) by (simp add: tables_ok_def)
qed

section \<open>Properties\<close>

text \<open>C9: Escrow: on whole amounts, with less than \<open>2 ^ 52\<close> rupees in all wallets together, every bid,
  close, creation, deposit and timer round keeps each user's hold equal to the sum of the current
  bids of the open auctions the user leads, and no money appears or disappears: the total of all
  balances changes by deposits only.\<close>

theorem money_conserved:
  assumes "escrow w L" and "tables_ok w" and "length (auctions w) + 1 < 2 ^ 32"
    and "bid_req_amount pb = rs m" and "create_start_price cr = rs p" and "deposit_amount dp = rs x"
    and "L (user_id u) = Some (b, h)" and "ledger_total L + max 0 x < exact_limit"
  shows "(\<exists>L'. escrow (handle_place_bid fd pb u w) L' \<and> ledger_total L' = ledger_total L) \<and>
    (\<exists>L'. escrow (handle_close_auction fd cl u w) L' \<and> ledger_total L' = ledger_total L) \<and>
    (\<exists>L'. escrow (timer_tick w) L' \<and> ledger_total L' = ledger_total L) \<and>
    (\<exists>L'. escrow (handle_create_auction fd cr u w) L' \<and> ledger_total L' = ledger_total L) \<and>
    (\<exists>L'. escrow (snd (handle_deposit fd dp u w)) L' \<and> ledger_total L' = ledger_total L + max 0 x)"
  using escrow_bid [OF assms(1,2,4)] escrow_close [OF assms(1,2)] escrow_timer [OF assms(1,2)]
    escrow_create [OF assms(1,2) _ assms(5,3), of u fd] assms(7)
    escrow_deposit [OF assms(1,2,7,6,8)] by blast

lemma sample_dom: "dom sample_ledger = {1, 2, 3, 4, 5}"
  by (auto simp: sample_ledger_def split: if_splits)

lemma sample_total: "ledger_total sample_ledger = 1950"
  unfolding ledger_total_def sample_dom by (simp add: sample_ledger_def)

lemma sample_tables: "tables_ok sample_world"
  unfolding tables_ok_def by (intro conjI allI sample_numbered(1,2) sample_files(7))

lemma sample_escrow: "escrow sample_world sample_ledger"
proof -
  have "h = held i (auctions sample_world)" if "sample_ledger i = Some (b, h)" for i b h
    using that by (auto simp: sample_ledger_def held_def led_def split: if_splits)
  moreover have "\<forall>a \<in> set (auctions sample_world). priced sample_ledger a"
    by (auto simp: priced_def sample_ledger_def)
  moreover have "sample_ledger 0 = None" by (simp add: sample_ledger_def)
  ultimately show ?thesis
    using sample_ledger_rel by (simp add: escrow_def sample_total exact_limit_def del: sample_files)
qed

theorem money_conserved_witness:
  "\<exists>L'. escrow (timer_tick sample_world) L' \<and> ledger_total L' = 1950"
proof -
  have b: "bid_req_amount \<lparr>bid_req_auction_id = 2, bid_req_amount = rs 400\<rparr> = rs 400" by simp
  have p: "create_start_price sample_creation = rs 40" by (simp add: sample_creation_def)
  have d: "deposit_amount \<lparr>deposit_amount = rs 5\<rparr> = rs 5" by simp
  have u: "sample_ledger (user_id ann) = Some (800, 200)" by (simp add: sample_ledger_def)
  have l: "ledger_total sample_ledger + max 0 5 < exact_limit" by (simp add: sample_total exact_limit_def)
  have n: "length (auctions sample_world) + 1 < 2 ^ 32" by simp
  from money_conserved [OF sample_escrow sample_tables n b p d u l] show ?thesis by (simp add: sample_total)
qed

text \<open>The leader of an open auction can always pay: while the holds agree with the auctions, the
  settlement's debit of the winner succeeds, so dropping its result hides no failure.\<close>

lemma leader_can_pay:
  assumes "escrow w L" and "tables_ok w" and "read_auction i w = Some a" and "auction_status a = AUCTION_OPEN"
    and "highest_bidder_id a \<noteq> 0"
  shows "fst (settle_payment (highest_bidder_id a) (current_bid a) w) = 0"
  using leader_pays [OF assms(1,2) at.rd_mem [OF assms(3)] assms(4,5)] .

end
