(* ===== verification/Concurrency.thy ===== *)
theory Concurrency
  imports Server
begin

text \<open>
  The handlers as threads of the pool run them, interleaved. The code protects single operations
  (one access to a file under its mutex, one wallet operation under its lock) and, with a
  semaphore per auction, the critical section of a bid; nothing else is protected. One step of a
  thread is here one such operation: the phases of \<^verbatim>\<open>handle_place_bid\<close> with \<^verbatim>\<open>sem_wait\<close> and
  \<^verbatim>\<open>sem_post\<close>, those of a settlement (by request or by the timer thread), which takes no
  semaphore, and those of \<^verbatim>\<open>handle_create_auction\<close>. Every other request is one step.

  This theory holds the steps and the runs of single threads; \<^verbatim>\<open>Interleaving\<close> shows what the
  semaphores achieve, \<^verbatim>\<open>Races\<close> what they leave open.
\<close>

section \<open>Semaphores\<close>

definition MAX_AUCTIONS :: nat where "MAX_AUCTIONS = 1024"

type_synonym semaphores = "nat \<Rightarrow> nat option"

definition sem_index :: "u32 \<Rightarrow> nat" where
  "sem_index i = slot_of i mod MAX_AUCTIONS"

definition get_auction_sem :: "u32 \<Rightarrow> semaphores \<Rightarrow> nat \<times> semaphores" where
  \<comment> \<open>the index of the semaphore and the array, where \<open>None\<close> is a semaphore not yet initialised\<close>
  "get_auction_sem i sems =
     (let idx = sem_index i
      in (idx, if sems idx = None then sems(idx \<mapsto> 1) else sems))"

definition sem_wait :: "nat \<Rightarrow> semaphores \<Rightarrow> semaphores option" where
  \<comment> \<open>\<open>None\<close>: the thread blocks\<close>
  "sem_wait idx sems =
     (case sems idx of
        Some (Suc n) \<Rightarrow> Some (sems(idx \<mapsto> n))
      | _ \<Rightarrow> None)"

definition sem_post :: "nat \<Rightarrow> semaphores \<Rightarrow> semaphores" where
  "sem_post idx sems = sems(idx := map_option Suc (sems idx))"

section \<open>A bid in steps\<close>

record bidder =
  b_fd :: int
  b_req :: PlaceBidPayload
  b_user :: User

abbreviation b_auction :: "bidder \<Rightarrow> u32" where
  "b_auction b \<equiv> bid_req_auction_id (b_req b)"

datatype bid_phase =
    BP_peek \<comment> \<open>step 1: about to read the auction\<close>
  | BP_funds \<comment> \<open>step 2: about to read the bidder\<close>
  | BP_wait \<comment> \<open>step 3: about to take the semaphore\<close>
  | BP_reread \<comment> \<open>the critical section begins\<close>
  | BP_release Auction \<comment> \<open>step 4, with the local \<open>a\<close> as read\<close>
  | BP_hold Auction
  | BP_write Auction \<comment> \<open>step 5\<close>
  | BP_number Auction \<comment> \<open>step 6: about to call \<^verbatim>\<open>next_bid_id\<close>\<close>
  | BP_append Auction Bid
  | BP_post "err + Bid \<times> u32" \<comment> \<open>about to release the semaphore\<close>
  | BP_reply "err + Bid \<times> u32" \<comment> \<open>step 7, or the answer to a refused bid\<close>
  | BP_done

fun bid_act :: "bidder \<Rightarrow> bid_phase \<Rightarrow> world \<Rightarrow> bid_phase \<times> world" where
  \<comment> \<open>one step that does not touch a semaphore\<close>
  "bid_act b BP_peek w =
     (case read_auction (b_auction b) w of
        None \<Rightarrow> (BP_reply (Inl ERR_NOT_FOUND), w)
      | Some a \<Rightarrow>
          (if auction_status a \<noteq> AUCTION_OPEN then BP_reply (Inl ERR_AUCTION_CLOSED) else BP_funds, w))"
| "bid_act b BP_funds w =
     (case read_user (user_id (b_user b)) w of
        None \<Rightarrow> (BP_reply (Inl ERR_INTERNAL), w)
      | Some fresh_bidder \<Rightarrow>
          let available = wallet_balance fresh_bidder - wallet_hold fresh_bidder
          in (if bid_req_amount (b_req b) > available then BP_reply (Inl ERR_INSUFFICIENT) else BP_wait, w))"
| "bid_act b BP_reread w =
     (case read_auction (b_auction b) w of
        None \<Rightarrow> (BP_post (Inl ERR_NOT_FOUND), w)
      | Some a \<Rightarrow>
          (if auction_status a \<noteq> AUCTION_OPEN then BP_post (Inl ERR_AUCTION_CLOSED)
           else if bid_req_amount (b_req b) \<le> current_bid a then BP_post (Inl ERR_BID_TOO_LOW)
           else BP_release a, w))"
| "bid_act b (BP_release a) w =
     (BP_hold a, if highest_bidder_id a \<noteq> 0 then snd (release_hold (highest_bidder_id a) (current_bid a) w) else w)"
| "bid_act b (BP_hold a) w = (BP_write a, snd (place_hold (user_id (b_user b)) (bid_req_amount (b_req b)) w))"
| "bid_act b (BP_write a) w = (BP_number a, snd (write_auction (raised (b_req b) (b_user b) a) w))"
| "bid_act b (BP_number a) w = (BP_append a (new_bid (b_req b) (b_user b) w), w)"
| "bid_act b (BP_append a x) w = (BP_post (Inr (x, highest_bidder_id a)), snd (append_bid x w))"
| "bid_act b (BP_reply r) w = (BP_done, place_bid_respond (b_fd b) (b_req b) (b_user b) r w)"
| "bid_act b p w = (p, w)"

fun in_critical :: "bid_phase \<Rightarrow> bool" where
  "in_critical BP_reread = True"
| "in_critical (BP_release a) = True"
| "in_critical (BP_hold a) = True"
| "in_critical (BP_write a) = True"
| "in_critical (BP_number a) = True"
| "in_critical (BP_append a x) = True"
| "in_critical (BP_post r) = True"
| "in_critical _ = False"

section \<open>A settlement in steps\<close>

datatype closer = By_request int CloseAuctionPayload User | By_timer u32

datatype close_phase =
    CL_read
  | CL_write Auction
  | CL_debit Auction | CL_credit Auction | CL_mark Auction | CL_won Auction
  | CL_release Auction | CL_closed Auction
  | CL_end Auction
  | CL_done

fun close_act :: "closer \<Rightarrow> close_phase \<Rightarrow> world \<Rightarrow> close_phase \<times> world" where
  "close_act (By_request fd req u) CL_read w =
     (case read_auction (close_auction_id req) w of
        None \<Rightarrow> (CL_done, send_msg fd MSG_CLOSE_AUCTION_RESP ERR_NOT_FOUND P_None w)
      | Some a \<Rightarrow>
          if seller_id a \<noteq> user_id u \<and> role u \<noteq> ROLE_ADMIN
          then (CL_done, send_msg fd MSG_CLOSE_AUCTION_RESP ERR_PERMISSION P_None w)
          else if auction_status a \<noteq> AUCTION_OPEN
          then (CL_done, send_msg fd MSG_CLOSE_AUCTION_RESP ERR_AUCTION_CLOSED P_None w)
          else (CL_write (a\<lparr>auction_status := AUCTION_CLOSED\<rparr>), w))"
| "close_act (By_timer i) CL_read w =
     (case read_auction i w of
        None \<Rightarrow> (CL_done, w)
      | Some a \<Rightarrow>
          (if auction_status a = AUCTION_OPEN then CL_write (a\<lparr>auction_status := AUCTION_CLOSED\<rparr>) else CL_done, w))"
| "close_act c (CL_write a) w =
     (if highest_bidder_id a \<noteq> 0 \<and> reserve_met a then CL_debit a
      else if highest_bidder_id a \<noteq> 0 then CL_release a else CL_closed a,
      snd (write_auction a w))"
| "close_act c (CL_debit a) w =
     (CL_credit a, snd (settle_payment (highest_bidder_id a) (current_bid a)
        (log_txn (L_WAL_SETTLE (auction_id a) (highest_bidder_id a) (seller_id a) (current_bid a)) w)))"
| "close_act c (CL_credit a) w = (CL_mark a, snd (credit_wallet (seller_id a) (current_bid a) w))"
| "close_act c (CL_mark a) w = (CL_won a, mark_winning_bids a w)"
| "close_act c (CL_won a) w =
     (CL_closed a, notify_auction_won (highest_bidder_id a) (auction_id a) (current_bid a) w)"
| "close_act c (CL_release a) w = (CL_closed a, snd (release_hold (highest_bidder_id a) (current_bid a) w))"
| "close_act c (CL_closed a) w = (CL_end a, notify_auction_closed (seller_id a) (auction_id a) w)"
| "close_act (By_request fd req u) (CL_end a) w =
     (CL_done, log_txn (L_CLOSE_AUCTION (auction_id a) (user_id u))
        (send_msg fd MSG_CLOSE_AUCTION_RESP ERR_OK (P_Auction a) w))"
| "close_act (By_timer i) (CL_end a) w = (CL_done, log_txn (L_TIMER_CLOSE i) w)"
| "close_act c CL_done w = (CL_done, w)"

section \<open>A creation in steps\<close>

record creator =
  c_fd :: int
  c_req :: CreateAuctionPayload
  c_user :: User

datatype create_phase =
    CR_number \<comment> \<open>about to call \<^verbatim>\<open>next_auction_id\<close>\<close>
  | CR_write Auction
  | CR_reply Auction int
  | CR_done

fun create_act :: "creator \<Rightarrow> create_phase \<Rightarrow> world \<Rightarrow> create_phase \<times> world" where
  "create_act c CR_number w =
     (if create_start_price (c_req c) \<le> 0 \<or> duration_seconds (c_req c) < 10
      then (CR_done, send_msg (c_fd c) MSG_CREATE_AUCTION_RESP ERR_INTERNAL P_None w)
      else (CR_write (new_auction (c_req c) (c_user c) w), w))"
| "create_act c (CR_write a) w = (let (result, w) = write_auction a w in (CR_reply a result, w))"
| "create_act c (CR_reply a result) w =
     (CR_done,
      if result < 0 then send_msg (c_fd c) MSG_CREATE_AUCTION_RESP ERR_INTERNAL P_None w
      else log_txn (L_CREATE_AUCTION (auction_id a) (user_id (c_user c)) (item_name a) (end_time a))
        (send_msg (c_fd c) MSG_CREATE_AUCTION_RESP ERR_OK (P_Auction a) w))"
| "create_act c CR_done w = (CR_done, w)"

section \<open>The interleaving\<close>

datatype thread =
    T_bid bidder bid_phase
  | T_close closer close_phase
  | T_create creator create_phase

record conc =
  c_world :: world
  c_sems :: semaphores
  c_threads :: "nat \<Rightarrow> thread option"

fun starts :: "thread \<Rightarrow> bool" where
  "starts (T_bid b p) = (p = BP_peek)"
| "starts (T_close c p) = (p = CL_read)"
| "starts (T_create c p) = (p = CR_number)"

fun touches_auctions :: "request \<Rightarrow> bool" where
  "touches_auctions (RQ_PLACE_BID q) = True"
| "touches_auctions (RQ_CREATE_AUCTION q) = True"
| "touches_auctions (RQ_CLOSE_AUCTION q) = True"
| "touches_auctions (RQ_FILE_DISPUTE q) = True"
| "touches_auctions (RQ_RESOLVE_DISPUTE q) = True"
| "touches_auctions _ = False"

inductive conc_step :: "shell \<Rightarrow> (thread \<Rightarrow> bool) \<Rightarrow> conc \<Rightarrow> conc \<Rightarrow> bool"
  for popen :: shell and kinds :: "thread \<Rightarrow> bool" where
  enter: "c_threads s t = None \<Longrightarrow> starts th \<Longrightarrow> kinds th \<Longrightarrow>
     conc_step popen kinds s (s\<lparr>c_threads := (c_threads s)(t \<mapsto> th)\<rparr>)"
| bid: "c_threads s t = Some (T_bid b p) \<Longrightarrow> p \<noteq> BP_wait \<Longrightarrow> (\<And>r. p \<noteq> BP_post r) \<Longrightarrow>
     bid_act b p (c_world s) = (p', w') \<Longrightarrow>
     conc_step popen kinds s (s\<lparr>c_world := w', c_threads := (c_threads s)(t \<mapsto> T_bid b p')\<rparr>)"
| bid_wait: "c_threads s t = Some (T_bid b BP_wait) \<Longrightarrow>
     get_auction_sem (b_auction b) (c_sems s) = (idx, sems) \<Longrightarrow> sem_wait idx sems = Some sems' \<Longrightarrow>
     conc_step popen kinds s (s\<lparr>c_sems := sems', c_threads := (c_threads s)(t \<mapsto> T_bid b BP_reread)\<rparr>)"
| bid_post: "c_threads s t = Some (T_bid b (BP_post r)) \<Longrightarrow>
     conc_step popen kinds s
       (s\<lparr>c_sems := sem_post (sem_index (b_auction b)) (c_sems s),
          c_threads := (c_threads s)(t \<mapsto> T_bid b (BP_reply r))\<rparr>)"
| close: "c_threads s t = Some (T_close c p) \<Longrightarrow> close_act c p (c_world s) = (p', w') \<Longrightarrow>
     conc_step popen kinds s (s\<lparr>c_world := w', c_threads := (c_threads s)(t \<mapsto> T_close c p')\<rparr>)"
| create: "c_threads s t = Some (T_create c p) \<Longrightarrow> create_act c p (c_world s) = (p', w') \<Longrightarrow>
     conc_step popen kinds s (s\<lparr>c_world := w', c_threads := (c_threads s)(t \<mapsto> T_create c p')\<rparr>)"
| other: "\<not> touches_auctions rq \<Longrightarrow>
     conc_step popen kinds s (s\<lparr>c_world := snd (serve_request popen rq c (c_world s))\<rparr>)"
| clock: "now (c_world s) \<le> t \<Longrightarrow> conc_step popen kinds s (s\<lparr>c_world := (c_world s)\<lparr>now := t\<rparr>\<rparr>)"

inductive conc_reach :: "shell \<Rightarrow> (thread \<Rightarrow> bool) \<Rightarrow> conc \<Rightarrow> conc \<Rightarrow> bool"
  for popen :: shell and kinds :: "thread \<Rightarrow> bool" and start :: conc where
  here: "conc_reach popen kinds start start"
| further: "conc_reach popen kinds start s \<Longrightarrow> conc_step popen kinds s s' \<Longrightarrow> conc_reach popen kinds start s'"

definition idle :: "world \<Rightarrow> conc" where
  \<comment> \<open>the server before any request\<close>
  "idle w = \<lparr>c_world = w, c_sems = (\<lambda>_. None), c_threads = (\<lambda>_. None)\<rparr>"

section \<open>A thread that runs alone\<close>

definition with_thread :: "conc \<Rightarrow> nat \<Rightarrow> world \<Rightarrow> semaphores \<Rightarrow> thread \<Rightarrow> conc" where
  "with_thread s t w sems th = s\<lparr>c_world := w, c_sems := sems, c_threads := (c_threads s)(t \<mapsto> th)\<rparr>"

lemma with_thread_simps [simp]:
  "c_world (with_thread s t w sems th) = w" "c_sems (with_thread s t w sems th) = sems"
  "c_threads (with_thread s t w sems th) = (c_threads s)(t \<mapsto> th)"
  "(with_thread s t w sems th)\<lparr>c_world := w', c_threads := (c_threads s)(t \<mapsto> th')\<rparr> = with_thread s t w' sems th'"
  "(with_thread s t w sems th)\<lparr>c_sems := sems', c_threads := (c_threads s)(t \<mapsto> th')\<rparr> = with_thread s t w sems' th'"
  by (simp_all add: with_thread_def)

lemma reach_bid:
  assumes "conc_reach popen kinds s (with_thread s t w sems (T_bid b p))" and "p \<noteq> BP_wait"
    and "\<And>r. p \<noteq> BP_post r" and "bid_act b p w = (p', w')"
  shows "conc_reach popen kinds s (with_thread s t w' sems (T_bid b p'))"
  using conc_reach.further [OF assms(1) conc_step.bid [where t = t and b = b and p = p]] assms(2-) by simp

lemma reach_bid_wait:
  assumes "conc_reach popen kinds s (with_thread s t w sems (T_bid b BP_wait))"
    and "sem_wait (sem_index (b_auction b)) (snd (get_auction_sem (b_auction b) sems)) = Some sems'"
  shows "conc_reach popen kinds s (with_thread s t w sems' (T_bid b BP_reread))"
  using conc_reach.further [OF assms(1) conc_step.bid_wait [where t = t and b = b]] assms(2)
  by (simp add: get_auction_sem_def Let_def)

lemma reach_bid_post:
  assumes "conc_reach popen kinds s (with_thread s t w sems (T_bid b (BP_post r)))"
  shows "conc_reach popen kinds s (with_thread s t w (sem_post (sem_index (b_auction b)) sems) (T_bid b (BP_reply r)))"
  using conc_reach.further [OF assms(1) conc_step.bid_post [where t = t and b = b]] by simp

lemma reach_bid_reply:
  assumes "conc_reach popen kinds s (with_thread s t w sems (T_bid b (BP_reply r)))"
  shows "conc_reach popen kinds s
    (with_thread s t (place_bid_respond (b_fd b) (b_req b) (b_user b) r w) sems (T_bid b BP_done))"
  by (rule reach_bid [OF assms]) simp_all

definition free_sem :: "nat \<Rightarrow> semaphores \<Rightarrow> bool" where
  "free_sem idx sems \<longleftrightarrow> sems idx = None \<or> sems idx = Some 1"

lemma wait_free:
  assumes "free_sem (sem_index i) sems"
  shows "sem_wait (sem_index i) (snd (get_auction_sem i sems)) = Some (sems(sem_index i \<mapsto> 0))"
  using assms by (auto simp: free_sem_def sem_wait_def get_auction_sem_def Let_def)

lemma reach_critical:
  assumes "conc_reach popen kinds s (with_thread s t w sems (T_bid b BP_reread))"
    and "place_bid_critical (b_req b) (b_user b) w = (r, w')"
  shows "conc_reach popen kinds s (with_thread s t w' sems (T_bid b (BP_post r)))"
proof (cases "\<exists>a. read_auction (b_auction b) w = Some a \<and> auction_status a = AUCTION_OPEN \<and>
    \<not> bid_req_amount (b_req b) \<le> current_bid a")
  case True
  then obtain a where a: "read_auction (b_auction b) w = Some a" "auction_status a = AUCTION_OPEN"
    "\<not> bid_req_amount (b_req b) \<le> current_bid a" by blast
  let ?w1 = "if highest_bidder_id a \<noteq> 0 then snd (release_hold (highest_bidder_id a) (current_bid a) w) else w"
  let ?w2 = "snd (place_hold (user_id (b_user b)) (bid_req_amount (b_req b)) ?w1)"
  let ?w3 = "snd (write_auction (raised (b_req b) (b_user b) a) ?w2)"
  let ?x = "new_bid (b_req b) (b_user b) ?w3"
  have r: "r = Inr (?x, highest_bidder_id a)" "w' = snd (append_bid ?x ?w3)"
    using a assms(2) by (auto simp: place_bid_critical_def Let_def raised_def new_bid_def)
  have "conc_reach popen kinds s (with_thread s t w sems (T_bid b (BP_release a)))"
    by (rule reach_bid [OF assms(1)]) (simp_all add: a)
  then have "conc_reach popen kinds s (with_thread s t ?w1 sems (T_bid b (BP_hold a)))"
    by (rule reach_bid) simp_all
  then have "conc_reach popen kinds s (with_thread s t ?w2 sems (T_bid b (BP_write a)))"
    by (rule reach_bid) simp_all
  then have "conc_reach popen kinds s (with_thread s t ?w3 sems (T_bid b (BP_number a)))"
    by (rule reach_bid) simp_all
  then have "conc_reach popen kinds s (with_thread s t ?w3 sems (T_bid b (BP_append a ?x)))"
    by (rule reach_bid) simp_all
  then show ?thesis unfolding r by (rule reach_bid) simp_all
next
  case False
  then show ?thesis
    using assms(2) by (intro reach_bid [OF assms(1)])
      (auto simp: place_bid_critical_def Let_def split: option.splits if_splits)
qed

lemma bid_alone_reaches:
  assumes "c_threads s t = Some (T_bid b BP_peek)" and "free_sem (sem_index (b_auction b)) (c_sems s)"
  shows "\<exists>s'. conc_reach popen kinds s s' \<and> c_world s' = handle_place_bid (b_fd b) (b_req b) (b_user b) (c_world s) \<and>
    c_threads s' = (c_threads s)(t \<mapsto> T_bid b BP_done) \<and> free_sem (sem_index (b_auction b)) (c_sems s') \<and>
    (\<forall>j. j \<noteq> sem_index (b_auction b) \<longrightarrow> c_sems s' j = c_sems s j)"
proof -
  let ?w = "c_world s" and ?sems = "c_sems s"
  have peek: "conc_reach popen kinds s (with_thread s t ?w ?sems (T_bid b BP_peek))"
    using conc_reach.here [of popen kinds s] assms(1) by (simp add: with_thread_def map_upd_triv)
  show ?thesis
  proof (cases "place_bid_check (b_req b) (b_user b) ?w")
    case (Some e)
    have "conc_reach popen kinds s (with_thread s t ?w ?sems (T_bid b (BP_reply (Inl e))))"
    proof (cases "bid_act b BP_peek ?w = (BP_funds, ?w)")
      case True
      then have "conc_reach popen kinds s (with_thread s t ?w ?sems (T_bid b BP_funds))"
        by (intro reach_bid [OF peek]) simp_all
      then show ?thesis
        by (rule reach_bid) (use Some True in \<open>auto simp: place_bid_check_def Let_def split: option.splits if_splits\<close>)
    next
      case False
      then show ?thesis
        by (intro reach_bid [OF peek])
          (use Some in \<open>auto simp: place_bid_check_def Let_def split: option.splits if_splits\<close>)
    qed
    note reach = reach_bid_reply [OF this]
    show ?thesis
      by (intro exI conjI, rule reach) (use Some assms(2) in \<open>simp_all add: handle_place_bid_def place_bid_respond_def\<close>)
  next
    case None
    let ?idx = "sem_index (b_auction b)"
    obtain r w' where crit: "place_bid_critical (b_req b) (b_user b) ?w = (r, w')"
      by (cases "place_bid_critical (b_req b) (b_user b) ?w")
    have "conc_reach popen kinds s (with_thread s t ?w ?sems (T_bid b BP_funds))"
      using None by (intro reach_bid [OF peek]) (auto simp: place_bid_check_def split: option.splits if_splits)
    then have "conc_reach popen kinds s (with_thread s t ?w ?sems (T_bid b BP_wait))"
      by (rule reach_bid) (use None in \<open>auto simp: place_bid_check_def Let_def split: option.splits if_splits\<close>)
    then have "conc_reach popen kinds s (with_thread s t ?w (?sems(?idx \<mapsto> 0)) (T_bid b BP_reread))"
      by (rule reach_bid_wait) (rule wait_free [OF assms(2)])
    note reach = reach_bid_reply [OF reach_bid_post [OF reach_critical [OF this crit]]]
    show ?thesis
      by (intro exI conjI, rule reach)
        (use None crit in \<open>simp_all add: handle_place_bid_def free_sem_def sem_post_def\<close>)
  qed
qed

end
