(* ===== verification/Interleaving.thy ===== *)
theory Interleaving
  imports Concurrency
begin

text \<open>
  What the semaphores of \<^verbatim>\<open>handle_place_bid\<close> achieve. The first section shows that they exclude
  each other: at any moment at most one thread is between \<^verbatim>\<open>sem_wait\<close> and \<^verbatim>\<open>sem_post\<close> of an
  auction. The second is an invariant of bids that run against each other, in any interleaving with
  requests that leave the auctions alone: a thread inside its critical section works on the record
  that is on file, and every auction no thread is updating agrees with its bids.
\<close>

section \<open>Mutual exclusion\<close>

fun inside :: "thread \<Rightarrow> nat \<Rightarrow> bool" where
  \<comment> \<open>the thread is in a critical section guarded by semaphore \<open>idx\<close>\<close>
  "inside (T_bid b p) idx = (in_critical p \<and> sem_index (b_auction b) = idx)"
| "inside _ idx = False"

definition in_section :: "conc \<Rightarrow> nat \<Rightarrow> nat \<Rightarrow> bool" where
  "in_section s t idx = (case c_threads s t of None \<Rightarrow> False | Some th \<Rightarrow> inside th idx)"

lemma in_section_move [simp]:
  "in_section (s\<lparr>c_sems := sems, c_threads := (c_threads s)(t \<mapsto> th)\<rparr>) t' idx =
     (if t' = t then inside th idx else in_section s t' idx)"
  by (simp add: in_section_def)

definition guarded :: "conc \<Rightarrow> nat \<Rightarrow> bool" where
  \<comment> \<open>a free semaphore has no thread inside, a taken one exactly one\<close>
  "guarded s idx \<longleftrightarrow>
     (if free_sem idx (c_sems s) then \<forall>t. \<not> in_section s t idx
      else c_sems s idx = Some 0 \<and> (\<exists>t. \<forall>t'. in_section s t' idx \<longleftrightarrow> t' = t))"

lemma guarded_cong:
  assumes "c_sems s' idx = c_sems s idx" and "\<And>t. in_section s' t idx = in_section s t idx"
  shows "guarded s' idx = guarded s idx"
  unfolding guarded_def free_sem_def assms ..

lemma guarded_move:
  assumes "guarded s idx" and "c_sems s' = c_sems s" and "c_threads s' = (c_threads s)(t \<mapsto> th)"
    and "inside th idx = in_section s t idx"
  shows "guarded s' idx"
proof -
  have "in_section s' t' idx = in_section s t' idx" for t' using assms(3,4) by (simp add: in_section_def)
  then show ?thesis using assms(1,2) guarded_cong by metis
qed

lemma bid_act_critical:
  "bid_act b p w = (p', w') \<Longrightarrow> p \<noteq> BP_wait \<Longrightarrow> (\<And>r. p \<noteq> BP_post r) \<Longrightarrow> in_critical p' = in_critical p"
  by (cases p) (auto simp: Let_def split: option.splits if_splits)

lemma starts_outside: "starts th \<Longrightarrow> \<not> inside th idx"
  by (cases th) auto

lemma guarded_wait:
  assumes "\<And>j. guarded s j" and "c_threads s t = Some (T_bid b BP_wait)"
    and "get_auction_sem (b_auction b) (c_sems s) = (idx, sems)" and "sem_wait idx sems = Some sems'"
  shows "guarded (s\<lparr>c_sems := sems', c_threads := (c_threads s)(t \<mapsto> T_bid b BP_reread)\<rparr>) j" (is "guarded ?s j")
proof -
  have idx: "idx = sem_index (b_auction b)" and sems': "sems' = (c_sems s)(idx \<mapsto> 0)" and free: "free_sem idx (c_sems s)"
    using assms(1) [of idx] assms(3,4)
    by (auto simp: get_auction_sem_def Let_def sem_wait_def guarded_def free_sem_def
        split: option.splits nat.splits if_splits)
  have out: "\<not> in_section s t j" for j using assms(2) by (simp add: in_section_def)
  show ?thesis
  proof (cases "j = idx")
    case True
    have "\<not> free_sem idx sems'" by (simp add: sems' free_sem_def)
    moreover have "\<not> in_section s t' idx" for t' using assms(1) [of idx] free by (simp add: guarded_def)
    ultimately show ?thesis using True by (auto simp: guarded_def sems' idx)
  next
    case False
    have "in_section ?s t' j = in_section s t' j" for t' using False out by (simp add: idx)
    then show ?thesis using assms(1) [of j] False guarded_cong [of ?s j s] by (simp add: sems')
  qed
qed

lemma guarded_post:
  assumes "\<And>j. guarded s j" and "c_threads s t = Some (T_bid b (BP_post r))"
  shows "guarded (s\<lparr>c_sems := sem_post (sem_index (b_auction b)) (c_sems s),
      c_threads := (c_threads s)(t \<mapsto> T_bid b (BP_reply r))\<rparr>) j" (is "guarded ?s j")
proof -
  let ?idx = "sem_index (b_auction b)"
  have here: "in_section s t j \<longleftrightarrow> j = ?idx" for j using assms(2) by (auto simp: in_section_def)
  show ?thesis
  proof (cases "j = ?idx")
    case True
    from assms(1) [of ?idx] here [of ?idx] have "c_sems s ?idx = Some 0" "in_section s t' ?idx \<Longrightarrow> t' = t" for t'
      by (auto simp: guarded_def split: if_splits)
    with True show ?thesis by (auto simp: guarded_def sem_post_def free_sem_def)
  next
    case False
    have "in_section ?s t' j = in_section s t' j" for t' using False here [of j] by auto
    then show ?thesis using assms(1) [of j] False guarded_cong [of ?s j s] by (simp add: sem_post_def)
  qed
qed

lemma guarded_step:
  assumes "conc_step popen kinds s s'" and "\<And>j. guarded s j"
  shows "guarded s' j"
  using assms(1)
proof cases
  case (enter t th)
  then show ?thesis
    by (intro guarded_move [OF assms(2), where t = t and th = th]) (simp_all add: in_section_def starts_outside)
next
  case (bid t b p p' w')
  from bid_act_critical [OF bid(5,3,4)] bid(1,2) show ?thesis
    by (intro guarded_move [OF assms(2), where t = t and th = "T_bid b p'"]) (simp_all add: in_section_def)
next
  case (bid_wait t b idx sems sems')
  then show ?thesis using guarded_wait [OF assms(2)] by simp
next
  case (bid_post t b r)
  then show ?thesis using guarded_post [OF assms(2)] by simp
next
  case (close t c p p' w')
  then show ?thesis
    by (intro guarded_move [OF assms(2), where t = t and th = "T_close c p'"]) (simp_all add: in_section_def)
next
  case (create t c p p' w')
  then show ?thesis
    by (intro guarded_move [OF assms(2), where t = t and th = "T_create c p'"]) (simp_all add: in_section_def)
next
  case (other rq c)
  then show ?thesis using assms(2) guarded_cong [of s' j s] by (simp add: in_section_def)
next
  case (clock t)
  then show ?thesis using assms(2) guarded_cong [of s' j s] by (simp add: in_section_def)
qed

lemma guarded_reach: "conc_reach popen kinds (idle w) s \<Longrightarrow> guarded s j"
proof (induction arbitrary: j rule: conc_reach.induct)
  case here
  show ?case by (simp add: guarded_def idle_def free_sem_def in_section_def)
qed (rule guarded_step)

lemma one_inside:
  assumes "guarded s idx" and "in_section s t idx" and "in_section s t' idx"
  shows "t = t'"
  using assms by (auto simp: guarded_def split: if_splits)

section \<open>Bids against bids\<close>

definition copy_ok :: "bidder \<Rightarrow> Auction \<Rightarrow> world \<Rightarrow> bool" where
  \<comment> \<open>the local copy is the record on file, and the bid beats it\<close>
  "copy_ok b a w \<longleftrightarrow>
     read_auction (b_auction b) w = Some a \<and> \<not> bid_req_amount (b_req b) \<le> current_bid a"

definition ahead_ok :: "bidder \<Rightarrow> Auction \<Rightarrow> world \<Rightarrow> bool" where
  \<comment> \<open>the record is on file with the new bid, the bid file does not have it yet\<close>
  "ahead_ok b a w \<longleftrightarrow>
     read_auction (b_auction b) w = Some (raised (b_req b) (b_user b) a) \<and>
     \<not> bid_req_amount (b_req b) \<le> current_bid a \<and> in_step a (book (b_auction b) (bids w))"

fun phase_ok :: "bidder \<Rightarrow> bid_phase \<Rightarrow> world \<Rightarrow> bool" where
  "phase_ok b (BP_release a) w = copy_ok b a w"
| "phase_ok b (BP_hold a) w = copy_ok b a w"
| "phase_ok b (BP_write a) w = copy_ok b a w"
| "phase_ok b (BP_number a) w = ahead_ok b a w"
| "phase_ok b (BP_append a x) w =
     (ahead_ok b a w \<and> bid_auction_id x = b_auction b \<and> bidder_id x = user_id (b_user b) \<and>
      bid_amount x = bid_req_amount (b_req b))"
| "phase_ok b _ w = True"

fun ahead :: "thread \<Rightarrow> u32 \<Rightarrow> bool" where
  "ahead (T_bid b (BP_number a)) i = (b_auction b = i)"
| "ahead (T_bid b (BP_append a x)) i = (b_auction b = i)"
| "ahead _ i = False"

fun bids_only :: "thread \<Rightarrow> bool" where
  \<comment> \<open>the threads of this section: bids, none of them NaN\<close>
  "bids_only (T_bid b p) = (bid_req_amount (b_req b) \<noteq> NaN)"
| "bids_only _ = False"

fun thread_ok :: "world \<Rightarrow> thread \<Rightarrow> bool" where
  "thread_ok w (T_bid b p) = (bid_req_amount (b_req b) \<noteq> NaN \<and> phase_ok b p w)"
| "thread_ok w _ = False"

definition settled :: "conc \<Rightarrow> u32 \<Rightarrow> bool" where
  \<comment> \<open>no thread is between its \<^verbatim>\<open>write_auction\<close> and its \<^verbatim>\<open>append_bid\<close> for the auction\<close>
  "settled s i \<longleftrightarrow> (\<forall>t th. c_threads s t = Some th \<longrightarrow> \<not> ahead th i)"

definition settled_but :: "conc \<Rightarrow> nat \<Rightarrow> u32 \<Rightarrow> bool" where
  "settled_but s t i \<longleftrightarrow> (\<forall>t' th. t' \<noteq> t \<longrightarrow> c_threads s t' = Some th \<longrightarrow> \<not> ahead th i)"

lemma settled_at:
  "settled s i \<longleftrightarrow> settled_but s t i \<and> (\<forall>th. c_threads s t = Some th \<longrightarrow> \<not> ahead th i)"
  unfolding settled_def settled_but_def by metis

lemma settled_move:
  "c_threads s' = (c_threads s)(t \<mapsto> th) \<Longrightarrow> settled s' i \<longleftrightarrow> settled_but s t i \<and> \<not> ahead th i"
  by (auto simp: settled_at [of s' i t] settled_but_def)

definition files_ok :: "world \<Rightarrow> bool" where
  "files_ok w \<longleftrightarrow> numbered auction_id (auctions w) \<and> writable w FILE_AUCTIONS \<and> writable w FILE_BIDS \<and>
     (\<forall>b \<in> set (bids w). bid_amount b \<noteq> NaN) \<and>
     (\<forall>b \<in> set (bids w). read_auction (bid_auction_id b) w \<noteq> None)"

definition bids_inv :: "conc \<Rightarrow> bool" where
  "bids_inv s \<longleftrightarrow>
     files_ok (c_world s) \<and> (\<forall>idx. guarded s idx) \<and>
     (\<forall>t th. c_threads s t = Some th \<longrightarrow> thread_ok (c_world s) th) \<and>
     (\<forall>i a. settled s i \<longrightarrow> read_auction i (c_world s) = Some a \<longrightarrow> in_step a (book i (bids (c_world s))))"

text \<open>A step that leaves the two files alone.\<close>

lemma same_files:
  assumes "auctions_file w' = auctions_file w" and "bids_file w' = bids_file w" and "writable w' = writable w"
  shows "files_ok w' = files_ok w" and "phase_ok b p w' = phase_ok b p w" and "thread_ok w' th = thread_ok w th"
    and "read_auction i w' = read_auction i w"
proof -
  show rd: "read_auction i w' = read_auction i w" for i using assms(1) by (simp add: at.rd_rows)
  show "files_ok w' = files_ok w" using assms by (simp add: files_ok_def rd)
  show ph: "phase_ok b p w' = phase_ok b p w" for b p
    using assms(2) by (cases p) (simp_all add: copy_ok_def ahead_ok_def rd)
  show "thread_ok w' th = thread_ok w th" by (cases th) (simp_all add: ph)
qed

lemma bids_inv_quiet:
  assumes "bids_inv s" and "\<And>idx. guarded s' idx"
    and "auctions_file (c_world s') = auctions_file (c_world s)"
    and "bids_file (c_world s') = bids_file (c_world s)" and "writable (c_world s') = writable (c_world s)"
    and "c_threads s' = c_threads s \<or>
      (\<exists>t th. c_threads s' = (c_threads s)(t \<mapsto> th) \<and> thread_ok (c_world s') th \<and>
         (\<forall>i. ahead th i = (\<exists>old. c_threads s t = Some old \<and> ahead old i)))"
  shows "bids_inv s'"
proof -
  note same = same_files [OF assms(3-5)]
  have set: "settled s' i = settled s i" for i
    using assms(6)
  proof (elim disjE exE conjE)
    fix t th
    assume "c_threads s' = (c_threads s)(t \<mapsto> th)" "\<forall>i. ahead th i = (\<exists>old. c_threads s t = Some old \<and> ahead old i)"
    then show ?thesis by (simp add: settled_move settled_at [of s i t])
  qed (simp add: settled_def)
  show ?thesis
    using assms(1,2,4,6) unfolding bids_inv_def same set by (auto split: if_splits)
qed

text \<open>The two steps that change the files: the writer is alone with its auction.\<close>

lemma phase_ok_cong:
  assumes "in_critical p \<Longrightarrow> read_auction (b_auction b) w' = read_auction (b_auction b) w \<and>
      book (b_auction b) (bids w') = book (b_auction b) (bids w)"
  shows "phase_ok b p w' = phase_ok b p w"
  using assms by (cases p) (simp_all add: copy_ok_def ahead_ok_def)

lemma other_auction:
  assumes "\<And>idx. guarded s idx" and "c_threads s t = Some (T_bid b p)" and "in_critical p"
    and "c_threads s t' = Some (T_bid b' p')" and "in_critical p'" and "t' \<noteq> t"
  shows "b_auction b' \<noteq> b_auction b"
proof
  assume eq: "b_auction b' = b_auction b"
  have "in_section s t (sem_index (b_auction b))" "in_section s t' (sem_index (b_auction b))"
    using assms(2-5) eq by (simp_all add: in_section_def)
  from one_inside [OF assms(1) this] assms(6) show False by simp
qed

lemma ahead_inside: "ahead th i \<Longrightarrow> \<exists>b p. th = T_bid b p \<and> in_critical p \<and> b_auction b = i"
  by (cases "(th, i)" rule: ahead.cases) auto

lemma only_ahead:
  assumes "\<And>idx. guarded s idx" and "c_threads s t = Some (T_bid b p)" and "in_critical p"
    and "c_threads s t' = Some th" and "ahead th (b_auction b)"
  shows "t' = t"
  using ahead_inside [OF assms(5)] other_auction [OF assms(1-3)] assms(4) by blast

lemma threads_ok_other:
  assumes "bids_inv s" and "c_threads s t = Some (T_bid b p)" and "in_critical p"
    and "\<And>j. j \<noteq> b_auction b \<Longrightarrow> read_auction j w' = read_auction j (c_world s) \<and> book j (bids w') = book j (bids (c_world s))"
    and "c_threads s t' = Some th" and "t' \<noteq> t"
  shows "thread_ok w' th"
proof -
  have g: "guarded s idx" for idx using assms(1) by (simp add: bids_inv_def)
  have ok: "thread_ok (c_world s) th" using assms(1,5) by (simp add: bids_inv_def)
  then obtain b' p' where th: "th = T_bid b' p'" by (cases th) auto
  have "phase_ok b' p' w' = phase_ok b' p' (c_world s)"
    using other_auction [OF g assms(2,3) _ _ assms(6), of b' p'] assms(4,5) th by (intro phase_ok_cong) blast
  with ok th show ?thesis by simp
qed

lemma bids_inv_write:
  assumes "bids_inv s" and "c_threads s t = Some (T_bid b (BP_write a))"
    and "s' = s\<lparr>c_world := snd (write_auction (raised (b_req b) (b_user b) a) (c_world s)),
      c_threads := (c_threads s)(t \<mapsto> T_bid b (BP_number a))\<rparr>" and "\<And>idx. guarded s' idx"
  shows "bids_inv s'"
proof -
  let ?w = "c_world s" and ?i = "b_auction b" and ?r = "raised (b_req b) (b_user b) a"
  let ?w' = "snd (write_auction ?r ?w)"
  from assms(1) have f: "files_ok ?w" and g: "guarded s idx" for idx by (simp_all add: bids_inv_def)
  from assms(1,2) have "thread_ok ?w (T_bid b (BP_write a))" unfolding bids_inv_def by blast
  then have rd: "read_auction ?i ?w = Some a" and low: "\<not> bid_req_amount (b_req b) \<le> current_bid a"
    and nan: "bid_req_amount (b_req b) \<noteq> NaN" by (simp_all add: copy_ok_def)
  have num: "numbered auction_id (auctions ?w)" and wr: "writable ?w FILE_AUCTIONS" using f by (simp_all add: files_ok_def)
  have id: "auction_id ?r = ?i" using at.rd_ident [OF num rd] by (simp add: raised_def)
  have rd': "read_auction j ?w' = (if j = ?i then Some ?r else read_auction j ?w)" for j
    using at.rd_update [OF rd id, of j] wr by auto
  have st: "settled s ?i"
    using only_ahead [OF g assms(2)] assms(2) by (auto simp: settled_def)
  then have step: "in_step a (book ?i (bids ?w))" using assms(1) rd by (simp add: bids_inv_def)
  have "files_ok ?w'"
    using f at.numbered_update [OF num rd id] by (auto simp: files_ok_def rd')
  moreover have "thread_ok ?w' th" if "c_threads s' t' = Some th" for t' th
  proof (cases "t' = t")
    case True
    then show ?thesis using that nan low step by (auto simp: assms(3) ahead_ok_def rd')
  next
    case False
    then show ?thesis using that threads_ok_other [OF assms(1,2), of ?w' t' th] by (simp add: assms(3) rd')
  qed
  moreover have "in_step x (book j (bids ?w'))" if "settled s' j" "read_auction j ?w' = Some x" for j x
  proof -
    have but: "settled_but s t j" and j: "j \<noteq> ?i"
      using that(1) settled_move [of s' s t] by (auto simp: assms(3))
    then have "settled s j" using assms(2) by (simp add: settled_at [of s j t])
    then show ?thesis using assms(1) that(2) j by (simp add: bids_inv_def rd')
  qed
  ultimately show ?thesis using assms(4) by (simp add: bids_inv_def assms(3))
qed

lemma bids_inv_append:
  assumes "bids_inv s" and "c_threads s t = Some (T_bid b (BP_append a x))"
    and "s' = s\<lparr>c_world := snd (append_bid x (c_world s)),
      c_threads := (c_threads s)(t \<mapsto> T_bid b (BP_post r))\<rparr>" and "\<And>idx. guarded s' idx"
  shows "bids_inv s'"
proof -
  let ?w = "c_world s" and ?i = "b_auction b" and ?r = "raised (b_req b) (b_user b) a"
  let ?w' = "snd (append_bid x ?w)"
  from assms(1) have f: "files_ok ?w" and g: "guarded s idx" for idx by (simp_all add: bids_inv_def)
  from assms(1,2) have "thread_ok ?w (T_bid b (BP_append a x))" unfolding bids_inv_def by blast
  then have rd: "read_auction ?i ?w = Some ?r" and low: "\<not> bid_req_amount (b_req b) \<le> current_bid a"
    and nan: "bid_req_amount (b_req b) \<noteq> NaN" and step: "in_step a (book ?i (bids ?w))"
    and x: "bid_auction_id x = ?i" "bidder_id x = user_id (b_user b)" "bid_amount x = bid_req_amount (b_req b)"
    by (simp_all add: ahead_ok_def)
  have rd': "read_auction j ?w' = read_auction j ?w" for j by (simp add: at.rd_rows)
  have bids': "bids ?w' = bids ?w @ [x]" using f by (simp add: files_ok_def append_bid_def)
  have book': "book j (bids ?w') = (if j = ?i then book j (bids ?w) @ [x] else book j (bids ?w))" for j
    using x(1) by (simp add: book_def bids')
  have "current_bid a \<noteq> NaN" if "book ?i (bids ?w) \<noteq> []"
    using that step f last_in_set [OF that] by (auto simp: in_step_def files_ok_def book_def)
  then have step': "in_step ?r (book ?i (bids ?w) @ [x])"
    using in_step_raise [OF step, of x] low nan x by (simp add: raised_def)
  have "files_ok ?w'"
    using f nan x rd by (auto simp: files_ok_def rd' bids')
  moreover have "thread_ok ?w' th" if "c_threads s' t' = Some th" for t' th
  proof (cases "t' = t")
    case True
    then show ?thesis using that nan by (auto simp add: assms(3))
  next
    case False
    then show ?thesis using that threads_ok_other [OF assms(1,2), of ?w' t' th] by (simp add: assms(3) rd' book')
  qed
  moreover have "in_step y (book j (bids ?w'))" if "settled s' j" "read_auction j ?w' = Some y" for j y
  proof (cases "j = ?i")
    case True
    then show ?thesis using that(2) rd step' by (simp add: rd' book')
  next
    case False
    moreover have "settled_but s t j" using that(1) settled_move [of s' s t] by (simp add: assms(3))
    ultimately have "settled s j" using assms(2) by (simp add: settled_at [of s j t])
    then show ?thesis using assms(1) that(2) False by (simp add: bids_inv_def rd' book')
  qed
  ultimately show ?thesis using assms(4) by (simp add: bids_inv_def assms(3))
qed

lemma bids_inv_move:
  assumes "bids_inv s" and "\<And>idx. guarded s' idx"
    and "auctions_file (c_world s') = auctions_file (c_world s)"
    and "bids_file (c_world s') = bids_file (c_world s)" and "writable (c_world s') = writable (c_world s)"
    and "c_threads s' = (c_threads s)(t \<mapsto> th)" and "thread_ok (c_world s') th"
    and "\<And>i. ahead th i = (\<exists>old. c_threads s t = Some old \<and> ahead old i)"
  shows "bids_inv s'"
  using assms(6-8) by (intro bids_inv_quiet [OF assms(1-5)]) blast

lemma bid_act_quiet:
  assumes "bid_act b p w = (p', w')" and "p \<noteq> BP_wait" and "\<And>r. p \<noteq> BP_post r" and "\<And>a. p \<noteq> BP_write a"
    and "\<And>a x. p \<noteq> BP_append a x"
  shows "auctions_file w' = auctions_file w" and "bids_file w' = bids_file w" and "writable w' = writable w"
    and "phase_ok b p w \<Longrightarrow> phase_ok b p' w'" and "ahead (T_bid b p') i = ahead (T_bid b p) i"
proof -
  show f: "auctions_file w' = auctions_file w" "bids_file w' = bids_file w" "writable w' = writable w"
    using assms by (cases p; auto simp: Let_def split: option.splits if_splits)+
  have "phase_ok b p w \<Longrightarrow> phase_ok b p' w"
    using assms by (cases p) (auto simp: Let_def copy_ok_def new_bid_def split: option.splits if_splits)
  then show "phase_ok b p w \<Longrightarrow> phase_ok b p' w'" using same_files(2) [OF f] by simp
  show "ahead (T_bid b p') i = ahead (T_bid b p) i"
    using assms by (cases p) (auto simp: Let_def split: option.splits if_splits)
qed

lemma bids_inv_bid:
  assumes "bids_inv s" and "c_threads s t = Some (T_bid b p)" and "p \<noteq> BP_wait" and "\<And>r. p \<noteq> BP_post r"
    and "bid_act b p (c_world s) = (p', w')"
    and "s' = s\<lparr>c_world := w', c_threads := (c_threads s)(t \<mapsto> T_bid b p')\<rparr>" and "\<And>idx. guarded s' idx"
  shows "bids_inv s'"
proof -
  consider (wr) a where "p = BP_write a" | (app) a x where "p = BP_append a x"
    | (quiet) "\<And>a. p \<noteq> BP_write a" "\<And>a x. p \<noteq> BP_append a x" by (cases p) auto
  then show ?thesis
  proof cases
    case wr
    show ?thesis
      by (rule bids_inv_write [OF assms(1) _ _ assms(7), of t b a]) (use wr assms(2,5,6) in auto)
  next
    case app
    show ?thesis
      by (rule bids_inv_append [OF assms(1) _ _ assms(7), of t b a x]) (use app assms(2,5,6) in auto)
  next
    case quiet
    note q = bid_act_quiet [OF assms(5,3,4) quiet]
    have "thread_ok (c_world s) (T_bid b p)" using assms(1,2) unfolding bids_inv_def by blast
    then have "thread_ok w' (T_bid b p')" using q(4) by simp
    then show ?thesis using assms(2,7) q
      by (intro bids_inv_move [OF assms(1), where t = t and th = "T_bid b p'"]) (simp_all add: assms(6))
  qed
qed

lemma serve_other_files:
  assumes "\<not> touches_auctions rq"
  shows "auctions_file (snd (serve_request popen rq c w)) = auctions_file w"
    and "bids_file (snd (serve_request popen rq c w)) = bids_file w"
  using assms by (cases rq; simp add: serve_request_def case_prod_beta handle_view_balance_def
      handle_change_password_def Let_def split: option.split)+

lemma bids_inv_step:
  assumes "conc_step popen bids_only s s'" and "bids_inv s"
  shows "bids_inv s'"
proof -
  have "\<And>idx. guarded s idx" using assms(2) by (simp add: bids_inv_def)
  then have g: "\<And>idx. guarded s' idx" using guarded_step [OF assms(1)] by blast
  have ok: "thread_ok (c_world s) th" if "c_threads s t = Some th" for t th
    using assms(2) that by (simp add: bids_inv_def)
  from assms(1) show ?thesis
  proof cases
    case (enter t th)
    then obtain b where "th = T_bid b BP_peek" "bid_req_amount (b_req b) \<noteq> NaN" by (cases th) auto
    with enter show ?thesis by (intro bids_inv_move [OF assms(2) g, where t = t and th = th]) simp_all
  next
    case (bid t b p p' w')
    from bids_inv_bid [OF assms(2) bid(2-5,1) g] show ?thesis .
  next
    case (bid_wait t b idx sems sems')
    then show ?thesis using ok [OF bid_wait(2)]
      by (intro bids_inv_move [OF assms(2) g, where t = t and th = "T_bid b BP_reread"]) simp_all
  next
    case (bid_post t b r)
    then show ?thesis using ok [OF bid_post(2)]
      by (intro bids_inv_move [OF assms(2) g, where t = t and th = "T_bid b (BP_reply r)"]) simp_all
  next
    case (close t c p p' w')
    then show ?thesis using ok [OF close(2)] by simp
  next
    case (create t c p p' w')
    then show ?thesis using ok [OF create(2)] by simp
  next
    case (other rq c)
    then show ?thesis by (intro bids_inv_quiet [OF assms(2) g]) (simp_all add: serve_other_files)
  next
    case (clock t)
    then show ?thesis by (intro bids_inv_quiet [OF assms(2) g]) auto
  qed
qed

lemma bids_inv_start:
  assumes "bid_book w" and "numbered auction_id (auctions w)" and "writable w FILE_AUCTIONS" and "writable w FILE_BIDS"
    and "\<forall>b \<in> set (bids w). bid_amount b \<noteq> NaN"
  shows "bids_inv (idle w)"
proof -
  have "in_step a (book i (bids w))" if "read_auction i w = Some a" for i a
    using that assms(1) at.rd_mem [OF that] at.rd_ident [OF assms(2) that] by (auto simp: bid_book_def)
  moreover have "read_auction (bid_auction_id b) w \<noteq> None" if b: "b \<in> set (bids w)" for b
  proof -
    from assms(1) b have "bid_auction_id b \<in> auction_id ` set (auctions w)" by (simp add: bid_book_def)
    then obtain a where "a \<in> set (auctions w)" "auction_id a = bid_auction_id b" by auto
    then obtain k where "k < length (auctions w)" "auctions w ! k = a" by (auto simp: in_set_conv_nth)
    with \<open>auction_id a = _\<close> assms(2) have "slot_of (bid_auction_id b) = k"
      using numbered_slot [OF assms(2), of k] by metis
    with \<open>k < _\<close> show ?thesis by (simp add: at.rd_rows)
  qed
  ultimately show ?thesis
    using assms guarded_reach [OF conc_reach.here]
    by (simp add: bids_inv_def files_ok_def idle_def)
qed

lemma bids_inv_reach:
  assumes "conc_reach popen bids_only (idle w) s" and "bids_inv (idle w)"
  shows "bids_inv s"
  using assms by (induction rule: conc_reach.induct) (auto intro: bids_inv_step)

section \<open>Property\<close>

lemma conc_reach_trans:
  "conc_reach popen kinds s' s'' \<Longrightarrow> conc_reach popen kinds s s' \<Longrightarrow> conc_reach popen kinds s s''"
  by (induction rule: conc_reach.induct) (auto intro: conc_reach.further)

text \<open>C13: Bids that run against each other, in any interleaving of their steps with each
  other and with requests that do not concern auctions, behave, when no amount on file or in a bid
  is NaN: the semaphores admit one thread at a time to the critical section of an auction, and an
  auction that no thread is updating has a record that agrees with its bids on file, which are
  strictly increasing; no bid is lost or accepted against an old price.\<close>

theorem interleaved_bids:
  assumes "conc_reach popen bids_only (idle w) s" and "bid_book w" and "numbered auction_id (auctions w)"
    and "writable w FILE_AUCTIONS" and "writable w FILE_BIDS" and "\<forall>b \<in> set (bids w). bid_amount b \<noteq> NaN"
  shows "(\<forall>t t' b b' p p'. c_threads s t = Some (T_bid b p) \<and> in_critical p \<and>
       c_threads s t' = Some (T_bid b' p') \<and> in_critical p' \<and> b_auction b = b_auction b' \<longrightarrow> t = t') \<and>
    (\<forall>a \<in> set (auctions (c_world s)).
       (\<forall>t b p. c_threads s t = Some (T_bid b p) \<and> in_critical p \<longrightarrow> b_auction b \<noteq> auction_id a) \<longrightarrow>
       in_step a (book (auction_id a) (bids (c_world s))))"
proof -
  have inv: "bids_inv s" using bids_inv_reach [OF assms(1)] bids_inv_start [OF assms(2-6)] .
  then have g: "guarded s idx" for idx by (simp add: bids_inv_def)
  have num: "numbered auction_id (auctions (c_world s))" using inv by (simp add: bids_inv_def files_ok_def)
  have "in_step a (book (auction_id a) (bids (c_world s)))"
    if a: "a \<in> set (auctions (c_world s))"
      and free: "\<forall>t b p. c_threads s t = Some (T_bid b p) \<and> in_critical p \<longrightarrow> b_auction b \<noteq> auction_id a" for a
  proof -
    have "settled s (auction_id a)" using free ahead_inside unfolding settled_def by metis
    moreover have "read_auction (auction_id a) (c_world s) = Some a"
    proof -
      from a obtain k where k: "k < length (auctions (c_world s))" "auctions (c_world s) ! k = a"
        by (auto simp: in_set_conv_nth)
      with numbered_slot [OF num k(1), of "auction_id a"] show ?thesis by (simp add: at.rd_rows)
    qed
    ultimately show ?thesis using inv by (simp add: bids_inv_def)
  qed
  then show ?thesis using other_auction [OF g] by metis
qed

abbreviation lone_auction :: world where
  "lone_auction \<equiv> sample_world\<lparr>auctions_file := Some [sample_auction 1 AUCTION_OPEN 0 100 0 60]\<rparr>"

definition ann_first :: bidder where
  "ann_first = \<lparr>b_fd = 8, b_req = \<lparr>bid_req_auction_id = 1, bid_req_amount = rs 150\<rparr>, b_user = ann\<rparr>"

theorem interleaved_bids_witness:
  "\<exists>s. conc_reach sample_shell bids_only (idle lone_auction) s \<and>
     c_world s = handle_place_bid 8 \<lparr>bid_req_auction_id = 1, bid_req_amount = rs 150\<rparr> ann lone_auction \<and>
     (\<forall>a \<in> set (auctions (c_world s)). in_step a (book (auction_id a) (bids (c_world s))))"
proof -
  let ?s = "(idle lone_auction)\<lparr>c_threads := [1 \<mapsto> T_bid ann_first BP_peek]\<rparr>"
  have start: "conc_reach sample_shell bids_only (idle lone_auction) ?s"
    using conc_reach.further [OF conc_reach.here conc_step.enter [of "idle lone_auction" 1 "T_bid ann_first BP_peek" bids_only sample_shell]]
    by (simp add: idle_def ann_first_def)
  have "free_sem (sem_index (b_auction ann_first)) (c_sems ?s)" by (simp add: free_sem_def idle_def)
  then obtain s where s: "conc_reach sample_shell bids_only ?s s"
    "c_world s = handle_place_bid 8 (b_req ann_first) ann lone_auction" "c_threads s = [1 \<mapsto> T_bid ann_first BP_done]"
    using bid_alone_reaches [of ?s 1 ann_first sample_shell bids_only] by (auto simp: idle_def ann_first_def)
  note reach = conc_reach_trans [OF s(1) start]
  have "numbered auction_id (auctions lone_auction)" by (simp add: numbered_eval)
  from interleaved_bids [OF reach sample_book this] s(2,3) reach show ?thesis
    by (auto simp: ann_first_def split: if_splits)
qed

end
