(* ===== verification/Races.thy ===== *)
theory Races
  imports Interleaving
begin

text \<open>
  What the semaphores leave open. A thread that runs alone does what the sequential definition of
  its handler does; but a settlement takes no semaphore and works on the copy of the record it read
  first, and two creations take the same number.
\<close>

section \<open>Settlements and creations\<close>

lemma reach_close:
  assumes "conc_reach popen kinds s (with_thread s t w sems (T_close c p))" and "close_act c p w = (p', w')"
  shows "conc_reach popen kinds s (with_thread s t w' sems (T_close c p'))"
  using conc_reach.further [OF assms(1) conc_step.close [where t = t and c = c and p = p]] assms(2) by simp

lemma reach_create:
  assumes "conc_reach popen kinds s (with_thread s t w sems (T_create c p))" and "create_act c p w = (p', w')"
  shows "conc_reach popen kinds s (with_thread s t w' sems (T_create c p'))"
  using conc_reach.further [OF assms(1) conc_step.create [where t = t and c = c and p = p]] assms(2) by simp

lemma reach_start:
  assumes "c_threads s t = Some th"
  shows "conc_reach popen kinds s (with_thread s t (c_world s) (c_sems s) th)"
  using conc_reach.here [of popen kinds s] assms by (simp add: with_thread_def map_upd_triv)

fun close_reply :: "closer \<Rightarrow> Auction \<Rightarrow> world \<Rightarrow> world" where
  "close_reply (By_request fd req u) a w =
     log_txn (L_CLOSE_AUCTION (auction_id a) (user_id u)) (send_msg fd MSG_CLOSE_AUCTION_RESP ERR_OK (P_Auction a) w)"
| "close_reply (By_timer i) a w = log_txn (L_TIMER_CLOSE i) w"

lemma reach_settlement:
  assumes "conc_reach popen kinds s (with_thread s t w sems (T_close c (CL_write (a\<lparr>auction_status := AUCTION_CLOSED\<rparr>))))"
  shows "conc_reach popen kinds s (with_thread s t
    (close_reply c (a\<lparr>auction_status := AUCTION_CLOSED\<rparr>) (snd (close_auction_internal a w))) sems (T_close c CL_done))"
proof -
  let ?a = "a\<lparr>auction_status := AUCTION_CLOSED\<rparr>"
  let ?w1 = "snd (write_auction ?a w)"
  have fin: "conc_reach popen kinds s (with_thread s t (close_reply c ?a (notify_auction_closed (seller_id a) (auction_id a) v)) sems (T_close c CL_done))"
    if "conc_reach popen kinds s (with_thread s t v sems (T_close c (CL_closed ?a)))" for v
  proof -
    have "conc_reach popen kinds s (with_thread s t (notify_auction_closed (seller_id a) (auction_id a) v) sems (T_close c (CL_end ?a)))"
      using that by (rule reach_close) simp
    then show ?thesis by (rule reach_close) (cases c; simp)
  qed
  consider (sale) "highest_bidder_id a \<noteq> 0" "reserve_met a" | (refunded) "highest_bidder_id a \<noteq> 0" "\<not> reserve_met a"
    | (none) "highest_bidder_id a = 0" by blast
  then show ?thesis
  proof cases
    case sale
    let ?w2 = "snd (settle_payment (highest_bidder_id a) (current_bid a)
        (log_txn (L_WAL_SETTLE (auction_id a) (highest_bidder_id a) (seller_id a) (current_bid a)) ?w1))"
    let ?w3 = "snd (credit_wallet (seller_id a) (current_bid a) ?w2)"
    let ?w4 = "mark_winning_bids ?a ?w3"
    let ?w5 = "notify_auction_won (highest_bidder_id a) (auction_id a) (current_bid a) ?w4"
    have "conc_reach popen kinds s (with_thread s t ?w1 sems (T_close c (CL_debit ?a)))"
      using assms by (rule reach_close) (simp add: sale reserve_met_def [of ?a] reserve_met_def [of a, symmetric])
    then have "conc_reach popen kinds s (with_thread s t ?w2 sems (T_close c (CL_credit ?a)))"
      by (rule reach_close) simp
    then have "conc_reach popen kinds s (with_thread s t ?w3 sems (T_close c (CL_mark ?a)))"
      by (rule reach_close) simp
    then have "conc_reach popen kinds s (with_thread s t ?w4 sems (T_close c (CL_won ?a)))"
      by (rule reach_close) simp
    then have "conc_reach popen kinds s (with_thread s t ?w5 sems (T_close c (CL_closed ?a)))"
      by (rule reach_close) simp
    from fin [OF this] show ?thesis
      by (simp add: close_auction_internal_def Let_def sale reserve_met_def [of ?a] reserve_met_def [of a, symmetric])
  next
    case refunded
    have "conc_reach popen kinds s (with_thread s t ?w1 sems (T_close c (CL_release ?a)))"
      using assms by (rule reach_close) (simp add: refunded reserve_met_def [of ?a] reserve_met_def [of a, symmetric])
    then have "conc_reach popen kinds s (with_thread s t (snd (release_hold (highest_bidder_id a) (current_bid a) ?w1)) sems
        (T_close c (CL_closed ?a)))"
      by (rule reach_close) simp
    from fin [OF this] show ?thesis
      by (simp add: close_auction_internal_def Let_def refunded reserve_met_def [of ?a] reserve_met_def [of a, symmetric])
  next
    case none
    have "conc_reach popen kinds s (with_thread s t ?w1 sems (T_close c (CL_closed ?a)))"
      using assms by (rule reach_close) (simp add: none)
    from fin [OF this] show ?thesis by (simp add: close_auction_internal_def Let_def none)
  qed
qed

definition sequential_close :: "closer \<Rightarrow> world \<Rightarrow> world" where
  "sequential_close c w =
     (case c of By_request fd req u \<Rightarrow> handle_close_auction fd req u w | By_timer i \<Rightarrow> timer_close i w)"

lemma close_alone_reaches:
  assumes "c_threads s t = Some (T_close c CL_read)"
  shows "conc_reach popen kinds s (with_thread s t (sequential_close c (c_world s)) (c_sems s) (T_close c CL_done))"
proof -
  let ?w = "c_world s"
  note start = reach_start [OF assms, of popen kinds]
  define accepts where "accepts a \<longleftrightarrow> auction_status a = AUCTION_OPEN \<and> (case c of
      By_request fd req u \<Rightarrow> read_auction (close_auction_id req) ?w = Some a \<and> (seller_id a = user_id u \<or> role u = ROLE_ADMIN)
    | By_timer i \<Rightarrow> read_auction i ?w = Some a)" for a
  show ?thesis
  proof (cases "\<exists>a. accepts a")
    case True
    then obtain a where a: "accepts a" ..
    then have "close_act c CL_read ?w = (CL_write (a\<lparr>auction_status := AUCTION_CLOSED\<rparr>), ?w)"
      by (cases c) (auto simp: accepts_def)
    note reach = reach_settlement [OF reach_close [OF start this]]
    have "close_reply c (a\<lparr>auction_status := AUCTION_CLOSED\<rparr>) (snd (close_auction_internal a ?w)) = sequential_close c ?w"
      using a by (cases c) (auto simp: accepts_def sequential_close_def handle_close_auction_def timer_close_def
          case_prod_beta Let_def)
    with reach show ?thesis by simp
  next
    case False
    then have "close_act c CL_read ?w = (CL_done, sequential_close c ?w)"
      by (cases c) (auto simp: accepts_def sequential_close_def handle_close_auction_def timer_close_def
          split: option.splits if_splits)
    then show ?thesis by (rule reach_close [OF start])
  qed
qed

lemma create_alone_reaches:
  assumes "c_threads s t = Some (T_create c CR_number)"
  shows "conc_reach popen kinds s
    (with_thread s t (handle_create_auction (c_fd c) (c_req c) (c_user c) (c_world s)) (c_sems s) (T_create c CR_done))"
proof -
  let ?w = "c_world s"
  note start = reach_start [OF assms, of popen kinds]
  show ?thesis
  proof (cases "create_start_price (c_req c) \<le> 0 \<or> duration_seconds (c_req c) < 10")
    case True
    then show ?thesis by (intro reach_create [OF start]) (auto simp: handle_create_auction_def)
  next
    case False
    let ?a = "new_auction (c_req c) (c_user c) ?w"
    have "conc_reach popen kinds s (with_thread s t ?w (c_sems s) (T_create c (CR_write ?a)))"
      using False by (intro reach_create [OF start]) simp
    then have "conc_reach popen kinds s (with_thread s t (snd (write_auction ?a ?w)) (c_sems s)
        (T_create c (CR_reply ?a (fst (write_auction ?a ?w)))))"
      by (rule reach_create) (simp add: case_prod_beta)
    then show ?thesis
      by (rule reach_create) (use False in \<open>simp add: handle_create_auction_def Let_def case_prod_beta\<close>)
  qed
qed

section \<open>A settlement that overtakes a bid\<close>

lemma overtaking_run:
  assumes "c_threads s t1 = Some (T_bid b BP_peek)" and "free_sem (sem_index (b_auction b)) (c_sems s)"
    and "c_threads s t2 = Some (T_close (By_timer i) CL_read)"
    and "read_auction i (c_world s) = Some a" and "auction_status a = AUCTION_OPEN"
  shows "\<exists>s'. conc_reach popen kinds s s' \<and>
    c_threads s' = (c_threads s)(t1 \<mapsto> T_bid b BP_done, t2 \<mapsto> T_close (By_timer i) CL_done) \<and>
    c_world s' = log_txn (L_TIMER_CLOSE i)
      (snd (close_auction_internal a (handle_place_bid (b_fd b) (b_req b) (b_user b) (c_world s))))"
proof -
  let ?a = "a\<lparr>auction_status := AUCTION_CLOSED\<rparr>" and ?w = "c_world s"
  let ?s1 = "with_thread s t2 ?w (c_sems s) (T_close (By_timer i) (CL_write ?a))"
  have t12: "t1 \<noteq> t2" using assms(1,3) by auto
  have r1: "conc_reach popen kinds s ?s1"
    by (rule reach_close [OF reach_start [OF assms(3)]]) (simp add: assms)
  have "c_threads ?s1 t1 = Some (T_bid b BP_peek)" "free_sem (sem_index (b_auction b)) (c_sems ?s1)"
    using assms(1,2) t12 by simp_all
  from bid_alone_reaches [OF this, of popen kinds] obtain s2 where s2: "conc_reach popen kinds ?s1 s2"
    "c_world s2 = handle_place_bid (b_fd b) (b_req b) (b_user b) ?w" "c_threads s2 = (c_threads ?s1)(t1 \<mapsto> T_bid b BP_done)"
    by auto
  have "c_threads s2 t2 = Some (T_close (By_timer i) (CL_write ?a))" using s2(3) t12 by simp
  note r2 = reach_settlement [OF reach_start [OF this]]
  show ?thesis
    using conc_reach_trans [OF conc_reach_trans [OF r2 s2(1)] r1] s2(2,3) t12
    by (intro exI conjI) (assumption, auto simp: fun_eq_iff)
qed

lemma overtaken_record:
  assumes "numbered auction_id (auctions w)" and "writable w FILE_AUCTIONS" and "bid_accepts req u w a"
  shows "read_auction (bid_req_auction_id req) (snd (close_auction_internal a (handle_place_bid fd req u w))) =
    Some (a\<lparr>auction_status := AUCTION_CLOSED\<rparr>)"
proof -
  let ?i = "bid_req_auction_id req" and ?w1 = "handle_place_bid fd req u w"
  have rd: "read_auction ?i w = Some a" using assms(3) by (simp add: bid_accepts_def)
  have rd1: "read_auction ?i ?w1 = Some (raised req u a)"
    using accepted_auctions [OF assms(3,1,2), of fd] rd by (simp add: at.rd_Some)
  have id: "auction_id (a\<lparr>auction_status := AUCTION_CLOSED\<rparr>) = ?i" using at.rd_ident [OF assms(1) rd] by simp
  have "writable ?w1 FILE_AUCTIONS" using assms(2) by simp
  with at.rd_update [OF rd1 id, of ?i] show ?thesis
    using read_auction_cong [OF close_frame(1) [of a ?w1], of ?i] by simp
qed

lemma overtaken_ledger:
  assumes "ledger_rel w L" and "numbered user_id (users w)" and "writable w FILE_USERS"
    and "bid_accepts req u w a" and "bid_req_amount req = rs m" and "current_bid a = rs c" and "0 < c"
    and "highest_bidder_id a \<noteq> 0" and "reserve_met a"
    and "L (highest_bidder_id a) = Some (bp, hp)" and "c \<le> hp"
    and "L (user_id u) = Some (bu, hu)" and "L (seller_id a) = Some (bs, hs)" and "bs + c < exact_limit"
    and "distinct [highest_bidder_id a, user_id u, seller_id a]"
  shows "ledger_rel (snd (close_auction_internal a (handle_place_bid fd req u w)))
    (L(highest_bidder_id a \<mapsto> (bp - c, max 0 (hp - 2 * c)), user_id u \<mapsto> (bu, hu + m), seller_id a \<mapsto> (bs + c, hs)))"
proof -
  let ?w1 = "handle_place_bid fd req u w" and ?p = "highest_bidder_id a" and ?u = "user_id u" and ?s = "seller_id a"
  let ?L1 = "L(?p \<mapsto> (bp, hp - c), ?u \<mapsto> (bu, hu + m))"
  let ?L2 = "?L1(?p \<mapsto> (bp - c, max 0 (hp - 2 * c)), ?s \<mapsto> (bs + c, hs))"
  have L1: "ledger_rel ?w1 ?L1"
    using bid_ledger [OF assms(1-7), of fd] assms(8,10-12,15) by auto
  have hb: "0 \<le> hp" "hp \<le> bp" "0 \<le> hs" "hs \<le> bs" "bp < exact_limit"
    using ledger_rel_sane [OF assms(1,10)] ledger_rel_sane [OF assms(1,13)] ledger_rel_bounded [OF assms(1)] assms(10)
    by (auto simp: ledger_bounded_def)
  have st: "ledger_settle ?L1 ?p c = Some (?L1(?p \<mapsto> (bp - c, max 0 (hp - 2 * c))))"
    using assms(7,11,15) hb by (simp add: ledger_settle_def ledger_delta_def)
  have "ledger_credit (?L1(?p \<mapsto> (bp - c, max 0 (hp - 2 * c)))) ?s c = Some ?L2"
    using assms(7,13,15) hb by (intro ledger_credit_Some) auto
  with st have cl: "ledger_close ?L1 a c = Some ?L2"
    using assms(8,9) by (simp add: ledger_close_def)
  have bd: "ledger_bounded ?L2"
    using assms(7,14) hb by (intro ledger_bounded_upd [OF ledger_bounded_upd [OF ledger_rel_bounded [OF L1]]]) auto
  have num1: "numbered user_id (users ?w1)"
    using accounts_kept_numbered [OF place_bid_accounts [OF assms(2)]] assms(2) by simp
  have "writable ?w1 FILE_USERS" "0 \<le> c" "c \<le> exact_limit" using assms(3,7,11) hb by simp_all
  from close_refines [OF L1 num1 this(1) assms(6) this(2,3) cl bd]
  show ?thesis using assms(15) by (simp add: fun_upd_twist)
qed

lemma push_sent: "\<exists>ms. sent (push_notification uid t p w) = sent w @ ms"
  by (simp add: push_notification_def send_msg_def Let_def)

lemma settlement_sent:
  assumes "sent v = sent w"
  shows "\<exists>ms. sent (notify_auction_closed i j (notify_auction_won k l x v)) = sent w @ ms"
    and "\<exists>ms. sent (notify_auction_closed i j v) = sent w @ ms"
  unfolding notify_auction_closed_def notify_auction_won_def assms [symmetric]
  using push_sent append_assoc by metis+

lemma close_sent: "\<exists>ms. sent (snd (close_auction_internal a w)) = sent w @ ms"
  by (simp add: close_auction_internal_def Let_def) (intro conjI impI; rule settlement_sent; simp)

lemma accepted_sent:
  assumes "bid_accepts req u w a"
  shows "(fd, \<lparr>msg_type = MSG_PLACE_BID_RESP, msg_status = ERR_OK, msg_payload = P_Bid (new_bid req u w)\<rparr>)
    \<in> set (sent (handle_place_bid fd req u w))"
  by (simp add: place_bid_accepted [OF assms] place_bid_respond_def notify_outbid_def push_notification_def
      send_msg_def log_txn_def Let_def)

section \<open>Properties\<close>

text \<open>C25: A thread that runs alone does what the sequential model of its handler does: from any state
  of the interleaved server a bid whose semaphore is free, a settlement, and a creation can run to
  their end, and leave the files, wallets and messages that \<^const>\<open>handle_place_bid\<close>,
  \<^const>\<open>handle_close_auction\<close> or \<^const>\<open>timer_close\<close>, and \<^const>\<open>handle_create_auction\<close> leave.\<close>

theorem alone_is_sequential:
  assumes "c_threads s t1 = Some (T_bid b BP_peek)" and "free_sem (sem_index (b_auction b)) (c_sems s)"
    and "c_threads s t2 = Some (T_close c CL_read)" and "c_threads s t3 = Some (T_create r CR_number)"
  shows "(\<exists>s'. conc_reach popen kinds s s' \<and> c_threads s' = (c_threads s)(t1 \<mapsto> T_bid b BP_done) \<and>
      c_world s' = handle_place_bid (b_fd b) (b_req b) (b_user b) (c_world s)) \<and>
    (\<exists>s'. conc_reach popen kinds s s' \<and> c_threads s' = (c_threads s)(t2 \<mapsto> T_close c CL_done) \<and>
      c_world s' = (case c of By_request fd req u \<Rightarrow> handle_close_auction fd req u (c_world s)
                            | By_timer i \<Rightarrow> timer_close i (c_world s))) \<and>
    (\<exists>s'. conc_reach popen kinds s s' \<and> c_threads s' = (c_threads s)(t3 \<mapsto> T_create r CR_done) \<and>
      c_world s' = handle_create_auction (c_fd r) (c_req r) (c_user r) (c_world s))"
proof (intro conjI)
  show "\<exists>s'. conc_reach popen kinds s s' \<and> c_threads s' = (c_threads s)(t1 \<mapsto> T_bid b BP_done) \<and>
      c_world s' = handle_place_bid (b_fd b) (b_req b) (b_user b) (c_world s)"
    using bid_alone_reaches [OF assms(1,2)] by blast
  show "\<exists>s'. conc_reach popen kinds s s' \<and> c_threads s' = (c_threads s)(t2 \<mapsto> T_close c CL_done) \<and>
      c_world s' = (case c of By_request fd req u \<Rightarrow> handle_close_auction fd req u (c_world s)
                            | By_timer i \<Rightarrow> timer_close i (c_world s))"
    by (intro exI conjI, rule close_alone_reaches [OF assms(3)]) (simp_all add: sequential_close_def)
  show "\<exists>s'. conc_reach popen kinds s s' \<and> c_threads s' = (c_threads s)(t3 \<mapsto> T_create r CR_done) \<and>
      c_world s' = handle_create_auction (c_fd r) (c_req r) (c_user r) (c_world s)"
    by (intro exI conjI, rule create_alone_reaches [OF assms(4)]) simp_all
qed

definition ann_bids :: bidder where
  "ann_bids = \<lparr>b_fd = 8, b_req = \<lparr>bid_req_auction_id = 2, bid_req_amount = rs 400\<rparr>, b_user = ann\<rparr>"

definition sam_creates :: creator where
  "sam_creates = \<lparr>c_fd = 9, c_req = sample_creation, c_user = sample_user 2 ''sam'' ROLE_AUCTIONEER 150 0\<rparr>"

definition busy :: conc where
  \<comment> \<open>a bid of 400 on auction 2, the timer about to close it, and two creations\<close>
  "busy = (idle sample_world)\<lparr>c_threads :=
     [1 \<mapsto> T_bid ann_bids BP_peek, 2 \<mapsto> T_close (By_timer 2) CL_read, 3 \<mapsto> T_create sam_creates CR_number,
      4 \<mapsto> T_create sam_creates CR_number]\<rparr>"

lemma busy_simps [simp]:
  "c_world busy = sample_world" "c_sems busy = (\<lambda>_. None)" "c_threads busy 1 = Some (T_bid ann_bids BP_peek)"
  "c_threads busy 2 = Some (T_close (By_timer 2) CL_read)"
  "c_threads busy 3 = Some (T_create sam_creates CR_number)"
  "c_threads busy 4 = Some (T_create sam_creates CR_number)"
  by (simp_all add: busy_def idle_def)

theorem alone_is_sequential_witness:
  "\<exists>s'. conc_reach sample_shell (\<lambda>_. True) busy s' \<and>
    c_world s' = handle_place_bid 8 \<lparr>bid_req_auction_id = 2, bid_req_amount = rs 400\<rparr> ann sample_world"
proof -
  have "free_sem (sem_index (b_auction ann_bids)) (c_sems busy)" by (simp add: free_sem_def)
  from alone_is_sequential [OF busy_simps(3) this busy_simps(4,5)] show ?thesis by (auto simp: ann_bids_def)
qed


text \<open>C17: A settlement can overtake a bid: between the moment the timer reads an open auction and the
  moment it writes the record back closed, a higher bid can run to its end, because a settlement
  takes no semaphore. The bidder is told that the bid stands and it is on file, but the record is
  overwritten with the closed copy of the old leader; on whole amounts the old leader pays the old
  price although the hold for it is gone, so twice the price leaves the holds, and the new
  bidder's hold remains although no open auction needs it.\<close>

theorem settlement_overtakes_bid:
  assumes "c_threads s t1 = Some (T_bid b BP_peek)" and "free_sem (sem_index (b_auction b)) (c_sems s)"
    and "c_threads s t2 = Some (T_close (By_timer (b_auction b)) CL_read)" and "w = c_world s"
    and "numbered auction_id (auctions w)" and "numbered user_id (users w)"
    and "writable w FILE_AUCTIONS" and "writable w FILE_USERS" and "writable w FILE_BIDS"
    and "bid_accepts (b_req b) (b_user b) w a" and "bid_req_amount (b_req b) = rs m"
    and "current_bid a = rs c" and "0 < c" and "highest_bidder_id a \<noteq> 0" and "reserve_met a"
    and "ledger_rel w L" and "L (highest_bidder_id a) = Some (bp, hp)" and "c \<le> hp"
    and "L (user_id (b_user b)) = Some (bu, hu)" and "L (seller_id a) = Some (bs, hs)" and "bs + c < exact_limit"
    and "distinct [highest_bidder_id a, user_id (b_user b), seller_id a]"
  shows "\<exists>s' x. conc_reach popen kinds s s' \<and>
    c_threads s' = (c_threads s)(t1 \<mapsto> T_bid b BP_done, t2 \<mapsto> T_close (By_timer (b_auction b)) CL_done) \<and>
    (b_fd b, \<lparr>msg_type = MSG_PLACE_BID_RESP, msg_status = ERR_OK, msg_payload = P_Bid x\<rparr>) \<in> set (sent (c_world s')) \<and>
    (\<exists>y \<in> set (bids (c_world s')). bid_auction_id y = b_auction b \<and> bidder_id y = user_id (b_user b) \<and>
       bid_amount y = rs m) \<and>
    read_auction (b_auction b) (c_world s') = Some (a\<lparr>auction_status := AUCTION_CLOSED\<rparr>) \<and>
    ledger_rel (c_world s') (L(highest_bidder_id a \<mapsto> (bp - c, max 0 (hp - 2 * c)),
      user_id (b_user b) \<mapsto> (bu, hu + m), seller_id a \<mapsto> (bs + c, hs)))"
proof -
  let ?i = "b_auction b" and ?w1 = "handle_place_bid (b_fd b) (b_req b) (b_user b) w"
  note acc = assms(10)
  have "read_auction ?i (c_world s) = Some a" "auction_status a = AUCTION_OPEN"
    using acc assms(4) by (simp_all add: bid_accepts_def)
  from overtaking_run [OF assms(1-3) this, of popen kinds] obtain s' where s': "conc_reach popen kinds s s'"
    "c_threads s' = (c_threads s)(t1 \<mapsto> T_bid b BP_done, t2 \<mapsto> T_close (By_timer ?i) CL_done)"
    "c_world s' = log_txn (L_TIMER_CLOSE ?i) (snd (close_auction_internal a ?w1))" using assms(4) by auto
  obtain f where f: "flag_only f" "bids (snd (close_auction_internal a ?w1)) = map f (bids ?w1)"
    using bids_close by blast
  then have on_file: "f (new_bid (b_req b) (b_user b) w) \<in> set (bids (c_world s'))"
    using accepted_bids [OF acc assms(9), of "b_fd b"] by (simp add: s'(3))
  have msg: "(b_fd b, \<lparr>msg_type = MSG_PLACE_BID_RESP, msg_status = ERR_OK, msg_payload = P_Bid (new_bid (b_req b) (b_user b) w)\<rparr>)
      \<in> set (sent (c_world s'))"
    using accepted_sent [OF acc, of "b_fd b"] close_sent [of a ?w1] by (auto simp: s'(3))
  have led: "ledger_rel (c_world s') (L(highest_bidder_id a \<mapsto> (bp - c, max 0 (hp - 2 * c)),
      user_id (b_user b) \<mapsto> (bu, hu + m), seller_id a \<mapsto> (bs + c, hs)))"
    using overtaken_ledger [OF assms(16,6,8) acc assms(11-15,17-22), of "b_fd b"] by (simp add: s'(3) cong: ledger_rel_cong)
  have "read_auction ?i (c_world s') = Some (a\<lparr>auction_status := AUCTION_CLOSED\<rparr>)"
    using overtaken_record [OF assms(5,7) acc, of "b_fd b"] by (simp add: s'(3))
  moreover have "\<exists>y \<in> set (bids (c_world s')). bid_auction_id y = ?i \<and> bidder_id y = user_id (b_user b) \<and> bid_amount y = rs m"
    using on_file f(1) assms(11) by (intro bexI [OF _ on_file]) (simp add: flag_only_keeps new_bid_def)
  ultimately show ?thesis using s'(1,2) msg led by blast
qed

theorem settlement_overtakes_bid_witness:
  "\<exists>s' y. conc_reach sample_shell (\<lambda>_. True) busy s' \<and> y \<in> set (bids (c_world s')) \<and> bid_amount y = rs 400 \<and>
     read_auction 2 (c_world s') = Some (sample_auction 2 AUCTION_CLOSED 0 300 3 70) \<and>
     ledger_rel (c_world s') (sample_ledger(3 \<mapsto> (700, 0), 4 \<mapsto> (800, 600), 2 \<mapsto> (450, 0)))"
proof -
  let ?a = "sample_auction 2 AUCTION_OPEN 0 300 3 70"
  have "bid_accepts (b_req ann_bids) (b_user ann_bids) sample_world ?a" using sample_bid_accepts by (simp add: ann_bids_def)
  moreover have "c_threads busy 2 = Some (T_close (By_timer (b_auction ann_bids)) CL_read)" by (simp add: ann_bids_def)
  moreover have "free_sem (sem_index (b_auction ann_bids)) (c_sems busy)" by (simp add: free_sem_def)
  ultimately have "\<exists>s' x. conc_reach sample_shell (\<lambda>_. True) busy s' \<and>
    c_threads s' = (c_threads busy)(1 \<mapsto> T_bid ann_bids BP_done, 2 \<mapsto> T_close (By_timer (b_auction ann_bids)) CL_done) \<and>
    (b_fd ann_bids, \<lparr>msg_type = MSG_PLACE_BID_RESP, msg_status = ERR_OK, msg_payload = P_Bid x\<rparr>) \<in> set (sent (c_world s')) \<and>
    (\<exists>y \<in> set (bids (c_world s')). bid_auction_id y = b_auction ann_bids \<and> bidder_id y = user_id (b_user ann_bids) \<and>
       bid_amount y = rs 400) \<and>
    read_auction (b_auction ann_bids) (c_world s') = Some (?a\<lparr>auction_status := AUCTION_CLOSED\<rparr>) \<and>
    ledger_rel (c_world s') (sample_ledger(highest_bidder_id ?a \<mapsto> (1000 - 300, max 0 (300 - 2 * 300)),
      user_id (b_user ann_bids) \<mapsto> (800, 200 + 400), seller_id ?a \<mapsto> (150 + 300, 0)))"
    by (intro settlement_overtakes_bid [OF busy_simps(3) _ _ busy_simps(1) [symmetric] sample_numbered(2,1), where m = 400])
      (simp_all add: ann_bids_def sample_ledger_rel sample_ledger_def reserve_met_def dbl_eq_def exact_limit_def)
  moreover have "?a\<lparr>auction_status := AUCTION_CLOSED\<rparr> = sample_auction 2 AUCTION_CLOSED 0 300 3 70"
    by (simp add: sample_auction_def)
  ultimately show ?thesis by (fastforce simp: ann_bids_def)
qed

text \<open>Two creations can take the same number: when both threads ask for the next identifier before
  either writes, both sellers are told that their auction exists, under one identifier, and the
  file holds only the record written last.\<close>

lemma creation_lost:
  assumes "c_threads s t1 = Some (T_create r1 CR_number)" and "c_threads s t2 = Some (T_create r2 CR_number)"
    and "t1 \<noteq> t2" and "writable (c_world s) FILE_AUCTIONS" and "length (auctions (c_world s)) + 1 < 2 ^ 32"
    and "\<not> create_start_price (c_req r1) \<le> 0" and "10 \<le> duration_seconds (c_req r1)"
    and "\<not> create_start_price (c_req r2) \<le> 0" and "10 \<le> duration_seconds (c_req r2)"
  shows "\<exists>s' a1 a2. conc_reach popen kinds s s' \<and> auction_id a1 = auction_id a2 \<and>
    seller_id a1 = user_id (c_user r1) \<and> seller_id a2 = user_id (c_user r2) \<and>
    auctions (c_world s') = auctions (c_world s) @ [a2] \<and>
    sent (c_world s') = sent (c_world s) @
      [(c_fd r1, \<lparr>msg_type = MSG_CREATE_AUCTION_RESP, msg_status = ERR_OK, msg_payload = P_Auction a1\<rparr>),
       (c_fd r2, \<lparr>msg_type = MSG_CREATE_AUCTION_RESP, msg_status = ERR_OK, msg_payload = P_Auction a2\<rparr>)]"
proof -
  let ?w = "c_world s" and ?done = "\<lambda>c a w. log_txn (L_CREATE_AUCTION (auction_id a) (user_id (c_user c)) (item_name a) (end_time a))
        (send_msg (c_fd c) MSG_CREATE_AUCTION_RESP ERR_OK (P_Auction a) w)"
  define a1 a2 where "a1 = new_auction (c_req r1) (c_user r1) ?w" and "a2 = new_auction (c_req r2) (c_user r2) ?w"
  have id: "auction_id a1 = next_auction_id ?w" "auction_id a2 = next_auction_id ?w"
    by (simp_all add: a1_def a2_def new_auction_def)
  define w1 where "w1 = snd (write_auction a1 ?w)"
  define w2 where "w2 = snd (write_auction a2 w1)"
  have wr: "fst (write_auction a1 ?w) = 0" "fst (write_auction a2 w1) = 0"
    using assms(4) by (simp_all add: w1_def write_auction_def)
  have start: "create_act r1 CR_number ?w = (CR_write a1, ?w)" "create_act r2 CR_number ?w = (CR_write a2, ?w)"
    using assms(6-9) by (simp_all add: a1_def a2_def not_less)
  let ?s1 = "with_thread s t1 ?w (c_sems s) (T_create r1 (CR_write a1))"
  let ?s2 = "with_thread ?s1 t2 ?w (c_sems s) (T_create r2 (CR_write a2))"
  let ?s3 = "with_thread ?s2 t1 w1 (c_sems s) (T_create r1 (CR_reply a1 0))"
  let ?s4 = "with_thread ?s3 t2 w2 (c_sems s) (T_create r2 (CR_reply a2 0))"
  let ?s5 = "with_thread ?s4 t1 (?done r1 a1 w2) (c_sems s) (T_create r1 CR_done)"
  let ?s6 = "with_thread ?s5 t2 (?done r2 a2 (?done r1 a1 w2)) (c_sems s) (T_create r2 CR_done)"
  note [simp] = assms(1-3) assms(3) [symmetric]
  note step = reach_create [OF reach_start]
  have "conc_reach popen kinds s ?s1" using step [OF assms(1), of _ _ popen kinds] start(1) by simp
  moreover have "conc_reach popen kinds ?s1 ?s2" using step [of ?s1 t2 r2 CR_number _ _ popen kinds] start(2) by simp
  moreover have "conc_reach popen kinds ?s2 ?s3"
    using step [of ?s2 t1 r1 "CR_write a1" _ _ popen kinds] wr(1) by (simp add: w1_def case_prod_beta Let_def)
  moreover have "conc_reach popen kinds ?s3 ?s4"
    using step [of ?s3 t2 r2 "CR_write a2" _ _ popen kinds] wr(2) by (simp add: w2_def case_prod_beta Let_def)
  moreover have "conc_reach popen kinds ?s4 ?s5"
    using step [of ?s4 t1 r1 "CR_reply a1 0" _ _ popen kinds] by simp
  moreover have "conc_reach popen kinds ?s5 ?s6"
    using step [of ?s5 t2 r2 "CR_reply a2 0" _ _ popen kinds] by simp
  ultimately have reach: "conc_reach popen kinds s ?s6" by (meson conc_reach_trans)
  have rows1: "auctions w1 = auctions ?w @ [a1]"
    unfolding w1_def using at.rows_create [of a1 ?w] id(1) assms(4,5) by simp
  have "writable w1 FILE_AUCTIONS" using assms(4) by (simp add: w1_def)
  then have "auctions w2 = auctions ?w @ [a2]"
    unfolding w2_def using at.rows_existing [of w1 a2] rows1 id(2) assms(5)
    by (simp add: at.fresh_def slot_of_Suc)
  moreover have "sent w2 = sent ?w" by (simp add: w2_def w1_def)
  ultimately show ?thesis
    using reach id by (intro exI [of _ ?s6] exI [of _ a1] exI [of _ a2])
      (simp add: a1_def a2_def new_auction_def send_msg_def)
qed

end
