(* ===== verification/Bytes.thy ===== *)
theory Bytes
  imports Models
begin

text \<open>
  The bytes of C values, as \<^verbatim>\<open>write(fd, &x, sizeof x)\<close> and a cast of a buffer to a struct see them:
  little-endian integers, IEEE 754 doubles and arrays at the sizes and offsets of the usual 64-bit
  ABI (an \<^verbatim>\<open>int\<close> and an enum take four bytes, a \<^verbatim>\<open>double\<close> and a \<^verbatim>\<open>time_t\<close> eight, each at a multiple
  of its size). A byte is a character.

  The locale \<open>codec\<close> is the contract of an encoding of fixed size: decoding undoes encoding,
  also for a field in the middle of a struct and for an array of structs.
\<close>

section \<open>Integers\<close>

fun le_bytes :: "nat \<Rightarrow> nat \<Rightarrow> char list" where
  "le_bytes 0 x = []"
| "le_bytes (Suc n) x = char_of (x mod 256) # le_bytes n (x div 256)"

fun le_nat :: "char list \<Rightarrow> nat" where
  "le_nat [] = 0"
| "le_nat (c # cs) = of_char c + 256 * le_nat cs"

lemma length_le_bytes [simp]: "length (le_bytes n x) = n"
  by (induction n arbitrary: x) auto

lemma le_nat_le_bytes: "le_nat (le_bytes n x) = x mod 256 ^ n"
  by (induction n arbitrary: x) (auto simp: mod_mult2_eq)

definition enc_u32 :: "u32 \<Rightarrow> char list" where
  "enc_u32 x = le_bytes 4 (unat x)"

definition dec_u32 :: "char list \<Rightarrow> u32" where
  "dec_u32 bs = word_of_nat (le_nat bs)"

definition enc_signed :: "nat \<Rightarrow> int \<Rightarrow> char list" where
  \<comment> \<open>two's complement in \<open>n\<close> bytes\<close>
  "enc_signed n i = le_bytes n (nat (i mod 256 ^ n))"

definition dec_signed :: "nat \<Rightarrow> char list \<Rightarrow> int" where
  "dec_signed n bs = (let x = int (le_nat bs) in if 2 * x < 256 ^ n then x else x - 256 ^ n)"

definition fits :: "nat \<Rightarrow> int \<Rightarrow> bool" where
  "fits n i \<longleftrightarrow> - (256 ^ n) \<le> 2 * i \<and> 2 * i < 256 ^ n"

lemma dec_enc_signed:
  assumes "fits n i"
  shows "dec_signed n (enc_signed n i) = i"
proof -
  have "nat (i mod 256 ^ n) < 256 ^ n"
    by (simp add: nat_less_iff)
  then have x: "int (le_nat (enc_signed n i)) = i mod 256 ^ n"
    by (simp add: enc_signed_def le_nat_le_bytes)
  show ?thesis
  proof (cases "0 \<le> i")
    case True
    then have "i mod 256 ^ n = i" using assms by (simp add: fits_def)
    then show ?thesis using x assms by (simp add: dec_signed_def fits_def)
  next
    case False
    then have "i mod 256 ^ n = i + 256 ^ n"
      using assms by (intro mod_pos_pos_trivial [of "i + 256 ^ n" "256 ^ n", simplified]) (auto simp: fits_def)
    then show ?thesis using x assms False by (simp add: dec_signed_def fits_def)
  qed
qed

definition enc_flag :: "bool \<Rightarrow> char list" where
  \<comment> \<open>an \<^verbatim>\<open>int\<close> used as a flag\<close>
  "enc_flag b = enc_signed 4 (of_bool b)"

definition dec_flag :: "char list \<Rightarrow> bool" where
  "dec_flag bs = (dec_signed 4 bs \<noteq> 0)"

section \<open>Doubles\<close>

definition dbl_bits :: "dbl \<Rightarrow> nat" where
  \<comment> \<open>sign, biased exponent and fraction. For \<open>Fin n\<close> with \<open>e\<close> excess bits the exponent field is
    \<open>e + 1\<close> and the significand \<open>\<bar>n\<bar> / 2 ^ e\<close> (0 and no implicit bit for a subnormal), whose
    leading bit adds the one to the field.\<close>
  "dbl_bits d = (case d of
      NaN \<Rightarrow> 2047 * 2 ^ 52 + 2 ^ 51
    | PInf \<Rightarrow> 2047 * 2 ^ 52
    | MInf \<Rightarrow> 2047 * 2 ^ 52 + 2 ^ 63
    | Fin n \<Rightarrow> nat \<bar>n\<bar> div 2 ^ excess n + excess n * 2 ^ 52 + (if n < 0 then 2 ^ 63 else 0))"

definition bits_dbl :: "nat \<Rightarrow> dbl" where
  "bits_dbl x =
     (let neg = 2 ^ 63 \<le> x; m = x mod 2 ^ 63; ex = m div 2 ^ 52; fr = m mod 2 ^ 52
      in if ex = 2047 then if fr \<noteq> 0 then NaN else if neg then MInf else PInf
         else let v = (if ex = 0 then int fr else int (2 ^ 52 + fr) * 2 ^ (ex - 1))
              in Fin (if neg then - v else v))"

definition dbl_ok :: "dbl \<Rightarrow> bool" where
  \<comment> \<open>a value of the C type: at most 53 significant bits, below \<open>2 ^ 1024\<close>\<close>
  "dbl_ok d = (case d of Fin n \<Rightarrow> 2 ^ excess n dvd n \<and> \<bar>n\<bar> < overflow | _ \<Rightarrow> True)"

definition enc_dbl :: "dbl \<Rightarrow> char list" where
  "enc_dbl d = le_bytes 8 (dbl_bits d)"

definition dec_dbl :: "char list \<Rightarrow> dbl" where
  "dec_dbl bs = bits_dbl (le_nat bs)"

lemma excess_cases:
  assumes "dbl_ok (Fin n)"
  shows "excess n = 0 \<and> nat \<bar>n\<bar> < 2 ^ 53 \<or>
    0 < excess n \<and> excess n < 2046 \<and> (\<exists>q. nat \<bar>n\<bar> = q * 2 ^ excess n \<and> 2 ^ 52 \<le> q \<and> q < 2 ^ 53)"
proof (cases "bitlen \<bar>n\<bar> \<le> 53")
  case True
  then have "\<bar>n\<bar> < 2 ^ 53" by (simp add: bitlen_le_iff_power)
  moreover from this have "nat \<bar>n\<bar> < nat (2 ^ 53)" by (intro nat_less_iff [THEN iffD2]) auto
  ultimately show ?thesis by (simp add: excess_small)
next
  case False
  define e where "e = excess n"
  from False have len: "bitlen \<bar>n\<bar> = 53 + int e" and "0 < e" by (simp_all add: e_def excess_def)
  from False have "n \<noteq> 0" by (auto simp: bitlen_eq_zero_iff)
  then have b: "2 ^ (52 + e) \<le> \<bar>n\<bar>" "\<bar>n\<bar> < 2 ^ (53 + e)"
    using bitlen_bounds [of "\<bar>n\<bar>"] len by (simp_all add: nat_add_distrib)
  from assms have dvd: "2 ^ e dvd n" and ov: "\<bar>n\<bar> < overflow" by (simp_all add: dbl_ok_def e_def)
  have "(2::int) ^ (52 + e) < 2 ^ (1024 + 1074)"
    using b(1) ov by (simp only: overflow_def one_def power_add [symmetric])
  then have "52 + e < 1024 + 1074" by (simp only: power_strict_increasing_iff)
  then have "e < 2046" by simp
  from dvd obtain k where k: "n = 2 ^ e * k" by (rule dvdE)
  have "2 ^ e * 2 ^ 52 \<le> 2 ^ e * \<bar>k\<bar>" "2 ^ e * \<bar>k\<bar> < 2 ^ e * 2 ^ 53"
    using b by (simp_all only: k abs_mult power_add) (simp_all add: mult.commute)
  then have "2 ^ 52 \<le> \<bar>k\<bar>" "\<bar>k\<bar> < 2 ^ 53" by (simp_all only: mult_le_cancel_left_pos mult_less_cancel_left_pos zero_less_power zero_less_numeral)
  moreover have "nat \<bar>n\<bar> = nat \<bar>k\<bar> * 2 ^ e"
    by (simp add: k abs_mult nat_mult_distrib nat_power_eq mult.commute)
  ultimately show ?thesis using \<open>0 < e\<close> \<open>e < 2046\<close>
    by (intro disjI2 conjI exI [of _ "nat \<bar>k\<bar>"]) (simp_all add: e_def)
qed

lemma dbl_bits_bound: "dbl_ok d \<Longrightarrow> dbl_bits d < 2 ^ 64"
proof (cases d)
  case (Fin n)
  assume "dbl_ok d"
  then have "dbl_ok (Fin n)" by (simp add: Fin)
  from excess_cases [OF this] show ?thesis
  proof (elim disjE conjE exE)
    fix q assume "excess n < 2046" "nat \<bar>n\<bar> = q * 2 ^ excess n" "q < 2 ^ 53"
    moreover from this have "nat \<bar>n\<bar> div 2 ^ excess n = q" by simp
    ultimately show ?thesis by (simp add: Fin dbl_bits_def)
  next
    assume "excess n = 0" "nat \<bar>n\<bar> < 2 ^ 53"
    then show ?thesis by (cases "n < 0") (simp_all add: Fin dbl_bits_def)
  qed
qed (simp_all add: dbl_bits_def)

lemma bits_dbl_sign:
  assumes "m < 2047 * 2 ^ 52"
  shows "bits_dbl (m + (if neg then 2 ^ 63 else 0)) =
    Fin ((if neg then -1 else 1) *
      (if m div 2 ^ 52 = 0 then int (m mod 2 ^ 52) else int (2 ^ 52 + m mod 2 ^ 52) * 2 ^ (m div 2 ^ 52 - 1)))"
proof -
  have "m div 2 ^ 52 < 2047" using assms by (simp add: less_mult_imp_div_less)
  moreover have "m < 2 ^ 63" using assms by simp
  ultimately show ?thesis by (cases neg) (simp_all add: bits_dbl_def Let_def)
qed

lemma bits_dbl_bits: "dbl_ok d \<Longrightarrow> bits_dbl (dbl_bits d) = d"
proof (cases d)
  case (Fin n)
  assume "dbl_ok d"
  then have "dbl_ok (Fin n)" by (simp add: Fin)
  from excess_cases [OF this] show ?thesis
  proof (elim disjE conjE exE)
    assume e: "excess n = 0" and b: "nat \<bar>n\<bar> < 2 ^ 53"
    show ?thesis
    proof (cases "nat \<bar>n\<bar> < 2 ^ 52")
      case True
      then show ?thesis using e
        by (simp add: Fin dbl_bits_def bits_dbl_sign)
    next
      case False
      then have "nat \<bar>n\<bar> div 2 ^ 52 = 1" using b by simp
      moreover from this have "nat \<bar>n\<bar> mod 2 ^ 52 = nat \<bar>n\<bar> - 2 ^ 52" by (simp add: modulo_nat_def)
      ultimately show ?thesis using e b False
        by (simp add: Fin dbl_bits_def bits_dbl_sign of_nat_diff)
    qed
  next
    fix q assume e: "0 < excess n" "excess n < 2046" and q: "nat \<bar>n\<bar> = q * 2 ^ excess n"
      and b: "2 ^ 52 \<le> q" "q < 2 ^ 53"
    define m where "m = q + excess n * 2 ^ 52"
    have "m = (q - 2 ^ 52) + (excess n + 1) * 2 ^ 52" using b by (simp add: m_def)
    moreover have "q - 2 ^ 52 < 2 ^ 52" using b by simp
    ultimately have m: "m div 2 ^ 52 = excess n + 1" "m mod 2 ^ 52 = q - 2 ^ 52"
      by (simp_all only: div_mult_self1 mod_mult_self1 div_less mod_less add_0)
    have "m < 2047 * 2 ^ 52" using e b by (simp add: m_def)
    from bits_dbl_sign [OF this, of "n < 0"] m b
    have "bits_dbl (m + (if n < 0 then 2 ^ 63 else 0)) =
        Fin ((if n < 0 then -1 else 1) * (int q * 2 ^ excess n))"
      by (simp add: of_nat_diff)
    moreover have "int q * 2 ^ excess n = \<bar>n\<bar>" using arg_cong [OF q, of int] by simp
    moreover have "dbl_bits d = m + (if n < 0 then 2 ^ 63 else 0)"
      using q by (simp add: Fin dbl_bits_def m_def)
    ultimately show ?thesis by (simp add: Fin)
  qed
qed (simp_all add: dbl_bits_def bits_dbl_def Let_def)

lemma dbl_ok_rs: "\<bar>k\<bar> < 2 ^ 53 \<Longrightarrow> dbl_ok (rs k)"
  using excess_scaled [of k 1074, folded one_def] one_bound [of k]
    dvd_mult [OF le_imp_power_dvd, of "excess (k * one)" 1074 "2 :: int" k, folded one_def]
  by (simp add: dbl_ok_def rs_def)

lemma dbl_ok_simps [simp]: "dbl_ok NaN" "dbl_ok PInf" "dbl_ok MInf" "dbl_ok 0" "dbl_ok (- d) = dbl_ok d"
proof -
  show "dbl_ok 0" by (simp add: dbl_ok_def zero_dbl_def excess_def overflow_def)
  show "dbl_ok (- d) = dbl_ok d" by (cases d) (simp_all add: dbl_ok_def excess_def)
qed (simp_all add: dbl_ok_def)

lemma rne_near:
  "\<exists>q. rne e n = q * 2 ^ e \<and> \<bar>q * 2 ^ e\<bar> < \<bar>n\<bar> + 2 ^ e"
proof -
  let ?q = "n div 2 ^ e" and ?r = "n mod 2 ^ e"
  have n: "n = ?q * 2 ^ e + ?r" by (rule div_mult_mod_eq [symmetric])
  have r: "0 \<le> ?r" "?r < 2 ^ e" by simp_all
  show ?thesis
  proof (cases "2 * ?r < 2 ^ e \<or> 2 * ?r = 2 ^ e \<and> even ?q")
    case True
    then have "rne e n = ?q * 2 ^ e" by (simp only: rne_def Let_def if_True)
    moreover have "\<bar>?q * 2 ^ e\<bar> < \<bar>n\<bar> + 2 ^ e" using n r by linarith
    ultimately show ?thesis by blast
  next
    case False
    then have "rne e n = (?q + 1) * 2 ^ e" by (simp only: rne_def Let_def if_False)
    moreover have "0 < ?r" using False r by (cases "?r = 0") (simp, linarith)
    moreover have "\<bar>(?q + 1) * 2 ^ e\<bar> < \<bar>n\<bar> + 2 ^ e"
      using n r \<open>0 < ?r\<close> by (simp only: distrib_right mult_1)
    ultimately show ?thesis by blast
  qed
qed

lemma excess_multiple:
  assumes "\<bar>q\<bar> \<le> 2 ^ 53"
  shows "2 ^ excess (q * 2 ^ e) dvd q * 2 ^ e"
proof (cases "\<bar>q\<bar> = 2 ^ 53")
  case True
  define k where "k = (if q < 0 then -1 else 1 :: int)"
  have q: "q * 2 ^ e = k * 2 ^ (53 + e)" using True by (auto simp: k_def power_add abs_if split: if_splits)
  have "\<bar>k\<bar> < 2 ^ 53" by (simp add: k_def)
  then show ?thesis unfolding q using excess_scaled [of k "53 + e"] by (simp add: dvd_mult le_imp_power_dvd)
next
  case False
  with assms have "\<bar>q\<bar> < 2 ^ 53" by simp
  from excess_scaled [OF this, of e] show ?thesis by (simp add: dvd_mult le_imp_power_dvd)
qed

lemma rne_fits:
  assumes "\<bar>n\<bar> < 2 ^ (53 + e)"
  shows "\<exists>q. rne e n = q * 2 ^ e \<and> \<bar>q\<bar> \<le> 2 ^ 53"
proof -
  obtain q where q: "rne e n = q * 2 ^ e" "\<bar>q * 2 ^ e\<bar> < \<bar>n\<bar> + 2 ^ e"
    using rne_near by blast
  have "\<bar>q\<bar> * 2 ^ e < 2 ^ (53 + e) + 2 ^ e" using q(2) assms by (simp add: abs_mult)
  then have "\<bar>q\<bar> * 2 ^ e < (2 ^ 53 + 1) * 2 ^ e" by (simp only: distrib_right power_add mult_1)
  then have "\<bar>q\<bar> < 2 ^ 53 + 1" by (simp only: mult_less_cancel_right_pos zero_less_power zero_less_numeral)
  with q(1) show ?thesis by (intro exI [of _ q]) simp
qed

lemma excess_bound: "\<bar>n\<bar> < 2 ^ (53 + excess n)"
proof -
  have "bitlen \<bar>n\<bar> \<le> 53 + int (excess n)" by (simp add: excess_def)
  then have "\<bar>n\<bar> < 2 ^ nat (53 + int (excess n))" by (simp add: bitlen_le_iff_power)
  then show ?thesis by (simp only: nat_add_distrib zero_le_numeral of_nat_0_le_iff nat_numeral nat_int)
qed

lemma dbl_ok_round [simp]: "dbl_ok (round_dbl n)"
proof -
  obtain q where q: "rne (excess n) n = q * 2 ^ excess n" "\<bar>q\<bar> \<le> 2 ^ 53"
    using rne_fits [OF excess_bound] by blast
  from excess_multiple [OF q(2), of "excess n"] show ?thesis
    by (auto simp: round_dbl_def Let_def dbl_ok_def q(1) split: if_splits)
qed

lemma dbl_ok_plus [simp]: "dbl_ok x \<Longrightarrow> dbl_ok y \<Longrightarrow> dbl_ok (x + y)"
  by (cases x; cases y) simp_all

section \<open>The contract of an encoding\<close>

locale codec =
  fixes enc :: "'a \<Rightarrow> char list"
    and dec :: "char list \<Rightarrow> 'a"
    and size_of :: nat
    and ok :: "'a \<Rightarrow> bool"
  assumes enc_length: "ok x \<Longrightarrow> length (enc x) = size_of"
    and dec_enc: "ok x \<Longrightarrow> dec (enc x) = x"
begin

lemma enc_inj: "ok x \<Longrightarrow> ok y \<Longrightarrow> enc x = enc y \<longleftrightarrow> x = y"
  by (metis dec_enc)

fun dec_array :: "nat \<Rightarrow> char list \<Rightarrow> 'a list" where
  \<comment> \<open>the first \<open>n\<close> elements of an array\<close>
  "dec_array 0 bs = []"
| "dec_array (Suc n) bs = dec (take size_of bs) # dec_array n (drop size_of bs)"

lemma length_array: "list_all ok xs \<Longrightarrow> length (concat (map enc xs)) = length xs * size_of"
  by (induction xs) (auto simp: enc_length)

lemma dec_array_enc: "list_all ok xs \<Longrightarrow> dec_array (length xs) (concat (map enc xs) @ rest) = xs"
  by (induction xs) (auto simp: enc_length dec_enc)

end

interpretation u32_codec: codec enc_u32 dec_u32 4 "\<lambda>_. True"
proof
  show "dec_u32 (enc_u32 x) = x" for x
    using unsigned_less [of x, where ?'a = nat] by (simp add: enc_u32_def dec_u32_def le_nat_le_bytes)
qed (simp add: enc_u32_def)

interpretation signed_codec: codec "enc_signed n" "dec_signed n" n "fits n" for n
  by unfold_locales (simp add: enc_signed_def, rule dec_enc_signed)

interpretation flag_codec: codec enc_flag dec_flag 4 "\<lambda>_. True"
  by unfold_locales (simp_all add: enc_flag_def dec_flag_def dec_enc_signed fits_def, simp add: enc_signed_def)

interpretation dbl_codec: codec enc_dbl dec_dbl 8 dbl_ok
proof
  show "dec_dbl (enc_dbl d) = d" if "dbl_ok d" for d
    using dbl_bits_bound [OF that]
    by (simp add: enc_dbl_def dec_dbl_def le_nat_le_bytes bits_dbl_bits that)
qed (simp add: enc_dbl_def)

end
