(* ===== verification/Wire.thy ===== *)
theory Wire
  imports Server Bytes
begin

text \<open>
  The bytes between client and server: the message header and the structs of the request payloads
  of \<^verbatim>\<open>server/\<close>, \<^verbatim>\<open>send_msg\<close> and \<^verbatim>\<open>recv_msg\<close> of \<^verbatim>\<open>server/server.c\<close> over a socket, and the loop of
  \<^verbatim>\<open>handle_client\<close> over the bytes a client sends. \<open>requests_of\<close> says which requests some bytes are, and
  \<open>request_bytes\<close> is what a client sends to ask for one.

  What arrives on a socket is a list of chunks; one \<^verbatim>\<open>read\<close> returns bytes of the first chunk only,
  as \<^verbatim>\<open>read\<close> on a TCP socket returns what is there. An empty list (or chunk) is the end of the
  stream or an error. A \<^verbatim>\<open>write\<close> takes the number of bytes that a list of results says.
  Padding bytes are sent as NUL; no reader looks at them.
\<close>

section \<open>Message types and headers\<close>

primrec msg_code :: "MessageType \<Rightarrow> u32" where
  "msg_code MSG_LOGIN_REQ = 1"
| "msg_code MSG_LOGIN_RESP = 2"
| "msg_code MSG_LOGOUT_REQ = 3"
| "msg_code MSG_LOGOUT_RESP = 4"
| "msg_code MSG_CHANGE_PASS_REQ = 5"
| "msg_code MSG_CHANGE_PASS_RESP = 6"
| "msg_code MSG_VIEW_AUCTIONS_REQ = 7"
| "msg_code MSG_VIEW_AUCTIONS_RESP = 8"
| "msg_code MSG_PLACE_BID_REQ = 9"
| "msg_code MSG_PLACE_BID_RESP = 10"
| "msg_code MSG_VIEW_BALANCE_REQ = 11"
| "msg_code MSG_VIEW_BALANCE_RESP = 12"
| "msg_code MSG_DEPOSIT_REQ = 13"
| "msg_code MSG_DEPOSIT_RESP = 14"
| "msg_code MSG_VIEW_MY_BIDS_REQ = 15"
| "msg_code MSG_VIEW_MY_BIDS_RESP = 16"
| "msg_code MSG_SUBMIT_FEEDBACK_REQ = 17"
| "msg_code MSG_SUBMIT_FEEDBACK_RESP = 18"
| "msg_code MSG_FILE_DISPUTE_REQ = 19"
| "msg_code MSG_FILE_DISPUTE_RESP = 20"
| "msg_code MSG_CREATE_AUCTION_REQ = 21"
| "msg_code MSG_CREATE_AUCTION_RESP = 22"
| "msg_code MSG_CLOSE_AUCTION_REQ = 23"
| "msg_code MSG_CLOSE_AUCTION_RESP = 24"
| "msg_code MSG_VIEW_DISPUTES_REQ = 25"
| "msg_code MSG_VIEW_DISPUTES_RESP = 26"
| "msg_code MSG_RESOLVE_DISPUTE_REQ = 27"
| "msg_code MSG_RESOLVE_DISPUTE_RESP = 28"
| "msg_code MSG_VIEW_FEEDBACK_REQ = 29"
| "msg_code MSG_VIEW_FEEDBACK_RESP = 30"
| "msg_code MSG_TOGGLE_ACCOUNT_REQ = 31"
| "msg_code MSG_TOGGLE_ACCOUNT_RESP = 32"
| "msg_code MSG_ADD_USER_REQ = 33"
| "msg_code MSG_ADD_USER_RESP = 34"
| "msg_code MSG_LIST_USERS_REQ = 35"
| "msg_code MSG_LIST_USERS_RESP = 36"
| "msg_code MSG_CHANGE_ROLE_REQ = 37"
| "msg_code MSG_CHANGE_ROLE_RESP = 38"
| "msg_code MSG_NOTIFY_OUTBID = 39"
| "msg_code MSG_NOTIFY_AUCTION_WON = 40"
| "msg_code MSG_NOTIFY_AUCTION_CLOSED = 41"
| "msg_code MSG_ERROR = 42"

lemma msg_code_inject [simp]: "msg_code s = msg_code t \<longleftrightarrow> s = t"
proof
  show "msg_code s = msg_code t \<Longrightarrow> s = t"
    by (cases s; simp; cases t; simp)
qed simp

record header =
  hdr_type :: u32
  hdr_length :: u32
  hdr_status :: int

definition enc_header :: "header \<Rightarrow> char list" where
  "enc_header h = enc_u32 (hdr_type h) @ enc_u32 (hdr_length h) @ enc_signed 4 (hdr_status h)"

definition dec_header :: "char list \<Rightarrow> header" where
  "dec_header bs =
     \<lparr>hdr_type = dec_u32 (take 4 bs), hdr_length = dec_u32 (take 4 (drop 4 bs)),
      hdr_status = dec_signed 4 (take 4 (drop 8 bs))\<rparr>"

definition header_ok :: "header \<Rightarrow> bool" where
  "header_ok h = fits 4 (hdr_status h)"

interpretation header_codec: codec enc_header dec_header 12 header_ok
  by unfold_locales
    (simp_all add: enc_header_def dec_header_def header_ok_def signed_codec.enc_length
      u32_codec.enc_length u32_codec.dec_enc dec_enc_signed)

section \<open>Sockets\<close>

fun sock_read :: "nat \<Rightarrow> char list list \<Rightarrow> char list \<times> char list list" where
  \<comment> \<open>\<^verbatim>\<open>read(fd, buf, n)\<close>: the bytes read and what is left to arrive\<close>
  "sock_read n [] = ([], [])"
| "sock_read n (c # cs) = (take n c, if drop n c = [] then cs else drop n c # cs)"

lemma sock_read_concat: "sock_read n s = (bs, s') \<Longrightarrow> concat s = bs @ concat s'"
  using append_take_drop_id [of n "hd s"] by (cases s) (auto split: if_splits)

function recv_loop :: "nat \<Rightarrow> nat \<Rightarrow> char list \<Rightarrow> char list list \<Rightarrow> (char list \<times> char list list) option" where
  \<comment> \<open>the \<^verbatim>\<open>while (got < to_read)\<close> loop; \<open>None\<close> is the return of -1\<close>
  "recv_loop to_read got buf s =
     (if got < to_read
      then let (bs, s) = sock_read (to_read - got) s; n = length bs
           in if n = 0 then None
              else recv_loop to_read (got + n) (take got buf @ bs @ drop (got + n) buf) s
      else Some (buf, s))"
  by pat_completeness auto
termination
  by (relation "measure (\<lambda>(to_read, got, _). to_read - got)") (auto intro: diff_less_mono2)

declare recv_loop.simps [simp del]

definition recv_msg :: "nat \<Rightarrow> char list \<Rightarrow> char list list \<Rightarrow> (header \<times> char list \<times> char list list) option" where
  \<comment> \<open>header, buffer and what is left to arrive; \<open>None\<close> is the return of -1\<close>
  "recv_msg buf_size buf s =
     (let (r, s) = sock_read 12 s
      in if length r \<noteq> 12 then None
         else
           let hdr = dec_header r
           in if hdr_length hdr = 0 then Some (hdr, buf, s)
              else
                let to_read = (if unat (hdr_length hdr) < buf_size then unat (hdr_length hdr) else buf_size)
                in case recv_loop to_read 0 buf s of
                     None \<Rightarrow> None
                   | Some (buf, s) \<Rightarrow> Some (hdr, buf, s))"

fun send_loop :: "int list \<Rightarrow> char list \<Rightarrow> char list \<Rightarrow> int \<times> char list" where
  \<comment> \<open>the \<^verbatim>\<open>while (sent < length)\<close> loop on the bytes still to send; the first argument gives the
    results of the \<^verbatim>\<open>write\<close>s, the second collects the bytes that went out\<close>
  "send_loop rets out [] = (0, out)"
| "send_loop [] out (b # bs) = (-1, out)"
| "send_loop (n # rets) out (b # bs) =
     (if n \<le> 0 then (-1, out)
      else send_loop rets (out @ take (nat n) (b # bs)) (drop (nat n) (b # bs)))"

definition send_bytes :: "int list \<Rightarrow> u32 \<Rightarrow> int \<Rightarrow> char list \<Rightarrow> int \<times> char list" where
  \<comment> \<open>\<^verbatim>\<open>send_msg\<close>: its result and the bytes that went out. The first result is that of the \<^verbatim>\<open>write\<close>
    of the header.\<close>
  "send_bytes rets t status pl =
     (let hdr = enc_header \<lparr>hdr_type = t, hdr_length = word_of_nat (length pl), hdr_status = status\<rparr>
      in case rets of
           [] \<Rightarrow> (-1, [])
         | n # rets \<Rightarrow>
             if n \<noteq> 12 then (-1, take (nat n) hdr)
             else if pl \<noteq> [] then send_loop rets hdr pl else (0, hdr))"


section \<open>Receiving\<close>

lemma sock_read_length: "sock_read n s = (bs, s') \<Longrightarrow> length bs \<le> n"
  by (cases s) auto

lemma recv_loop_result:
  assumes "recv_loop to_read got buf s = Some (buf', s')" and "got \<le> to_read" and "to_read \<le> length buf"
  shows "\<exists>bs. concat s = bs @ concat s' \<and> length bs = to_read - got \<and>
    buf' = take got buf @ bs @ drop to_read buf"
  using assms
proof (induction to_read got buf s rule: recv_loop.induct)
  case (1 to_read got buf s)
  show ?case
  proof (cases "got < to_read")
    case True
    obtain r t where r: "sock_read (to_read - got) s = (r, t)" by (cases "sock_read (to_read - got) s")
    note len = sock_read_length [OF r] and cat = sock_read_concat [OF r]
    let ?buf = "take got buf @ r @ drop (got + length r) buf"
    from "1.prems" True r have ne: "r \<noteq> []" and rec: "recv_loop to_read (got + length r) ?buf t = Some (buf', s')"
      by (auto simp: recv_loop.simps [of to_read got buf s] Let_def split: if_splits)
    have "length ?buf = length buf" using "1.prems"(3) len True by simp
    moreover have "got + length r \<le> to_read" using len True by simp
    ultimately have *: "got + length r \<le> to_read" "to_read \<le> length ?buf" using "1.prems"(3) by simp_all
    from "1.IH" [OF True r [symmetric] refl refl _ rec *] ne len "1.prems"(3) True
    obtain bs where "concat t = bs @ concat s'" "length bs = to_read - (got + length r)"
      "buf' = take (got + length r) ?buf @ bs @ drop to_read ?buf" by auto
    with cat len True "1.prems"(3) show ?thesis
      by (intro exI [of _ "r @ bs"]) (auto simp: min_def)
  next
    case False
    with "1.prems" show ?thesis by (simp add: recv_loop.simps)
  qed
qed

lemma recv_loop_chunks:
  "recv_loop to_read got buf s = Some (buf', s') \<Longrightarrow> \<forall>c \<in> set s. c \<noteq> [] \<Longrightarrow> \<forall>c \<in> set s'. c \<noteq> []"
proof (induction to_read got buf s rule: recv_loop.induct)
  case (1 to_read got buf s)
  obtain r t where r: "sock_read (to_read - got) s = (r, t)" by (cases "sock_read (to_read - got) s")
  with "1.prems"(2) have "\<forall>c \<in> set t. c \<noteq> []" by (cases s) (auto split: if_splits)
  with "1.IH" [OF _ r [symmetric] refl refl] "1.prems" r show ?case
    by (auto simp: recv_loop.simps [of to_read got buf s] Let_def split: if_splits)
qed

lemma recv_loop_all:
  assumes "\<forall>c \<in> set s. c \<noteq> []" and "got \<le> to_read" and "to_read - got \<le> length (concat s)"
  shows "recv_loop to_read got buf s \<noteq> None"
  using assms
proof (induction to_read got buf s rule: recv_loop.induct)
  case (1 to_read got buf s)
  show ?case
  proof (cases "got < to_read")
    case True
    obtain r t where r: "sock_read (to_read - got) s = (r, t)" by (cases "sock_read (to_read - got) s")
    note len = sock_read_length [OF r] and cat = sock_read_concat [OF r]
    from True "1.prems"(1,3) r have "r \<noteq> []" "\<forall>c \<in> set t. c \<noteq> []"
      by (cases s; force split: if_splits)+
    with "1.IH" [OF True r [symmetric] refl refl] True r len cat "1.prems"(3) show ?thesis
      by (simp add: recv_loop.simps [of to_read got buf s] Let_def)
  qed (simp add: recv_loop.simps)
qed

text \<open>What one call reads, on success: the header, then at most \<open>buf_size\<close> bytes of payload.\<close>

lemma recv_msg_result:
  assumes "recv_msg buf_size buf s = Some (h, buf', s')" and "length buf = buf_size"
  shows "\<exists>r bs. concat s = r @ bs @ concat s' \<and> length r = 12 \<and> h = dec_header r \<and>
    length bs = min (unat (hdr_length h)) buf_size \<and> buf' = bs @ drop (length bs) buf"
proof -
  obtain r t where r: "sock_read 12 s = (r, t)" by (cases "sock_read 12 s")
  note cat = sock_read_concat [OF r]
  from assms(1) r have l: "length r = 12" and h: "h = dec_header r"
    by (auto simp: recv_msg_def Let_def split: if_splits option.splits)
  show ?thesis
  proof (cases "hdr_length h = 0")
    case True
    with assms(1) r l h cat show ?thesis by (auto simp: recv_msg_def Let_def)
  next
    case False
    let ?n = "min (unat (hdr_length h)) buf_size"
    from False assms(1) r l h have "recv_loop ?n 0 buf t = Some (buf', s')"
      by (auto simp: recv_msg_def Let_def min_def split: if_splits option.splits)
    from recv_loop_result [OF this] assms(2) obtain bs where
      "concat t = bs @ concat s'" "length bs = ?n" "buf' = bs @ drop ?n buf" by auto
    with cat l h show ?thesis by (intro exI [of _ r] exI [of _ bs]) auto
  qed
qed

lemma recv_msg_ok:
  assumes "\<forall>c \<in> set s. c \<noteq> []" and "12 \<le> length (hd s)" and "s \<noteq> []"
    and "concat s = enc_header h @ pl @ rest" and "header_ok h" and "length pl = unat (hdr_length h)"
    and "length buf = buf_size"
  shows "\<exists>s'. recv_msg buf_size buf s = Some (h, take buf_size pl @ drop (length pl) buf, s') \<and>
    concat s' = drop buf_size pl @ rest \<and> (\<forall>c \<in> set s'. c \<noteq> [])"
proof -
  obtain c cs where s: "s = c # cs" using assms(3) by (cases s) auto
  define t where "t = (if drop 12 c = [] then cs else drop 12 c # cs)"
  have "take 12 (concat s) = enc_header h"
    using assms(4) header_codec.enc_length [OF assms(5)] by simp
  moreover have "take 12 (concat s) = take 12 c" using assms(2) by (simp add: s)
  ultimately have c: "take 12 c = enc_header h" by simp
  have read: "sock_read 12 s = (enc_header h, t)" by (simp add: s t_def c)
  from sock_read_concat [OF read] assms(4) have t: "concat t = pl @ rest" by simp
  have ne: "\<forall>c \<in> set t. c \<noteq> []" using assms(1) by (auto simp: s t_def)
  have dec: "dec_header (enc_header h) = h" "length (enc_header h) = 12"
    using header_codec.dec_enc header_codec.enc_length assms(5) by auto
  let ?n = "if unat (hdr_length h) < buf_size then unat (hdr_length h) else buf_size"
  show ?thesis
  proof (cases "hdr_length h = 0")
    case True
    then show ?thesis using read dec t ne assms(6) by (simp add: recv_msg_def)
  next
    case False
    have n: "?n \<le> length pl" "?n \<le> length buf" using assms(6,7) by auto
    have "recv_loop ?n 0 buf t \<noteq> None" using ne n t by (intro recv_loop_all) simp_all
    then obtain buf' s' where loop: "recv_loop ?n 0 buf t = Some (buf', s')" by auto
    from recv_loop_result [OF this] n(2) obtain bs where
      bs: "concat t = bs @ concat s'" "length bs = ?n" "buf' = bs @ drop ?n buf" by auto
    have "bs = take ?n (concat t)" "concat s' = drop ?n (concat t)"
      using bs(1,2) by (metis append_eq_conv_conj)+
    then have "bs = take buf_size pl" "concat s' = drop buf_size pl @ rest"
      using n assms(6) by (auto simp: t split: if_splits)
    moreover have "drop ?n buf = drop (length pl) buf" using assms(6,7) by auto
    moreover have "\<forall>c \<in> set s'. c \<noteq> []" using recv_loop_chunks [OF loop ne] .
    ultimately show ?thesis using read dec loop False bs(3) by (simp add: recv_msg_def Let_def)
  qed
qed

section \<open>Requests as bytes\<close>

text \<open>The casts of the receive buffer. A password is used through a pointer without a length, so the
  model hands over the bytes from its first one on; every other field is read at its declared
  length.\<close>

definition field :: "nat \<Rightarrow> nat \<Rightarrow> char list \<Rightarrow> char list" where
  \<comment> \<open>\<open>n\<close> bytes from offset \<open>off\<close>\<close>
  "field off n buf = take n (drop off buf)"

definition dec_LoginPayload :: "char list \<Rightarrow> LoginPayload" where
  "dec_LoginPayload buf = \<lparr>login_username = field 0 32 buf, login_password = drop 32 buf\<rparr>"

definition dec_ChangePassPayload :: "char list \<Rightarrow> ChangePassPayload" where
  "dec_ChangePassPayload buf = \<lparr>old_password = buf, new_password = drop 64 buf\<rparr>"

definition dec_PlaceBidPayload :: "char list \<Rightarrow> PlaceBidPayload" where
  "dec_PlaceBidPayload buf =
     \<lparr>bid_req_auction_id = dec_u32 (field 0 4 buf), bid_req_amount = dec_dbl (field 8 8 buf)\<rparr>"

definition dec_DepositPayload :: "char list \<Rightarrow> DepositPayload" where
  "dec_DepositPayload buf = \<lparr>deposit_amount = dec_dbl (field 0 8 buf)\<rparr>"

definition dec_FeedbackPayload :: "char list \<Rightarrow> FeedbackPayload" where
  "dec_FeedbackPayload buf =
     \<lparr>feedback_req_auction_id = dec_u32 (field 0 4 buf), feedback_req_message = field 4 256 buf\<rparr>"

definition dec_FileDisputePayload :: "char list \<Rightarrow> FileDisputePayload" where
  "dec_FileDisputePayload buf =
     \<lparr>file_auction_id = dec_u32 (field 0 4 buf), file_reason = field 4 256 buf\<rparr>"

definition dec_CreateAuctionPayload :: "char list \<Rightarrow> CreateAuctionPayload" where
  "dec_CreateAuctionPayload buf =
     \<lparr>create_item_name = field 0 64 buf, create_description = field 64 256 buf,
      create_start_price = dec_dbl (field 320 8 buf), create_reserve_price = dec_dbl (field 328 8 buf),
      duration_seconds = dec_u32 (field 336 4 buf)\<rparr>"

definition dec_CloseAuctionPayload :: "char list \<Rightarrow> CloseAuctionPayload" where
  "dec_CloseAuctionPayload buf = \<lparr>close_auction_id = dec_u32 (field 0 4 buf)\<rparr>"

definition dec_ResolveDisputePayload :: "char list \<Rightarrow> ResolveDisputePayload" where
  "dec_ResolveDisputePayload buf =
     \<lparr>resolve_dispute_id = dec_u32 (field 0 4 buf), resolve_new_status = dec_u32 (field 4 4 buf),
      resolve_resolution = field 8 256 buf\<rparr>"

definition dec_ToggleAccountPayload :: "char list \<Rightarrow> ToggleAccountPayload" where
  "dec_ToggleAccountPayload buf =
     \<lparr>toggle_user_id = dec_u32 (field 0 4 buf), toggle_new_status = dec_u32 (field 4 4 buf)\<rparr>"

definition dec_AddUserPayload :: "char list \<Rightarrow> AddUserPayload" where
  "dec_AddUserPayload buf =
     \<lparr>add_username = field 0 32 buf, add_password = drop 32 buf, add_full_name = field 96 64 buf,
      add_role = dec_u32 (field 160 4 buf)\<rparr>"

definition dec_ChangeRolePayload :: "char list \<Rightarrow> ChangeRolePayload" where
  "dec_ChangeRolePayload buf =
     \<lparr>change_role_user_id = dec_u32 (field 0 4 buf), new_role = dec_u32 (field 4 4 buf)\<rparr>"

definition dec_request :: "u32 \<Rightarrow> char list \<Rightarrow> request" where
  \<comment> \<open>the cases of the switch on \<^verbatim>\<open>hdr.type\<close>, each with the cast of \<^verbatim>\<open>buf\<close> that its handler makes\<close>
  "dec_request t buf =
     (if t = msg_code MSG_FILE_DISPUTE_REQ then RQ_FILE_DISPUTE (dec_FileDisputePayload buf)
      else if t = msg_code MSG_LOGIN_REQ then RQ_LOGIN (dec_LoginPayload buf)
      else if t = msg_code MSG_LOGOUT_REQ then RQ_LOGOUT
      else if t = msg_code MSG_CHANGE_PASS_REQ then RQ_CHANGE_PASS (dec_ChangePassPayload buf)
      else if t = msg_code MSG_VIEW_AUCTIONS_REQ then RQ_VIEW_AUCTIONS
      else if t = msg_code MSG_PLACE_BID_REQ then RQ_PLACE_BID (dec_PlaceBidPayload buf)
      else if t = msg_code MSG_VIEW_BALANCE_REQ then RQ_VIEW_BALANCE
      else if t = msg_code MSG_DEPOSIT_REQ then RQ_DEPOSIT (dec_DepositPayload buf)
      else if t = msg_code MSG_VIEW_MY_BIDS_REQ then RQ_VIEW_MY_BIDS
      else if t = msg_code MSG_SUBMIT_FEEDBACK_REQ then RQ_SUBMIT_FEEDBACK (dec_FeedbackPayload buf)
      else if t = msg_code MSG_CREATE_AUCTION_REQ then RQ_CREATE_AUCTION (dec_CreateAuctionPayload buf)
      else if t = msg_code MSG_CLOSE_AUCTION_REQ then RQ_CLOSE_AUCTION (dec_CloseAuctionPayload buf)
      else if t = msg_code MSG_VIEW_DISPUTES_REQ then RQ_VIEW_DISPUTES
      else if t = msg_code MSG_RESOLVE_DISPUTE_REQ then RQ_RESOLVE_DISPUTE (dec_ResolveDisputePayload buf)
      else if t = msg_code MSG_VIEW_FEEDBACK_REQ then RQ_VIEW_FEEDBACK
      else if t = msg_code MSG_TOGGLE_ACCOUNT_REQ then RQ_TOGGLE_ACCOUNT (dec_ToggleAccountPayload buf)
      else if t = msg_code MSG_ADD_USER_REQ then RQ_ADD_USER (dec_AddUserPayload buf)
      else if t = msg_code MSG_LIST_USERS_REQ then RQ_LIST_USERS
      else if t = msg_code MSG_CHANGE_ROLE_REQ then RQ_CHANGE_ROLE (dec_ChangeRolePayload buf)
      else RQ_OTHER)"

section \<open>Records as bytes\<close>

primrec status_code :: "AuctionStatus \<Rightarrow> u32" where
  "status_code AUCTION_PENDING = 0"
| "status_code AUCTION_OPEN = 1"
| "status_code AUCTION_CLOSED = 2"
| "status_code AUCTION_DISPUTED = 3"
| "status_code AUCTION_CANCELLED = 4"

definition status_of_code :: "u32 \<Rightarrow> AuctionStatus" where
  "status_of_code x =
     (if x = 0 then AUCTION_PENDING else if x = 1 then AUCTION_OPEN else if x = 2 then AUCTION_CLOSED
      else if x = 3 then AUCTION_DISPUTED else AUCTION_CANCELLED)"

lemma status_of_status [simp]: "status_of_code (status_code x) = x"
  by (cases x) (simp_all add: status_of_code_def)

definition pad :: "char list" where
  \<comment> \<open>four bytes of padding\<close>
  "pad = replicate 4 NUL"

definition enc_User :: "User \<Rightarrow> char list" where
  "enc_User u = enc_u32 (user_id u) @ username u @ password u @ full_name u @ enc_u32 (role u) @
     enc_u32 (acct_status u) @ pad @ enc_dbl (wallet_balance u) @ enc_dbl (wallet_hold u) @
     enc_signed 8 (created_at u) @ enc_signed 8 (last_login u) @ enc_flag (user_deleted u) @ pad"

definition dec_User :: "char list \<Rightarrow> User" where
  "dec_User bs = \<lparr>user_id = dec_u32 (field 0 4 bs), username = field 4 32 bs, password = field 36 64 bs,
     full_name = field 100 64 bs, role = dec_u32 (field 164 4 bs), acct_status = dec_u32 (field 168 4 bs),
     wallet_balance = dec_dbl (field 176 8 bs), wallet_hold = dec_dbl (field 184 8 bs),
     created_at = dec_signed 8 (field 192 8 bs), last_login = dec_signed 8 (field 200 8 bs),
     user_deleted = dec_flag (field 208 4 bs)\<rparr>"

definition user_ok :: "User \<Rightarrow> bool" where
  "user_ok u \<longleftrightarrow> length (username u) = 32 \<and> length (password u) = 64 \<and> length (full_name u) = 64 \<and>
     dbl_ok (wallet_balance u) \<and> dbl_ok (wallet_hold u) \<and> fits 8 (created_at u) \<and> fits 8 (last_login u)"

definition enc_Auction :: "Auction \<Rightarrow> char list" where
  "enc_Auction a = enc_u32 (auction_id a) @ item_name a @ description a @ enc_u32 (seller_id a) @
     enc_dbl (start_price a) @ enc_dbl (reserve_price a) @ enc_dbl (current_bid a) @
     enc_u32 (highest_bidder_id a) @ enc_u32 (status_code (auction_status a)) @
     enc_signed 8 (start_time a) @ enc_signed 8 (end_time a) @ enc_signed 4 (bid_count a) @
     enc_flag (auction_deleted a)"

definition dec_Auction :: "char list \<Rightarrow> Auction" where
  "dec_Auction bs = \<lparr>auction_id = dec_u32 (field 0 4 bs), item_name = field 4 64 bs,
     description = field 68 256 bs, seller_id = dec_u32 (field 324 4 bs),
     start_price = dec_dbl (field 328 8 bs), reserve_price = dec_dbl (field 336 8 bs),
     current_bid = dec_dbl (field 344 8 bs), highest_bidder_id = dec_u32 (field 352 4 bs),
     auction_status = status_of_code (dec_u32 (field 356 4 bs)), start_time = dec_signed 8 (field 360 8 bs),
     end_time = dec_signed 8 (field 368 8 bs), bid_count = dec_signed 4 (field 376 4 bs),
     auction_deleted = dec_flag (field 380 4 bs)\<rparr>"

definition auction_ok :: "Auction \<Rightarrow> bool" where
  "auction_ok a \<longleftrightarrow> length (item_name a) = 64 \<and> length (description a) = 256 \<and> dbl_ok (start_price a) \<and>
     dbl_ok (reserve_price a) \<and> dbl_ok (current_bid a) \<and> fits 8 (start_time a) \<and> fits 8 (end_time a) \<and>
     fits 4 (bid_count a)"

definition enc_Bid :: "Bid \<Rightarrow> char list" where
  "enc_Bid b = enc_u32 (bid_id b) @ enc_u32 (bid_auction_id b) @ enc_u32 (bidder_id b) @ pad @
     enc_dbl (bid_amount b) @ enc_signed 8 (placed_at b) @ enc_flag (is_winning b) @ pad"

definition dec_Bid :: "char list \<Rightarrow> Bid" where
  "dec_Bid bs = \<lparr>bid_id = dec_u32 (field 0 4 bs), bid_auction_id = dec_u32 (field 4 4 bs),
     bidder_id = dec_u32 (field 8 4 bs), bid_amount = dec_dbl (field 16 8 bs),
     placed_at = dec_signed 8 (field 24 8 bs), is_winning = dec_flag (field 32 4 bs)\<rparr>"

definition bid_ok :: "Bid \<Rightarrow> bool" where
  "bid_ok b \<longleftrightarrow> dbl_ok (bid_amount b) \<and> fits 8 (placed_at b)"

definition enc_Dispute :: "Dispute \<Rightarrow> char list" where
  "enc_Dispute d = enc_u32 (dispute_id d) @ enc_u32 (dispute_auction_id d) @
     enc_u32 (raised_by_user_id d) @ enc_u32 (resolved_by_user_id d) @ reason d @ resolution d @
     enc_u32 (dispute_status d) @ pad @ enc_signed 8 (raised_at d) @ enc_signed 8 (resolved_at d)"

definition dec_Dispute :: "char list \<Rightarrow> Dispute" where
  "dec_Dispute bs = \<lparr>dispute_id = dec_u32 (field 0 4 bs), dispute_auction_id = dec_u32 (field 4 4 bs),
     raised_by_user_id = dec_u32 (field 8 4 bs), resolved_by_user_id = dec_u32 (field 12 4 bs),
     reason = field 16 256 bs, resolution = field 272 256 bs, dispute_status = dec_u32 (field 528 4 bs),
     raised_at = dec_signed 8 (field 536 8 bs), resolved_at = dec_signed 8 (field 544 8 bs)\<rparr>"

definition dispute_ok :: "Dispute \<Rightarrow> bool" where
  "dispute_ok d \<longleftrightarrow> length (reason d) = 256 \<and> length (resolution d) = 256 \<and> fits 8 (raised_at d) \<and>
     fits 8 (resolved_at d)"

definition enc_Feedback :: "Feedback \<Rightarrow> char list" where
  "enc_Feedback f = enc_u32 (feedback_id f) @ enc_u32 (from_user_id f) @ enc_u32 (about_auction_id f) @
     feedback_message f @ pad @ enc_signed 8 (submitted_at f) @ enc_flag (reviewed f) @ pad"

definition dec_Feedback :: "char list \<Rightarrow> Feedback" where
  "dec_Feedback bs = \<lparr>feedback_id = dec_u32 (field 0 4 bs), from_user_id = dec_u32 (field 4 4 bs),
     about_auction_id = dec_u32 (field 8 4 bs), feedback_message = field 12 256 bs,
     submitted_at = dec_signed 8 (field 272 8 bs), reviewed = dec_flag (field 280 4 bs)\<rparr>"

definition feedback_ok :: "Feedback \<Rightarrow> bool" where
  "feedback_ok f \<longleftrightarrow> length (feedback_message f) = 256 \<and> fits 8 (submitted_at f)"

lemmas codec_simps = field_def pad_def
  u32_codec.enc_length signed_codec.enc_length flag_codec.enc_length dbl_codec.enc_length
  u32_codec.dec_enc signed_codec.dec_enc flag_codec.dec_enc dbl_codec.dec_enc

interpretation User_codec: codec enc_User dec_User 216 user_ok
  by unfold_locales (simp_all add: enc_User_def dec_User_def user_ok_def codec_simps)

interpretation Auction_codec: codec enc_Auction dec_Auction 384 auction_ok
  by unfold_locales (simp_all add: enc_Auction_def dec_Auction_def auction_ok_def codec_simps)

interpretation Bid_codec: codec enc_Bid dec_Bid 40 bid_ok
  by unfold_locales (simp_all add: enc_Bid_def dec_Bid_def bid_ok_def codec_simps)

interpretation Dispute_codec: codec enc_Dispute dec_Dispute 552 dispute_ok
  by unfold_locales (simp_all add: enc_Dispute_def dec_Dispute_def dispute_ok_def codec_simps)

interpretation Feedback_codec: codec enc_Feedback dec_Feedback 288 feedback_ok
  by unfold_locales (simp_all add: enc_Feedback_def dec_Feedback_def feedback_ok_def codec_simps)

fun payload_bytes :: "payload \<Rightarrow> char list" where
  "payload_bytes P_None = []"
| "payload_bytes (P_User u) = enc_User u"
| "payload_bytes (P_Users us) = concat (map enc_User us)"
| "payload_bytes (P_Auction a) = enc_Auction a"
| "payload_bytes (P_Auctions as) = concat (map enc_Auction as)"
| "payload_bytes (P_Bid b) = enc_Bid b"
| "payload_bytes (P_Bids bs) = concat (map enc_Bid bs)"
| "payload_bytes (P_Dispute d) = enc_Dispute d"
| "payload_bytes (P_Disputes ds) = concat (map enc_Dispute ds)"
| "payload_bytes (P_Feedbacks fs) = concat (map enc_Feedback fs)"
| "payload_bytes (P_Outbid i x) = enc_u32 i @ pad @ enc_dbl x"
| "payload_bytes (P_AuctionWon i x) = enc_u32 i @ pad @ enc_dbl x"
| "payload_bytes (P_AuctionClosed i) = enc_u32 i"

definition message_header :: "message \<Rightarrow> header" where
  "message_header m =
     \<lparr>hdr_type = msg_code (msg_type m), hdr_length = word_of_nat (length (payload_bytes (msg_payload m))),
      hdr_status = err_code (msg_status m)\<rparr>"

definition message_bytes :: "message \<Rightarrow> char list" where
  \<comment> \<open>what \<^verbatim>\<open>send_msg\<close> and \<^verbatim>\<open>push_notification\<close> put on the socket when no write fails\<close>
  "message_bytes m = enc_header (message_header m) @ payload_bytes (msg_payload m)"

section \<open>Chunks\<close>

text \<open>Reads do not look past the chunks they consume.\<close>

lemma sock_read_append: "s \<noteq> [] \<Longrightarrow> sock_read n (s @ t) = (fst (sock_read n s), snd (sock_read n s) @ t)"
  by (cases s) auto

lemma recv_loop_append:
  "recv_loop to_read got buf s = Some (buf', s') \<Longrightarrow> recv_loop to_read got buf (s @ t) = Some (buf', s' @ t)"
proof (induction to_read got buf s rule: recv_loop.induct)
  case (1 to_read got buf s)
  show ?case
  proof (cases "got < to_read")
    case True
    obtain bs u where r: "sock_read (to_read - got) s = (bs, u)" by (cases "sock_read (to_read - got) s")
    with True "1.prems" have ne: "bs \<noteq> []" by (auto simp: recv_loop.simps [of to_read got buf s] Let_def)
    then have "s \<noteq> []" using r by auto
    then have r': "sock_read (to_read - got) (s @ t) = (bs, u @ t)" using r by (simp add: sock_read_append)
    from "1.IH" [OF True r [symmetric] refl refl] "1.prems" True ne r
    have "recv_loop to_read (got + length bs) (take got buf @ bs @ drop (got + length bs) buf) (u @ t) = Some (buf', s' @ t)"
      by (simp add: recv_loop.simps [of to_read got buf s] Let_def)
    then show ?thesis using True ne by (simp add: recv_loop.simps [of to_read got buf "s @ t"] r' Let_def)
  next
    case False
    with "1.prems" show ?thesis by (simp add: recv_loop.simps)
  qed
qed

lemma recv_msg_append:
  assumes "recv_msg n buf s = Some (h, buf', s')"
  shows "recv_msg n buf (s @ t) = Some (h, buf', s' @ t)"
proof -
  obtain r u where r: "sock_read 12 s = (r, u)" by (cases "sock_read 12 s")
  with assms have l: "length r = 12" by (auto simp: recv_msg_def split: if_splits)
  then have "s \<noteq> []" using r by auto
  then have "sock_read 12 (s @ t) = (r, u @ t)" using r by (simp add: sock_read_append)
  with assms r l show ?thesis
    by (auto simp: recv_msg_def Let_def recv_loop_append split: if_splits option.splits prod.splits)
qed

definition arrives :: "char list \<Rightarrow> char list list \<Rightarrow> bool" where
  \<comment> \<open>the bytes arrive in these chunks, the header unbroken\<close>
  "arrives bs cs \<longleftrightarrow> concat cs = bs \<and> [] \<notin> set cs \<and> cs \<noteq> [] \<and> 12 \<le> length (hd cs)"

lemma recv_arrives:
  assumes "arrives (enc_header h @ pl) cs" and "header_ok h" and "length pl = unat (hdr_length h)"
    and "length pl \<le> length buf"
  shows "recv_msg (length buf) buf (cs @ later) = Some (h, pl @ drop (length pl) buf, later)"
proof -
  from assms(1) have cs: "\<forall>c \<in> set cs. c \<noteq> []" "12 \<le> length (hd cs)" "cs \<noteq> []" "concat cs = enc_header h @ pl @ []"
    by (auto simp: arrives_def)
  from recv_msg_ok [OF cs assms(2,3) refl, of buf] assms(4) obtain s' where
    s': "recv_msg (length buf) buf cs = Some (h, pl @ drop (length pl) buf, s')" "concat s' = []" "\<forall>c \<in> set s'. c \<noteq> []"
    by auto
  then have "s' = []" by (cases s') auto
  with recv_msg_append [OF s'(1), of later] show ?thesis by simp
qed

definition request_bytes :: "MessageType \<Rightarrow> char list \<Rightarrow> char list" where
  "request_bytes t pl =
     enc_header \<lparr>hdr_type = msg_code t, hdr_length = word_of_nat (length pl), hdr_status = 0\<rparr> @ pl"

lemma length_request_header [simp]:
  "length (enc_header \<lparr>hdr_type = t, hdr_length = n, hdr_status = 0\<rparr>) = 12"
  by (rule header_codec.enc_length) (simp add: header_ok_def fits_def)

section \<open>What the server reads\<close>

definition server_reads :: "char list \<Rightarrow> request \<Rightarrow> bool" where
  \<comment> \<open>however the bytes arrive (the header unbroken), \<^verbatim>\<open>handle_client\<close> takes them for this request\<close>
  "server_reads bs rq \<longleftrightarrow>
     (\<forall>cs later. arrives bs cs \<longrightarrow>
       (\<exists>h buf. recv_msg 4096 (replicate 4096 NUL) (cs @ later) = Some (h, buf, later) \<and>
         dec_request (hdr_type h) buf = rq))"

lemma server_reads_request:
  assumes "length pl \<le> 4096"
  shows "server_reads (request_bytes t pl) (dec_request (msg_code t) (c_array 4096 pl))"
proof -
  let ?h = "\<lparr>hdr_type = msg_code t, hdr_length = word_of_nat (length pl), hdr_status = 0\<rparr>"
  have ok: "header_ok ?h" by (simp add: header_ok_def fits_def)
  have len: "length pl = unat (hdr_length ?h)"
    using assms by (simp add: unat_of_nat take_bit_nat_eq_self)
  have arr: "pl @ drop (length pl) (replicate 4096 NUL) = c_array 4096 pl"
    using assms by (simp add: c_array_def)
  show ?thesis
    unfolding server_reads_def request_bytes_def
    using recv_arrives [OF _ ok len, of _ "replicate 4096 NUL"] assms by (auto simp: arr [symmetric])
qed

section \<open>Requests as the client means them\<close>

text \<open>The messages of a client, one per request: the type, and the payload in the layout of the
  struct that client and server share. A password reaches the server's functions as a pointer, so the
  model's field runs to the end of the buffer (\<open>sendable\<close>).\<close>

fun request_type :: "request \<Rightarrow> MessageType" where
  "request_type (RQ_LOGIN q) = MSG_LOGIN_REQ"
| "request_type RQ_LOGOUT = MSG_LOGOUT_REQ"
| "request_type (RQ_CHANGE_PASS q) = MSG_CHANGE_PASS_REQ"
| "request_type RQ_VIEW_AUCTIONS = MSG_VIEW_AUCTIONS_REQ"
| "request_type (RQ_PLACE_BID q) = MSG_PLACE_BID_REQ"
| "request_type RQ_VIEW_BALANCE = MSG_VIEW_BALANCE_REQ"
| "request_type (RQ_DEPOSIT q) = MSG_DEPOSIT_REQ"
| "request_type RQ_VIEW_MY_BIDS = MSG_VIEW_MY_BIDS_REQ"
| "request_type (RQ_SUBMIT_FEEDBACK q) = MSG_SUBMIT_FEEDBACK_REQ"
| "request_type (RQ_FILE_DISPUTE q) = MSG_FILE_DISPUTE_REQ"
| "request_type (RQ_CREATE_AUCTION q) = MSG_CREATE_AUCTION_REQ"
| "request_type (RQ_CLOSE_AUCTION q) = MSG_CLOSE_AUCTION_REQ"
| "request_type RQ_VIEW_DISPUTES = MSG_VIEW_DISPUTES_REQ"
| "request_type (RQ_RESOLVE_DISPUTE q) = MSG_RESOLVE_DISPUTE_REQ"
| "request_type RQ_VIEW_FEEDBACK = MSG_VIEW_FEEDBACK_REQ"
| "request_type (RQ_TOGGLE_ACCOUNT q) = MSG_TOGGLE_ACCOUNT_REQ"
| "request_type (RQ_ADD_USER q) = MSG_ADD_USER_REQ"
| "request_type RQ_LIST_USERS = MSG_LIST_USERS_REQ"
| "request_type (RQ_CHANGE_ROLE q) = MSG_CHANGE_ROLE_REQ"
| "request_type RQ_OTHER = MSG_ERROR"

fun request_payload :: "request \<Rightarrow> char list" where
  "request_payload (RQ_LOGIN q) = login_username q @ take 64 (login_password q)"
| "request_payload (RQ_CHANGE_PASS q) = take 64 (old_password q) @ take 64 (new_password q)"
| "request_payload (RQ_PLACE_BID q) = enc_u32 (bid_req_auction_id q) @ pad @ enc_dbl (bid_req_amount q)"
| "request_payload (RQ_DEPOSIT q) = enc_dbl (deposit_amount q)"
| "request_payload (RQ_SUBMIT_FEEDBACK q) = enc_u32 (feedback_req_auction_id q) @ feedback_req_message q"
| "request_payload (RQ_FILE_DISPUTE q) = enc_u32 (file_auction_id q) @ file_reason q"
| "request_payload (RQ_CREATE_AUCTION q) = create_item_name q @ create_description q @
     enc_dbl (create_start_price q) @ enc_dbl (create_reserve_price q) @ enc_u32 (duration_seconds q) @ pad"
| "request_payload (RQ_CLOSE_AUCTION q) = enc_u32 (close_auction_id q)"
| "request_payload (RQ_RESOLVE_DISPUTE q) = enc_u32 (resolve_dispute_id q) @ enc_u32 (resolve_new_status q) @
     resolve_resolution q"
| "request_payload (RQ_TOGGLE_ACCOUNT q) = enc_u32 (toggle_user_id q) @ enc_u32 (toggle_new_status q)"
| "request_payload (RQ_ADD_USER q) = add_username q @ take 64 (add_password q) @ add_full_name q @ enc_u32 (add_role q)"
| "request_payload (RQ_CHANGE_ROLE q) = enc_u32 (change_role_user_id q) @ enc_u32 (new_role q)"
| "request_payload _ = []"

fun sendable :: "request \<Rightarrow> bool" where
  \<comment> \<open>arrays of their declared lengths, amounts that are doubles, and after a password what follows it in
    the server's buffer\<close>
  "sendable (RQ_LOGIN q) \<longleftrightarrow> length (login_username q) = 32 \<and> length (login_password q) = 4064 \<and>
     drop 64 (login_password q) = replicate 4000 NUL"
| "sendable (RQ_CHANGE_PASS q) \<longleftrightarrow> length (old_password q) = 4096 \<and> new_password q = drop 64 (old_password q) \<and>
     drop 128 (old_password q) = replicate 3968 NUL"
| "sendable (RQ_PLACE_BID q) \<longleftrightarrow> dbl_ok (bid_req_amount q)"
| "sendable (RQ_DEPOSIT q) \<longleftrightarrow> dbl_ok (deposit_amount q)"
| "sendable (RQ_SUBMIT_FEEDBACK q) \<longleftrightarrow> length (feedback_req_message q) = 256"
| "sendable (RQ_FILE_DISPUTE q) \<longleftrightarrow> length (file_reason q) = 256"
| "sendable (RQ_CREATE_AUCTION q) \<longleftrightarrow> length (create_item_name q) = 64 \<and> length (create_description q) = 256 \<and>
     dbl_ok (create_start_price q) \<and> dbl_ok (create_reserve_price q)"
| "sendable (RQ_RESOLVE_DISPUTE q) \<longleftrightarrow> length (resolve_resolution q) = 256"
| "sendable (RQ_ADD_USER q) \<longleftrightarrow> length (add_username q) = 32 \<and> length (add_password q) = 4064 \<and>
     length (add_full_name q) = 64 \<and>
     drop 64 (add_password q) = add_full_name q @ enc_u32 (add_role q) @ replicate 3932 NUL"
| "sendable RQ_OTHER \<longleftrightarrow> False"
| "sendable _ \<longleftrightarrow> True"

lemma array_tail:
  assumes "length xs = 4096" and "drop n xs = replicate (4096 - n) NUL" and "n \<le> 4096"
  shows "c_array 4096 (take n xs) = xs"
proof -
  have "c_array 4096 (take n xs) = take n xs @ drop n xs" using assms by (simp add: c_array_def)
  then show ?thesis by simp
qed

lemma dec_request_payload:
  assumes "sendable rq"
  shows "dec_request (msg_code (request_type rq)) (c_array 4096 (request_payload rq)) = rq \<and>
    length (request_payload rq) \<le> 4096"
proof (cases rq)
  case (RQ_LOGIN q)
  let ?b = "login_username q @ login_password q"
  have "c_array 4096 (take 96 ?b) = ?b" using assms RQ_LOGIN by (intro array_tail) simp_all
  then have "c_array 4096 (request_payload rq) = ?b" using assms RQ_LOGIN by simp
  with assms RQ_LOGIN show ?thesis
    by (simp add: dec_request_def dec_LoginPayload_def field_def del: msg_code.simps)
next
  case (RQ_CHANGE_PASS q)
  have "c_array 4096 (take 128 (old_password q)) = old_password q" using assms RQ_CHANGE_PASS by (intro array_tail) simp_all
  moreover have "take 128 (old_password q) = request_payload rq"
    using assms RQ_CHANGE_PASS take_add [of 64 64 "old_password q"] by simp
  ultimately show ?thesis using assms RQ_CHANGE_PASS
    by (simp add: dec_request_def dec_ChangePassPayload_def del: msg_code.simps)
next
  case (RQ_ADD_USER q)
  define pre where "pre = take 64 (add_password q)"
  let ?z = "replicate 3932 NUL"
  have len: "length pre = 64" "length (add_username q) = 32" "length (add_full_name q) = 64"
    using assms RQ_ADD_USER by (simp_all add: pre_def)
  have pw: "add_password q = pre @ add_full_name q @ enc_u32 (add_role q) @ ?z"
    using assms RQ_ADD_USER append_take_drop_id [of 64 "add_password q"] by (simp add: pre_def)
  have b: "c_array 4096 (request_payload rq) = add_username q @ add_password q"
    using len by (simp add: RQ_ADD_USER pw c_array_def u32_codec.enc_length)
  have "dec_AddUserPayload (add_username q @ add_password q) = q"
    using len pw by (simp add: dec_AddUserPayload_def field_def u32_codec.enc_length u32_codec.dec_enc)
  moreover have "length (request_payload rq) \<le> 4096" using len by (simp add: RQ_ADD_USER pw u32_codec.enc_length)
  ultimately show ?thesis using b by (simp add: RQ_ADD_USER dec_request_def del: msg_code.simps request_payload.simps)
qed (use assms in \<open>simp_all add: dec_request_def c_array_def codec_simps dec_PlaceBidPayload_def
    dec_DepositPayload_def dec_FeedbackPayload_def dec_FileDisputePayload_def dec_CreateAuctionPayload_def
    dec_CloseAuctionPayload_def dec_ResolveDisputePayload_def dec_ToggleAccountPayload_def
    dec_ChangeRolePayload_def del: msg_code.simps\<close>)

section \<open>The conversation over bytes\<close>

lemma recv_msg_consumes:
  assumes "recv_msg buf_size buf s = Some (h, buf', s')" and "length buf = buf_size"
  shows "length (concat s') + 12 \<le> length (concat s)"
  using recv_msg_result [OF assms] by auto

function serve_stream :: "shell \<Rightarrow> char list list \<Rightarrow> conn \<Rightarrow> world \<Rightarrow> conn \<times> world" where
  \<comment> \<open>the loop of \<^verbatim>\<open>handle_client\<close> on what arrives from the client\<close>
  "serve_stream popen s c w =
     (case recv_msg 4096 (replicate 4096 NUL) s of
        None \<Rightarrow> (c, w)
      | Some (hdr, buf, s) \<Rightarrow>
          let (c, w) = serve_request popen (dec_request (hdr_type hdr) buf) c w
          in if running c then serve_stream popen s c w else (c, w))"
  by pat_completeness auto
termination
  by (relation "measure (\<lambda>(_, s, _). length (concat s))")
    (auto dest: recv_msg_consumes)

declare serve_stream.simps [simp del]

definition handle_client_bytes :: "shell \<Rightarrow> int \<Rightarrow> char list list \<Rightarrow> world \<Rightarrow> world" where
  "handle_client_bytes popen client_fd s w =
     (if client_fd \<le> 0 then w
      else let (c, w) = serve_stream popen s (new_conn client_fd) w in cleanup c w)"

function requests_of :: "char list list \<Rightarrow> request list" where
  \<comment> \<open>the requests in a stream: each message that can be received, cast as its type says\<close>
  "requests_of s =
     (case recv_msg 4096 (replicate 4096 NUL) s of
        None \<Rightarrow> []
      | Some (hdr, buf, s) \<Rightarrow> dec_request (hdr_type hdr) buf # requests_of s)"
  by pat_completeness auto
termination
  by (relation "measure (\<lambda>s. length (concat s))") (auto dest: recv_msg_consumes)

declare requests_of.simps [simp del]

lemma requests_of_length: "12 * length (requests_of s) \<le> length (concat s)"
proof (induction s rule: requests_of.induct)
  case (1 s)
  show ?case
  proof (cases "recv_msg 4096 (replicate 4096 NUL) s")
    case None
    then show ?thesis by (simp add: requests_of.simps [of s])
  next
    case (Some r)
    then obtain h buf t where r: "recv_msg 4096 (replicate 4096 NUL) s = Some (h, buf, t)" by (cases r) auto
    with "1.IH" [OF r refl refl] recv_msg_consumes [OF r] show ?thesis by (simp add: requests_of.simps [of s])
  qed
qed

lemma serve_stream_requests: "serve_stream popen s c w = client_loop popen (requests_of s) c w"
proof (induction popen s c w rule: serve_stream.induct)
  case (1 popen s c w)
  show ?case
  proof (cases "recv_msg 4096 (replicate 4096 NUL) s")
    case None
    then show ?thesis by (simp add: serve_stream.simps [of popen s] requests_of.simps [of s])
  next
    case (Some r)
    then obtain h buf t where r: "recv_msg 4096 (replicate 4096 NUL) s = Some (h, buf, t)" by (cases r) auto
    let ?rq = "dec_request (hdr_type h) buf"
    obtain c' w' where sr: "serve_request popen ?rq c w = (c', w')" by (cases "serve_request popen ?rq c w")
    with "1.IH" [OF r refl refl sr [symmetric] refl] r show ?thesis
      by (cases "running c'") (simp_all add: serve_stream.simps [of popen s] requests_of.simps [of s])
  qed
qed

lemma requests_of_sent:
  assumes "list_all sendable rqs"
    and "list_all2 (\<lambda>rq cs. arrives (request_bytes (request_type rq) (request_payload rq)) cs) rqs css"
  shows "requests_of (concat css) = rqs"
  using assms(2,1)
proof (induction rule: list_all2_induct)
  case Nil
  then show ?case by (simp add: requests_of.simps [of "[]"] recv_msg_def)
next
  case (Cons rq rqs cs css)
  have rq: "dec_request (msg_code (request_type rq)) (c_array 4096 (request_payload rq)) = rq"
    "length (request_payload rq) \<le> 4096"
    using dec_request_payload [of rq] Cons.prems by simp_all
  from server_reads_request [OF rq(2), of "request_type rq"] Cons.hyps(1)
  have "\<exists>h buf. recv_msg 4096 (replicate 4096 NUL) (cs @ concat css) = Some (h, buf, concat css) \<and>
      dec_request (hdr_type h) buf = rq"
    unfolding server_reads_def rq(1) by blast
  with Cons show ?case by (auto simp: requests_of.simps [of "cs @ concat css"])
qed

section \<open>Properties\<close>

text \<open>C15: Whatever bytes a client sends, in whatever pieces they arrive, the conversation
  ends, and the server does what it does for a list of requests that the bytes determine
  (\<open>requests_of\<close>), at most one for every twelve bytes; so what holds for every list of
  requests holds for every input from the network. These are the requests the client means: the
  messages of any list of requests of all nineteen kinds, each in the layout of its struct, cut into
  any pieces that leave the headers whole, are taken for exactly that list.\<close>

theorem bytes_are_requests:
  "handle_client_bytes popen fd s w = handle_client popen fd (requests_of s) w \<and>
    12 * length (requests_of s) \<le> length (concat s) \<and>
    (\<forall>rqs css. list_all sendable rqs \<and>
        list_all2 (\<lambda>rq cs. arrives (request_bytes (request_type rq) (request_payload rq)) cs) rqs css \<longrightarrow>
      handle_client_bytes popen fd (concat css) w = handle_client popen fd rqs w)"
  using requests_of_length [of s] requests_of_sent
  by (auto simp: handle_client_bytes_def handle_client_def serve_stream_requests)

theorem bytes_are_requests_witness:
  "handle_client_bytes sample_shell 9
      [request_bytes MSG_CLOSE_AUCTION_REQ (enc_u32 7), request_bytes MSG_LOGOUT_REQ []] sample_world =
    handle_client sample_shell 9 [RQ_CLOSE_AUCTION \<lparr>close_auction_id = 7\<rparr>, RQ_LOGOUT] sample_world"
proof -
  let ?rqs = "[RQ_CLOSE_AUCTION \<lparr>close_auction_id = 7\<rparr>, RQ_LOGOUT]"
  let ?css = "[[request_bytes MSG_CLOSE_AUCTION_REQ (enc_u32 7)], [request_bytes MSG_LOGOUT_REQ []]]"
  have arr: "arrives (request_bytes t pl) [request_bytes t pl]" for t pl
  proof -
    have "12 \<le> length (request_bytes t pl)" by (simp add: request_bytes_def)
    then show ?thesis by (auto simp: arrives_def)
  qed
  have "list_all sendable ?rqs" by simp
  moreover have "list_all2 (\<lambda>rq cs. arrives (request_bytes (request_type rq) (request_payload rq)) cs) ?rqs ?css"
    by (simp add: arr)
  ultimately show ?thesis
    using bytes_are_requests [of sample_shell 9 "[]" sample_world, THEN conjunct2, THEN conjunct2, rule_format, of ?rqs ?css]
    by simp
qed

lemma send_loop_result:
  "send_loop rets out bs = (r, out') \<Longrightarrow>
   (\<exists>k. out' = out @ take k bs \<and> (r = 0 \<longrightarrow> out' = out @ bs) \<and> (r \<noteq> 0 \<longrightarrow> r = -1 \<and> k < length bs))"
proof (induction rets out bs rule: send_loop.induct)
  case (1 rets out)
  then show ?case by auto
next
  case (2 out b bs)
  then show ?case by (auto intro!: exI [of _ 0])
next
  case (3 n rets out b bs)
  show ?case
  proof (cases "n \<le> 0")
    case True
    with 3 show ?thesis by (auto intro!: exI [of _ 0])
  next
    case False
    with 3 obtain k where
      "out' = (out @ take (nat n) (b # bs)) @ take k (drop (nat n) (b # bs))"
      "r = 0 \<longrightarrow> out' = (out @ take (nat n) (b # bs)) @ drop (nat n) (b # bs)"
      "r \<noteq> 0 \<longrightarrow> r = -1 \<and> k < length (drop (nat n) (b # bs))" by auto
    moreover from this have "out' = out @ take (nat n + k) (b # bs)" by (simp only: take_add append_assoc)
    ultimately show ?thesis by (intro exI [of _ "nat n + k"]) (simp only: append_assoc append_take_drop_id length_drop, auto)
  qed
qed

text \<open>C16: \<^verbatim>\<open>send_msg\<close> and \<^verbatim>\<open>recv_msg\<close> fit together: when \<^verbatim>\<open>send_msg\<close> returns 0, however the kernel
  cut its writes, the bytes that went out are read back by \<^verbatim>\<open>recv_msg\<close> as the same type, status
  and payload, however the network cuts the payload, provided the header arrives in one piece and
  the payload fits the buffer; nothing of what follows is consumed.\<close>

theorem send_recv_roundtrip:
  assumes "send_bytes rets t status pl = (0, out)" and "fits 4 status" and "length pl < 2 ^ 32"
    and "concat s = out @ rest" and "s \<noteq> []" and "12 \<le> length (hd s)" and "\<forall>c \<in> set s. c \<noteq> []"
    and "length pl \<le> length buf"
  shows "\<exists>h s'. recv_msg (length buf) buf s = Some (h, pl @ drop (length pl) buf, s') \<and>
    hdr_type h = t \<and> hdr_status h = status \<and> unat (hdr_length h) = length pl \<and> concat s' = rest"
proof -
  let ?h = "\<lparr>hdr_type = t, hdr_length = word_of_nat (length pl), hdr_status = status\<rparr>"
  have out: "out = enc_header ?h @ pl"
    using assms(1) by (auto simp: send_bytes_def Let_def dest: send_loop_result split: list.splits if_splits)
  have len: "length pl = unat (hdr_length ?h)" using assms(3) by (simp add: unat_of_nat take_bit_nat_eq_self)
  have ok: "header_ok ?h" using assms(2) by (simp add: header_ok_def)
  have cat: "concat s = enc_header ?h @ pl @ rest" using assms(4) by (simp add: out)
  from recv_msg_ok [OF assms(7,6,5) cat ok len refl, of buf] obtain s' where
    "recv_msg (length buf) buf s = Some (?h, pl @ drop (length pl) buf, s')" "concat s' = rest"
    using assms(8) by auto
  with len show ?thesis by (intro exI [of _ ?h] exI [of _ s']) simp
qed

theorem send_recv_roundtrip_witness:
  "\<exists>h s'. recv_msg 8 (replicate 8 NUL) [enc_header \<lparr>hdr_type = 41, hdr_length = 4, hdr_status = 0\<rparr>, ''ab'', ''cdxy'']
     = Some (h, ''abcd'' @ replicate 4 NUL, s') \<and> hdr_type h = 41 \<and> concat s' = ''xy''"
proof -
  have out: "send_bytes [12, 3, 1] 41 0 ''abcd'' = (0, enc_header \<lparr>hdr_type = 41, hdr_length = 4, hdr_status = 0\<rparr> @ ''abcd'')"
    by (simp add: send_bytes_def)
  have "header_ok \<lparr>hdr_type = 41, hdr_length = 4, hdr_status = 0\<rparr>" by (simp add: header_ok_def fits_def)
  then have l: "length (enc_header \<lparr>hdr_type = 41, hdr_length = 4, hdr_status = 0\<rparr>) = 12"
    by (rule header_codec.enc_length)
  then have ne: "enc_header \<lparr>hdr_type = 41, hdr_length = 4, hdr_status = 0\<rparr> \<noteq> []"
    by (metis length_0_conv zero_neq_numeral)
  from send_recv_roundtrip [OF out, of "[enc_header \<lparr>hdr_type = 41, hdr_length = 4, hdr_status = 0\<rparr>, ''ab'', ''cdxy'']"
      "''xy''" "replicate 8 NUL"] l ne
  show ?thesis by (simp add: fits_def) blast
qed

text \<open>A message whose payload is longer than the server's buffer of 4096 bytes derails the
  connection: the handler sees the first 4096 bytes, and the rest of the payload is what the next
  \<^verbatim>\<open>recv_msg\<close> takes for a header. A header that arrives in two pieces ends the conversation.\<close>

lemma framing_lost:
  assumes "\<forall>c \<in> set s. c \<noteq> []" and "s \<noteq> []"
  shows "(12 \<le> length (hd s) \<and> concat s = enc_header h @ pl @ rest \<and> header_ok h \<and>
      length pl = unat (hdr_length h) \<and> 4096 < length pl \<longrightarrow>
      (\<exists>s'. recv_msg 4096 (replicate 4096 NUL) s = Some (h, take 4096 pl, s') \<and>
        concat s' = drop 4096 pl @ rest)) \<and>
    (length (hd s) < 12 \<longrightarrow> handle_client_bytes popen fd s w = w)"
proof (intro conjI impI)
  assume a: "12 \<le> length (hd s) \<and> concat s = enc_header h @ pl @ rest \<and> header_ok h \<and>
      length pl = unat (hdr_length h) \<and> 4096 < length pl"
  show "\<exists>s'. recv_msg 4096 (replicate 4096 NUL) s = Some (h, take 4096 pl, s') \<and> concat s' = drop 4096 pl @ rest"
    using recv_msg_ok [OF assms(1) _ assms(2), of h pl rest "replicate 4096 NUL" 4096] a by auto
next
  assume "length (hd s) < 12"
  then have "recv_msg 4096 (replicate 4096 NUL) s = None"
    using assms(2) by (cases s) (simp_all add: recv_msg_def)
  then show "handle_client_bytes popen fd s w = w"
    by (simp add: handle_client_bytes_def serve_stream.simps cleanup_def new_conn_def)
qed

end
