(* ===== verification/C_Input.thy ===== *)
theory C_Input
  imports Bytes
begin

text \<open>
  What \<^verbatim>\<open>client/client.c\<close> uses of the C library to read what the user types: \<^verbatim>\<open>fgets\<close> on the
  standard input, \<^verbatim>\<open>atoi\<close> and \<^verbatim>\<open>atof\<close> in the C locale. \<^verbatim>\<open>atoi\<close> is \<^verbatim>\<open>(int)strtol(s, NULL, 10)\<close>, as the
  usual libraries define it (the standard leaves numbers outside the range of \<^verbatim>\<open>int\<close> open);
  \<^verbatim>\<open>atof\<close> is \<^verbatim>\<open>strtod\<close> with correct rounding: decimal and hexadecimal numbers, infinities and NaN.

  The lemmas show that a number typed in decimal is read as that number, and that \<^verbatim>\<open>atof\<close> yields
  a value of the C type.
\<close>

section \<open>Lines\<close>

definition fgets_rest :: "nat \<Rightarrow> char list \<Rightarrow> char list" where
  \<comment> \<open>what \<^verbatim>\<open>fgets(out, n, fp)\<close> leaves to read\<close>
  "fgets_rest n inp =
     (let pre = takeWhile (\<lambda>c. c \<noteq> newline) inp
      in drop (length (take (n - 1) (pre @ take 1 (drop (length pre) inp)))) inp)"

lemma fgets_line:
  assumes "newline \<notin> set s" and "length s + 1 < n"
  shows "fgets out n (s @ newline # rest) = s @ newline # NUL # drop (length s + 2) out"
    and "fgets_rest n (s @ newline # rest) = rest"
proof -
  have pre: "takeWhile (\<lambda>c. c \<noteq> newline) (s @ newline # rest) = s"
    using assms(1) by (induction s) auto
  show "fgets out n (s @ newline # rest) = s @ newline # NUL # drop (length s + 2) out"
    using assms(2) by (simp add: fgets_def pre)
  show "fgets_rest n (s @ newline # rest) = rest"
    using assms(2) by (simp add: fgets_rest_def pre)
qed

lemma fgets_long:
  assumes "newline \<notin> set s" and "length s = n" and "0 < n"
  shows "fgets out (Suc n) (s @ rest) = s @ NUL # drop (Suc n) out" and "fgets_rest (Suc n) (s @ rest) = rest"
proof -
  have pre: "takeWhile (\<lambda>c. c \<noteq> newline) (s @ rest) = s @ takeWhile (\<lambda>c. c \<noteq> newline) rest"
    using assms(1) by (induction s) auto
  show "fgets out (Suc n) (s @ rest) = s @ NUL # drop (Suc n) out"
    using assms(2,3) by (auto simp: fgets_def pre Let_def)
  show "fgets_rest (Suc n) (s @ rest) = rest"
    using assms(2,3) by (simp add: fgets_rest_def pre Let_def)
qed

lemma strcspn_line: "newline \<notin> set s \<Longrightarrow> NUL \<notin> set s \<Longrightarrow> strcspn_nl (s @ newline # t) = length s"
  by (induction s) (auto simp: strcspn_nl_def)

lemma strcspn_full: "newline \<notin> set s \<Longrightarrow> NUL \<notin> set s \<Longrightarrow> strcspn_nl (s @ NUL # t) = length s"
  by (induction s) (auto simp: strcspn_nl_def)

section \<open>Integers\<close>

definition is_space :: "char \<Rightarrow> bool" where
  "is_space c \<longleftrightarrow> c = CHR 0x20 \<or> (9 \<le> (of_char c :: nat) \<and> (of_char c :: nat) \<le> 13)"

definition digit_val :: "nat \<Rightarrow> char \<Rightarrow> nat option" where
  "digit_val base c =
     (let x = of_char c;
          d = (if 48 \<le> x \<and> x \<le> 57 then x - 48 else if 97 \<le> x \<and> x \<le> 102 then x - 87
               else if 65 \<le> x \<and> x \<le> 70 then x - 55 else base)
      in if d < base then Some d else None)"

fun read_digits :: "nat \<Rightarrow> nat \<Rightarrow> nat \<Rightarrow> string \<Rightarrow> nat \<times> nat \<times> string" where
  \<comment> \<open>the value so far and the number of digits read\<close>
  "read_digits base acc k [] = (acc, k, [])"
| "read_digits base acc k (c # cs) =
     (case digit_val base c of
        None \<Rightarrow> (acc, k, c # cs)
      | Some d \<Rightarrow> read_digits base (acc * base + d) (Suc k) cs)"

fun sign :: "string \<Rightarrow> bool \<times> string" where
  "sign [] = (False, [])"
| "sign (c # cs) =
     (if c = CHR ''-'' then (True, cs) else if c = CHR ''+'' then (False, cs) else (False, c # cs))"

definition atoi :: "char list \<Rightarrow> int" where
  "atoi b =
     (let (neg, s) = sign (dropWhile is_space (cstring b));
          (n, _, _) = read_digits 10 0 0 s;
          long = max (- (2 ^ 63)) (min (2 ^ 63 - 1) (if neg then - int n else int n))
      in sint (word_of_int long :: 32 word))"

section \<open>Floating-point numbers\<close>

definition round_ratio :: "nat \<Rightarrow> nat \<Rightarrow> dbl" where
  \<comment> \<open>\<open>p / q\<close> rounded to nearest, ties to even. \<open>m\<close> is four times the quotient in units of the
    smallest subnormal, cut to half a unit, with a bit that says whether something was cut.\<close>
  "round_ratio p q =
     (let h = 2 * int p * one div int q;
          m = 2 * h + (if int q dvd 2 * int p * one then 0 else 1);
          e = excess (m div 4);
          r = rne (e + 2) m div 4
      in if overflow \<le> r then PInf else Fin r)"

definition round_scaled :: "nat \<Rightarrow> nat \<Rightarrow> int \<Rightarrow> dbl" where
  \<comment> \<open>\<open>m * base ^ e\<close>\<close>
  "round_scaled base m e =
     (if 0 \<le> e then round_ratio (m * base ^ nat e) 1 else round_ratio m (base ^ nat (- e)))"

definition read_mantissa :: "nat \<Rightarrow> string \<Rightarrow> nat \<times> nat \<times> nat \<times> string" where
  \<comment> \<open>all digits as one number, how many there are, how many of them follow the point\<close>
  "read_mantissa base s =
     (let (n, k, r) = read_digits base 0 0 s
      in case r of
           c # t \<Rightarrow>
             if c = CHR ''.''
             then let (n', j, r') = read_digits base n 0 t in (n', k + j, j, if k + j = 0 then s else r')
             else (n, k, 0, r)
         | [] \<Rightarrow> (n, k, 0, r))"

definition read_exponent :: "char set \<Rightarrow> string \<Rightarrow> int" where
  "read_exponent marks s =
     (case s of
        [] \<Rightarrow> 0
      | c # t \<Rightarrow>
          if c \<in> marks
          then let (neg, t) = sign t; (n, k, _) = read_digits 10 0 0 t
               in if neg then - int n else int n
          else 0)"

definition to_lower :: "string \<Rightarrow> string" where
  "to_lower = map (\<lambda>c. let x = of_char c :: nat in if 65 \<le> x \<and> x \<le> 90 then char_of (x + 32) else c)"

definition strtod_unsigned :: "string \<Rightarrow> dbl" where
  "strtod_unsigned s =
     (if to_lower (take 3 s) = ''inf'' then PInf
      else if to_lower (take 3 s) = ''nan'' then NaN
      else
        let (hm, hk, hf, hr) = read_mantissa 16 (drop 2 s)
        in if to_lower (take 2 s) = ''0x'' \<and> 0 < hk
           then round_scaled 2 hm (read_exponent {CHR ''p'', CHR ''P''} hr - 4 * int hf)
           else let (m, k, f, r) = read_mantissa 10 s
                in if k = 0 then 0 else round_scaled 10 m (read_exponent {CHR ''e'', CHR ''E''} r - int f))"

definition atof :: "char list \<Rightarrow> dbl" where
  "atof b =
     (let (neg, s) = sign (dropWhile is_space (cstring b)); v = strtod_unsigned s
      in if neg then - v else v)"

section \<open>Numbers in decimal\<close>

fun decimal :: "nat \<Rightarrow> string" where
  "decimal n = (if n < 10 then [char_of (48 + n)] else decimal (n div 10) @ [char_of (48 + n mod 10)])"

declare decimal.simps [simp del]

definition digit_char :: "char \<Rightarrow> bool" where
  "digit_char c \<longleftrightarrow> (\<exists>d<10. c = char_of (48 + d :: nat))"

lemma digit_char_val: "d < 10 \<Longrightarrow> digit_val 10 (char_of (48 + d)) = Some d"
  by (simp add: digit_val_def Let_def)

lemma digit_char_facts:
  assumes "digit_char c"
  shows "\<not> is_space c" "c \<noteq> CHR ''-''" "c \<noteq> CHR ''+''" "c \<noteq> NUL" "c \<noteq> newline" "c \<noteq> CHR ''.''"
    "c \<noteq> CHR ''x''" "c \<noteq> CHR ''X''" "to_lower [c] = [c]"
proof -
  obtain d :: nat where d: "d < 10" "c = char_of (48 + d)" using assms by (auto simp: digit_char_def)
  then have n: "of_char c = 48 + d" by simp
  show "\<not> is_space c" using n d(1) by (auto simp: is_space_def)
  show "c \<noteq> CHR ''-''" "c \<noteq> CHR ''+''" "c \<noteq> NUL" "c \<noteq> newline" "c \<noteq> CHR ''.''" "c \<noteq> CHR ''x''" "c \<noteq> CHR ''X''"
    using n d(1) by auto
  show "to_lower [c] = [c]" using n d(1) by (simp add: to_lower_def)
qed

lemma decimal_digits: "list_all digit_char (decimal n)"
proof (induction n rule: decimal.induct)
  case (1 n)
  have "digit_char (char_of (48 + d))" if "d < 10" for d :: nat using that by (auto simp: digit_char_def)
  with 1 show ?case by (subst decimal.simps) simp
qed

lemma decimal_ne: "decimal n \<noteq> []"
  by (subst decimal.simps) simp

lemma read_digits_append:
  "list_all digit_char s \<Longrightarrow>
   read_digits 10 acc k (s @ t) = (let (n, j, _) = read_digits 10 acc k s in read_digits 10 n j t)"
  by (induction s arbitrary: acc k) (auto simp: digit_char_def digit_char_val)

lemma read_digits_decimal: "read_digits 10 0 0 (decimal n) = (n, length (decimal n), [])"
proof (induction n rule: decimal.induct)
  case (1 n)
  show ?case
  proof (cases "n < 10")
    case True
    then show ?thesis by (subst (1 2) decimal.simps) (simp add: digit_char_val)
  next
    case False
    have "digit_val 10 (char_of (48 + n mod 10)) = Some (n mod 10)" by (rule digit_char_val) simp
    with False 1 show ?thesis
      by (subst (1 2) decimal.simps)
        (simp add: read_digits_append decimal_digits)
  qed
qed

lemma cstring_decimal: "cstring (decimal n @ NUL # t) = decimal n"
proof -
  have "NUL \<notin> set (decimal n)"
    using decimal_digits [of n] digit_char_facts(4) by (auto simp: list_all_iff)
  then have "takeWhile (\<lambda>c. c \<noteq> NUL) (decimal n @ NUL # t) = decimal n @ takeWhile (\<lambda>c. c \<noteq> NUL) (NUL # t)"
    by (intro takeWhile_append2) auto
  then show ?thesis by (simp add: cstring_def)
qed

lemma skip_decimal: "sign (dropWhile is_space (decimal n)) = (False, decimal n)"
proof -
  obtain c cs where d: "decimal n = c # cs" using decimal_ne [of n] by (cases "decimal n") auto
  then have "digit_char c" using decimal_digits [of n] by simp
  then show ?thesis by (simp add: d digit_char_facts)
qed

lemma atoi_decimal: "n < 2 ^ 31 \<Longrightarrow> atoi (decimal n @ NUL # t) = int n"
proof -
  assume "n < 2 ^ 31"
  then have "int n < 2 ^ 31" by simp
  then show ?thesis
    by (simp add: atoi_def cstring_decimal skip_decimal read_digits_decimal signed_of_int signed_take_bit_int_eq_self)
qed

lemma decimal_not_word:
  assumes "to_lower (take 3 (decimal n)) = ''inf'' \<or> to_lower (take 3 (decimal n)) = ''nan'' \<or>
    to_lower (take 2 (decimal n)) = ''0x''"
  shows False
proof -
  have low: "to_lower s = s" if "list_all digit_char s" for s
    using that digit_char_facts(9) by (induction s) (simp_all add: to_lower_def)
  have all: "list_all digit_char (take k (decimal n))" for k
    using decimal_digits [of n] by (auto simp: list_all_iff dest: in_set_takeD)
  have code: "of_char c < (58 :: nat)" if "digit_char c" for c
    using that by (auto simp: digit_char_def)
  have "list_all digit_char ''inf'' \<or> list_all digit_char ''nan'' \<or> list_all digit_char ''0x''"
    using assms low [OF all] all by metis
  then show False using code [of "CHR ''i''"] code [of "CHR ''n''"] code [of "CHR ''x''"] by auto
qed

lemma rne_multiple: "rne e (k * 2 ^ e) = k * 2 ^ e"
  by (simp add: rne_def)

lemma rne_nonneg: "0 \<le> n \<Longrightarrow> 0 \<le> rne e n"
  by (auto simp: rne_def Let_def pos_imp_zdiv_nonneg_iff)

lemma round_ratio_whole:
  assumes "n < 2 ^ 53"
  shows "round_ratio n 1 = rs (int n)"
proof -
  let ?x = "int n * one"
  have "dbl_ok (rs (int n))" using assms by (intro dbl_ok_rs) simp
  then have "2 ^ excess ?x dvd ?x" and ov: "\<bar>?x\<bar> < overflow" by (simp_all add: rs_def dbl_ok_def)
  then obtain k where k: "?x = k * 2 ^ excess ?x" by (metis dvd_def mult.commute)
  have "4 * ?x = k * 2 ^ (excess ?x + 2)" by (subst k) (simp add: power_add)
  then have "rne (excess ?x + 2) (4 * ?x) = 4 * ?x" using rne_multiple by metis
  moreover have "2 * (2 * int n * one) = 4 * ?x" by simp
  ultimately show ?thesis
    using ov by (simp add: round_ratio_def rs_def Let_def)
qed

lemma atof_decimal:
  assumes "n < 2 ^ 53"
  shows "atof (decimal n @ NUL # t) = rs (int n)"
proof -
  have "read_mantissa 10 (decimal n) = (n, length (decimal n), 0, [])"
    by (simp add: read_mantissa_def read_digits_decimal)
  then have "strtod_unsigned (decimal n) = rs (int n)"
    using decimal_not_word [of n] decimal_ne [of n] round_ratio_whole [OF assms]
    by (auto simp: strtod_unsigned_def round_scaled_def read_exponent_def split: prod.split)
  then show ?thesis by (simp add: atof_def cstring_decimal skip_decimal)
qed

lemma dbl_ok_round_ratio [simp]: "dbl_ok (round_ratio p q)"
proof -
  define h where "h = 2 * int p * one div int q"
  define m where "m = 2 * h + (if int q dvd 2 * int p * one then 0 else 1)"
  define e where "e = excess (m div 4)"
  have h0: "0 \<le> h" by (cases "q = 0") (simp_all add: h_def one_def pos_imp_zdiv_nonneg_iff)
  then have m0: "0 \<le> m" by (simp add: m_def)
  have "m div 4 < 2 ^ (53 + e)" using excess_bound [of "m div 4"] m0 by (simp add: e_def pos_imp_zdiv_nonneg_iff)
  then have "m div 4 + 1 \<le> 2 ^ (53 + e)" by simp
  moreover have "m < 4 * (m div 4 + 1)" by presburger
  ultimately have "m < 4 * 2 ^ (53 + e)" by linarith
  then have "\<bar>m\<bar> < 2 ^ (53 + (e + 2))" using m0 by (simp add: power_add)
  from rne_fits [OF this] obtain k where k: "rne (e + 2) m = k * 2 ^ (e + 2)" "\<bar>k\<bar> \<le> 2 ^ 53" by blast
  have "k * 2 ^ (e + 2) = 4 * (k * 2 ^ e)" by (simp add: power_add)
  then have r: "rne (e + 2) m div 4 = k * 2 ^ e" unfolding k(1) by simp
  have "0 \<le> k * 2 ^ e" unfolding r [symmetric] using m0 rne_nonneg [of m "e + 2"] by (simp add: pos_imp_zdiv_nonneg_iff)
  moreover have "- overflow < 0" by (simp add: overflow_def one_def)
  ultimately show ?thesis
    using excess_multiple [OF k(2), of e]
    by (auto simp: round_ratio_def Let_def h_def [symmetric] m_def [symmetric] e_def [symmetric] r dbl_ok_def
        simp del: add_2_eq_Suc')
qed

lemma dbl_ok_atof [simp]: "dbl_ok (atof b)"
  by (auto simp: atof_def strtod_unsigned_def round_scaled_def Let_def case_prod_beta)

lemma atof_nan: "atof (''nan'' @ NUL # t) = NaN"
  by (simp add: atof_def strtod_unsigned_def to_lower_def is_space_def)

end
