(* ===== verification/Client.thy ===== *)
theory Client
  imports Wire C_Input "HOL-Library.State_Monad"
begin

text \<open>
  \<^verbatim>\<open>client/client.c\<close>: the terminal client. Its functions are programs of the state monad over the
  client's state: what the socket will deliver (as in \<^verbatim>\<open>Wire\<close>), the bytes it has written to the
  socket, what the user will type, and what it has printed, as the list of its \<^verbatim>\<open>PRINT\<close>s (format
  and arguments).

  Two sources of behaviour are outside the program and are parts of the state: \<open>accepts\<close> says what
  each \<^verbatim>\<open>write\<close> to the socket returns, and \<open>stack\<close> what bytes each uninitialised local variable
  holds. The client prints such bytes, and takes decisions on them, when \<^verbatim>\<open>recv_msg\<close> fails or the
  standard input has ended.

  The main thread holds \<^verbatim>\<open>req_lock\<close> from a request to its response; the listener thread runs
  between two such exchanges. One iteration of the listener is \<open>listener_once\<close>.

  Dashes outside ASCII in the texts are written \<open>-\<close>.
\<close>

section \<open>The state\<close>

datatype arg = A_str string | A_u32 u32 | A_int int | A_dbl dbl | A_time time_t

record client =
  inbox :: "char list list"
  outbox :: "char list"
  accepts :: "nat \<Rightarrow> nat \<Rightarrow> int" \<comment> \<open>the result of the \<open>k\<close>-th \<^verbatim>\<open>write\<close> from now, of \<open>n\<close> bytes\<close>
  stdin :: "char list"
  screen :: "(string \<times> arg list) list"
  stack :: "nat \<Rightarrow> nat \<Rightarrow> char" \<comment> \<open>the bytes of the \<open>k\<close>-th uninitialised variable from now\<close>
  me :: User
  logged_in :: bool

type_synonym 'a prog = "(client, 'a) state"

abbreviation ret :: "'a \<Rightarrow> 'a prog" where
  "ret \<equiv> State_Monad.return"

definition PRINT :: "string \<Rightarrow> arg list \<Rightarrow> unit prog" where
  "PRINT fmt args = State (\<lambda>c. ((), c\<lparr>screen := screen c @ [(fmt, args)]\<rparr>))"

definition uninit :: "nat \<Rightarrow> char list prog" where
  \<comment> \<open>a local variable of \<open>n\<close> bytes without initialiser\<close>
  "uninit n = State (\<lambda>c. (map (stack c 0) [0..<n], c\<lparr>stack := \<lambda>k. stack c (Suc k)\<rparr>))"

primrec for_each :: "'a list \<Rightarrow> ('a \<Rightarrow> unit prog) \<Rightarrow> unit prog" where
  "for_each [] f = ret ()"
| "for_each (x # xs) f = do { f x; for_each xs f }"

section \<open>Network helpers\<close>

definition sock_write :: "char list \<Rightarrow> int prog" where
  \<comment> \<open>\<^verbatim>\<open>write(server_fd, bs, length)\<close>\<close>
  "sock_write bs = State (\<lambda>c.
     let n = accepts c 0 (length bs)
     in (n, c\<lparr>outbox := outbox c @ take (nat n) bs, accepts := \<lambda>k. accepts c (Suc k)\<rparr>))"

definition client_send_msg :: "MessageType \<Rightarrow> char list \<Rightarrow> int prog" where
  "client_send_msg t pl =
     do { n \<leftarrow> sock_write
            (enc_header \<lparr>hdr_type = msg_code t, hdr_length = word_of_nat (length pl), hdr_status = 0\<rparr>);
          if n \<noteq> 12 then ret (-1)
          else if pl \<noteq> []
          then do { n \<leftarrow> sock_write pl;
                    ret (if n \<noteq> int (length pl) then -1 else 0) }
          else ret 0 }"

function fill_loop :: "nat \<Rightarrow> nat \<Rightarrow> char list \<Rightarrow> char list list \<Rightarrow> int \<times> char list \<times> char list list" where
  \<comment> \<open>the \<^verbatim>\<open>while (got < to_read)\<close> loop with the buffer as it stands when a \<^verbatim>\<open>read\<close> fails\<close>
  "fill_loop to_read got buf s =
     (if got < to_read
      then let (bs, s) = sock_read (to_read - got) s; n = length bs
           in if n = 0 then (-1, buf, s)
              else fill_loop to_read (got + n) (take got buf @ bs @ drop (got + n) buf) s
      else (0, buf, s))"
  by pat_completeness auto
termination
  by (relation "measure (\<lambda>(to_read, got, _). to_read - got)") (auto intro: diff_less_mono2)

declare fill_loop.simps [simp del]

definition client_recv_msg :: "char list \<Rightarrow> char list \<Rightarrow> (int \<times> char list \<times> char list) prog" where
  \<comment> \<open>the result, the bytes of \<^verbatim>\<open>*hdr_out\<close> and of \<^verbatim>\<open>buf\<close>, given what they held before\<close>
  "client_recv_msg hdr buf = State (\<lambda>c.
     let (r, s) = sock_read 12 (inbox c); hdr = r @ drop (length r) hdr
     in if length r \<noteq> 12 then ((-1, hdr, buf), c\<lparr>inbox := s\<rparr>)
        else
          let len = unat (hdr_length (dec_header hdr))
          in if len = 0 then ((0, hdr, buf), c\<lparr>inbox := s\<rparr>)
             else
               let to_read = (if len < length buf then len else length buf);
                   (res, buf, s) = fill_loop to_read 0 buf s
               in ((res, hdr, buf), c\<lparr>inbox := s\<rparr>))"

definition exchange :: "MessageType \<Rightarrow> char list \<Rightarrow> nat \<Rightarrow> (int \<times> header \<times> char list) prog" where
  \<comment> \<open>the lines between \<^verbatim>\<open>pthread_mutex_lock(&req_lock)\<close> and the unlock: send, then receive into an
    uninitialised header and an uninitialised buffer of \<open>n\<close> bytes\<close>
  "exchange t pl n =
     do { client_send_msg t pl;
          hdr \<leftarrow> uninit 12;
          buf \<leftarrow> uninit n;
          (r, hdr, buf) \<leftarrow> client_recv_msg hdr buf;
          ret (r, dec_header hdr, buf) }"

section \<open>Input and display helpers\<close>

definition read_line :: "string \<Rightarrow> char list \<Rightarrow> nat \<Rightarrow> char list prog" where
  \<comment> \<open>the buffer afterwards; at the end of the input it is left as it is\<close>
  "read_line prompt buf n =
     do { PRINT ''%s'' [A_str prompt];
          c \<leftarrow> State_Monad.get;
          if stdin c = [] then ret buf
          else do {
            State_Monad.set (c\<lparr>stdin := fgets_rest n (stdin c)\<rparr>);
            let buf = fgets buf n (stdin c);
            ret (buf[strcspn_nl buf := NUL]) } }"

definition read_double :: "string \<Rightarrow> dbl prog" where
  "read_double p = do { b \<leftarrow> uninit 64; b \<leftarrow> read_line p b 64; ret (atof b) }"

definition read_int :: "string \<Rightarrow> int prog" where
  "read_int p = do { b \<leftarrow> uninit 32; b \<leftarrow> read_line p b 32; ret (atoi b) }"

definition role_str :: "Role \<Rightarrow> string" where
  "role_str r =
     (if r = ROLE_BIDDER then ''Bidder'' else if r = ROLE_AUCTIONEER then ''Auctioneer''
      else if r = ROLE_MODERATOR then ''Moderator'' else if r = ROLE_ADMIN then ''Admin'' else ''?'')"

definition sep :: "unit prog" where
  "sep = PRINT (replicate 45 CHR ''-'' @ [newline]) []"

definition line :: "string \<Rightarrow> arg list \<Rightarrow> unit prog" where
  \<comment> \<open>a \<^verbatim>\<open>PRINT\<close> whose text ends with a newline\<close>
  "line fmt args = PRINT (fmt @ [newline]) args"

definition print_auction :: "Auction \<Rightarrow> unit prog" where
  "print_auction a =
     line ''  #%-4u %-28s Rs.%-10.2f closes:%s''
       [A_u32 (auction_id a), A_str (cstring (item_name a)), A_dbl (current_bid a), A_time (end_time a)]"

section \<open>The listener thread\<close>

definition listener_once :: "bool prog" where
  \<comment> \<open>one iteration with something to read and \<^verbatim>\<open>req_lock\<close> free; \<open>False\<close> is the \<^verbatim>\<open>break\<close>. Its header is
    that of the last iteration, which \<^verbatim>\<open>recv_msg\<close> overwrites before it is used.\<close>
  "listener_once =
     do { hdr \<leftarrow> uninit 12;
          (r, hdr, buf) \<leftarrow> client_recv_msg hdr (replicate 1024 NUL);
          if r < 0 then ret False
          else do {
            let t = hdr_type (dec_header hdr);
            (if t = msg_code MSG_NOTIFY_OUTBID
             then PRINT (newline # ''  ** OUTBID on Auction #%u - new high: Rs.%.2f'' @ [newline])
                   [A_u32 (dec_u32 (field 0 4 buf)), A_dbl (dec_dbl (field 8 8 buf))]
             else if t = msg_code MSG_NOTIFY_AUCTION_WON
             then PRINT (newline # ''  ** YOU WON Auction #%u for Rs.%.2f!'' @ [newline])
                   [A_u32 (dec_u32 (field 0 4 buf)), A_dbl (dec_dbl (field 8 8 buf))]
             else if t = msg_code MSG_NOTIFY_AUCTION_CLOSED
             then PRINT (newline # ''  ** Auction #%u has closed.'' @ [newline])
                   [A_u32 (dec_u32 (field 0 4 buf))]
             else ret ());
            ret True } }"

section \<open>Login, logout, password\<close>

definition do_login :: "bool prog" where
  "do_login =
     do { u \<leftarrow> read_line ''  Username: '' (replicate MAX_USERNAME NUL) MAX_USERNAME;
          p \<leftarrow> read_line ''  Password: '' (replicate MAX_PASSWORD NUL) MAX_PASSWORD;
          (r, hdr, buf) \<leftarrow> exchange MSG_LOGIN_REQ (u @ p) 216;
          if r < 0 then ret False
          else if hdr_status hdr = err_code ERR_OK
          then do {
            c \<leftarrow> State_Monad.get;
            State_Monad.set (c\<lparr>me := dec_User buf, logged_in := True\<rparr>);
            PRINT (newline # ''  Welcome, %s! [%s]'' @ [newline])
              [A_str (cstring (full_name (dec_User buf))), A_str (role_str (role (dec_User buf)))];
            ret True }
          else do {
            (if hdr_status hdr = err_code ERR_AUTH_FAIL then line ''  Invalid credentials.'' []
             else if hdr_status hdr = err_code ERR_ALREADY_LOGGED then line ''  Already logged in elsewhere.'' []
             else if hdr_status hdr = err_code ERR_ACCOUNT_BANNED then line ''  Account inactive/banned.'' []
             else line ''  Login failed.'' []);
            ret False } }"

definition do_logout :: "unit prog" where
  "do_logout =
     do { exchange MSG_LOGOUT_REQ [] 64;
          c \<leftarrow> State_Monad.get;
          State_Monad.set (c\<lparr>logged_in := False\<rparr>);
          line ''  Goodbye, %s!'' [A_str (cstring (full_name (me c)))] }"

definition do_change_password :: "unit prog" where
  "do_change_password =
     do { old \<leftarrow> read_line ''  Current password: '' (replicate MAX_PASSWORD NUL) MAX_PASSWORD;
          nw \<leftarrow> read_line ''  New password:     '' (replicate MAX_PASSWORD NUL) MAX_PASSWORD;
          confirm \<leftarrow> uninit MAX_PASSWORD;
          confirm \<leftarrow> read_line ''  Confirm new:      '' confirm MAX_PASSWORD;
          if \<not> strncmp_eq nw confirm MAX_PASSWORD then line ''  Passwords do not match.'' []
          else do {
            (_, hdr, _) \<leftarrow> exchange MSG_CHANGE_PASS_REQ (old @ nw) 64;
            line (if hdr_status hdr = err_code ERR_OK then ''  Password changed.''
                  else ''  Failed - wrong current password?'') [] } }"

section \<open>Views\<close>

definition view_auctions :: "unit prog" where
  "view_auctions =
     do { (r, hdr, buf) \<leftarrow> exchange MSG_VIEW_AUCTIONS_REQ [] (256 * 384);
          if r < 0 then ret ()
          else do {
            let n = unat (hdr_length hdr) div 384;
            if n = 0 then line ''  No open auctions.'' []
            else do {
              sep;
              line ''  %-6s %-28s %-14s %s'' [A_str ''ID'', A_str ''Item'', A_str ''Current Bid'', A_str ''Closes''];
              sep;
              for_each [0..<n] (\<lambda>i. print_auction (dec_Auction (drop (384 * i) buf)));
              sep } } }"
section \<open>Bidder\<close>

definition bidder_place_bid :: "unit prog" where
  \<comment> \<open>the struct is not zeroed: the padding between its fields is sent as it is\<close>
  "bidder_place_bid =
     do { padding \<leftarrow> uninit 4;
          aid \<leftarrow> read_int ''  Auction ID: '';
          amount \<leftarrow> read_double ''  Your bid (Rs.): '';
          (_, hdr, _) \<leftarrow> exchange MSG_PLACE_BID_REQ (enc_u32 (word_of_int aid) @ padding @ enc_dbl amount) 40;
          if hdr_status hdr = err_code ERR_OK then line ''  Bid placed! You are the highest bidder.'' []
          else if hdr_status hdr = err_code ERR_BID_TOO_LOW
          then line ''  Too low - must beat the current highest bid.'' []
          else if hdr_status hdr = err_code ERR_INSUFFICIENT then line ''  Insufficient wallet balance.'' []
          else if hdr_status hdr = err_code ERR_AUCTION_CLOSED then line ''  Auction is not open.'' []
          else line ''  Error (%d).'' [A_int (hdr_status hdr)] }"

definition bidder_balance :: "unit prog" where
  "bidder_balance =
     do { (_, _, buf) \<leftarrow> exchange MSG_VIEW_BALANCE_REQ [] 216;
          let u = dec_User buf;
          line ''  Balance: Rs.%.2f  |  On hold: Rs.%.2f  |  Available: Rs.%.2f''
            [A_dbl (wallet_balance u), A_dbl (wallet_hold u), A_dbl (wallet_balance u - wallet_hold u)] }"

definition bidder_deposit :: "unit prog" where
  "bidder_deposit =
     do { amount \<leftarrow> read_double ''  Deposit (Rs.): '';
          if amount \<le> 0 then line ''  Invalid amount.'' []
          else do {
            (_, hdr, buf) \<leftarrow> exchange MSG_DEPOSIT_REQ (enc_dbl amount) 216;
            if hdr_status hdr = err_code ERR_OK
            then line ''  Deposit successful. New balance: Rs.%.2f'' [A_dbl (wallet_balance (dec_User buf))]
            else ret () } }"

definition bidder_my_bids :: "unit prog" where
  "bidder_my_bids =
     do { (_, hdr, buf) \<leftarrow> exchange MSG_VIEW_MY_BIDS_REQ [] (256 * 40);
          let n = unat (hdr_length hdr) div 40;
          if n = 0 then line ''  No bids yet.'' []
          else do {
            sep;
            line ''  %-8s %-10s %-14s %-20s %s''
              [A_str ''Bid ID'', A_str ''Auction'', A_str ''Amount'', A_str ''Time'', A_str ''Won?''];
            sep;
            for_each [0..<n] (\<lambda>i.
              let b = dec_Bid (drop (40 * i) buf)
              in line ''  %-8u %-10u Rs.%-11.2f %-20s %s''
                   [A_u32 (bid_id b), A_u32 (bid_auction_id b), A_dbl (bid_amount b), A_time (placed_at b),
                    A_str (if is_winning b then ''YES'' else ''No'')]);
            sep } }"

definition bidder_feedback :: "unit prog" where
  "bidder_feedback =
     do { aid \<leftarrow> read_int ''  Auction ID: '';
          msg \<leftarrow> read_line ''  Feedback: '' (replicate MAX_FEEDBACK NUL) MAX_FEEDBACK;
          (_, hdr, _) \<leftarrow> exchange MSG_SUBMIT_FEEDBACK_REQ (enc_u32 (word_of_int aid) @ msg) 64;
          line (if hdr_status hdr = err_code ERR_OK then ''  Feedback submitted.'' else ''  Failed.'') [] }"

definition bidder_file_dispute :: "unit prog" where
  "bidder_file_dispute =
     do { aid \<leftarrow> read_int ''  Auction ID: '';
          why \<leftarrow> read_line ''  Reason: '' (replicate MAX_DESC NUL) MAX_DESC;
          (_, hdr, _) \<leftarrow> exchange MSG_FILE_DISPUTE_REQ (enc_u32 (word_of_int aid) @ why) 552;
          if hdr_status hdr = err_code ERR_OK then line ''  Dispute filed.'' []
          else if hdr_status hdr = err_code ERR_NOT_FOUND then line ''  Auction not found.'' []
          else if hdr_status hdr = err_code ERR_AUCTION_CLOSED then line ''  Auction not closed yet.'' []
          else line ''  Error.'' [] }"

definition heading :: "string \<Rightarrow> unit prog" where
  "heading title = do { sep; c \<leftarrow> State_Monad.get; line title [A_str (cstring (full_name (me c)))]; sep }"

definition going_on :: "unit prog \<Rightarrow> bool prog" where
  \<comment> \<open>a case of the switch that ends with \<^verbatim>\<open>break\<close>\<close>
  "going_on p = do { p; ret True }"

definition leaving :: "bool prog" where
  \<comment> \<open>\<^verbatim>\<open>do_logout(); return;\<close>\<close>
  "leaving = do { do_logout; ret False }"

definition bidder_round :: "bool prog" where
  \<comment> \<open>the body of the \<^verbatim>\<open>while\<close> of \<^verbatim>\<open>menu_bidder\<close>\<close>
  "bidder_round =
     do { heading ''  BIDDER - %s'';
          line ''  1.View auctions  2.Place bid   3.Balance'' [];
          line ''  4.Deposit        5.My bids     6.Feedback'' [];
          line ''  7.File dispute   8.Change pass 9.Logout'' []; sep;
          choice \<leftarrow> read_int ''  Choice: '';
          if choice = 1 then going_on view_auctions
          else if choice = 2 then going_on bidder_place_bid
          else if choice = 3 then going_on bidder_balance
          else if choice = 4 then going_on bidder_deposit
          else if choice = 5 then going_on bidder_my_bids
          else if choice = 6 then going_on bidder_feedback
          else if choice = 7 then going_on bidder_file_dispute
          else if choice = 8 then going_on do_change_password
          else if choice = 9 then leaving
          else going_on (line ''  Invalid.'' []) }"

section \<open>Auctioneer\<close>

definition auctioneer_create :: "unit prog" where
  \<comment> \<open>the struct is zeroed, the four bytes of padding at its end included\<close>
  "auctioneer_create =
     do { item \<leftarrow> read_line ''  Item name:         '' (replicate MAX_ITEM_NAME NUL) MAX_ITEM_NAME;
          desc \<leftarrow> read_line ''  Description:       '' (replicate MAX_DESC NUL) MAX_DESC;
          start \<leftarrow> read_double ''  Start price (Rs.): '';
          reserve \<leftarrow> read_double ''  Reserve (Rs.,0=none): '';
          dur \<leftarrow> read_int ''  Duration (seconds): '';
          (_, hdr, buf) \<leftarrow> exchange MSG_CREATE_AUCTION_REQ
            (item @ desc @ enc_dbl start @ enc_dbl reserve @ enc_u32 (word_of_int dur) @ pad) 384;
          if hdr_status hdr = err_code ERR_OK
          then line ''  Auction #%u created.'' [A_u32 (auction_id (dec_Auction buf))]
          else line ''  Failed.'' [] }"

definition auctioneer_close :: "unit prog" where
  "auctioneer_close =
     do { aid \<leftarrow> read_int ''  Auction ID: '';
          (_, hdr, _) \<leftarrow> exchange MSG_CLOSE_AUCTION_REQ (enc_u32 (word_of_int aid)) 384;
          if hdr_status hdr = err_code ERR_OK then line ''  Auction closed and settled.'' []
          else if hdr_status hdr = err_code ERR_PERMISSION then line ''  Not your auction.'' []
          else if hdr_status hdr = err_code ERR_AUCTION_CLOSED then line ''  Already closed.'' []
          else line ''  Error.'' [] }"

definition auctioneer_round :: "bool prog" where
  "auctioneer_round =
     do { heading ''  AUCTIONEER - %s'';
          line ''  1.View auctions  2.Create auction  3.Close auction'' [];
          line ''  4.Change pass    5.Logout'' []; sep;
          choice \<leftarrow> read_int ''  Choice: '';
          if choice = 1 then going_on view_auctions
          else if choice = 2 then going_on auctioneer_create
          else if choice = 3 then going_on auctioneer_close
          else if choice = 4 then going_on do_change_password
          else if choice = 5 then leaving
          else going_on (line ''  Invalid.'' []) }"

section \<open>Moderator\<close>

definition mod_disputes :: "unit prog" where
  "mod_disputes =
     do { (_, hdr, buf) \<leftarrow> exchange MSG_VIEW_DISPUTES_REQ [] (128 * 552);
          let n = unat (hdr_length hdr) div 552;
          if n = 0 then line ''  No open disputes.'' []
          else do {
            sep;
            for_each [0..<n] (\<lambda>i.
              let d = dec_Dispute (drop (552 * i) buf)
              in line ''  #%u | Auction#%u | user%u | %s''
                   [A_u32 (dispute_id d), A_u32 (dispute_auction_id d), A_u32 (raised_by_user_id d),
                    A_str (cstring (reason d))]);
            sep } }"

definition mod_resolve :: "unit prog" where
  "mod_resolve =
     do { did \<leftarrow> read_int ''  Dispute ID: '';
          line ''  1.Resolve(refund)  2.Reject'' [];
          choice \<leftarrow> read_int ''  Choice: '';
          let st = (if choice = 1 then DISPUTE_RESOLVED else DISPUTE_REJECTED);
          res \<leftarrow> read_line ''  Notes: '' (replicate MAX_DESC NUL) MAX_DESC;
          (_, hdr, _) \<leftarrow> exchange MSG_RESOLVE_DISPUTE_REQ (enc_u32 (word_of_int did) @ enc_u32 st @ res) 552;
          line (if hdr_status hdr = err_code ERR_OK then ''  Resolved.'' else ''  Failed.'') [] }"

definition mod_feedback :: "unit prog" where
  "mod_feedback =
     do { (_, hdr, buf) \<leftarrow> exchange MSG_VIEW_FEEDBACK_REQ [] (256 * 288);
          let n = unat (hdr_length hdr) div 288;
          if n = 0 then line ''  No unreviewed feedback.'' []
          else do {
            sep;
            for_each [0..<n] (\<lambda>i.
              let f = dec_Feedback (drop (288 * i) buf)
              in line (''  #%u | Auction#%u | user%u | '' @ [CHR 0x22] @ ''%s'' @ [CHR 0x22])
                   [A_u32 (feedback_id f), A_u32 (about_auction_id f), A_u32 (from_user_id f),
                    A_str (cstring (feedback_message f))]);
            sep } }"

definition mod_toggle :: "unit prog" where
  "mod_toggle =
     do { uid \<leftarrow> read_int ''  User ID: '';
          line ''  1.Activate  2.Deactivate  3.Ban'' [];
          choice \<leftarrow> read_int ''  Choice: '';
          let st = (if choice = 1 then ACCOUNT_ACTIVE else if choice = 2 then ACCOUNT_INACTIVE else ACCOUNT_BANNED);
          (_, hdr, _) \<leftarrow> exchange MSG_TOGGLE_ACCOUNT_REQ (enc_u32 (word_of_int uid) @ enc_u32 st) 216;
          if hdr_status hdr = err_code ERR_OK then line ''  Status updated.'' []
          else if hdr_status hdr = err_code ERR_PERMISSION then line ''  Cannot modify higher-rank user.'' []
          else line ''  Error.'' [] }"

definition moderator_round :: "bool prog" where
  "moderator_round =
     do { heading ''  MODERATOR - %s'';
          line ''  1.Disputes  2.Resolve  3.Feedback  4.Toggle account'' [];
          line ''  5.Change pass  6.Logout'' []; sep;
          choice \<leftarrow> read_int ''  Choice: '';
          if choice = 1 then going_on mod_disputes
          else if choice = 2 then going_on mod_resolve
          else if choice = 3 then going_on mod_feedback
          else if choice = 4 then going_on mod_toggle
          else if choice = 5 then going_on do_change_password
          else if choice = 6 then leaving
          else going_on (line ''  Invalid.'' []) }"

section \<open>Administrator\<close>

definition admin_add_user :: "unit prog" where
  "admin_add_user =
     do { u \<leftarrow> read_line ''  Username:  '' (replicate MAX_USERNAME NUL) MAX_USERNAME;
          p \<leftarrow> read_line ''  Password:  '' (replicate MAX_PASSWORD NUL) MAX_PASSWORD;
          n \<leftarrow> read_line ''  Full name: '' (replicate MAX_NAME NUL) MAX_NAME;
          line ''  0=Bidder 1=Auctioneer 2=Moderator 3=Admin'' [];
          r \<leftarrow> read_int ''  Role: '';
          (_, hdr, buf) \<leftarrow> exchange MSG_ADD_USER_REQ (u @ p @ n @ enc_u32 (word_of_int r)) 216;
          if hdr_status hdr = err_code ERR_OK
          then line ''  User '%s' created (id=%u).''
                 [A_str (cstring (username (dec_User buf))), A_u32 (user_id (dec_User buf))]
          else line ''  Failed - username may exist.'' [] }"

definition admin_list_users :: "unit prog" where
  "admin_list_users =
     do { (_, hdr, buf) \<leftarrow> exchange MSG_LIST_USERS_REQ [] (512 * 216);
          let n = unat (hdr_length hdr) div 216;
          if n = 0 then line ''  No users.'' []
          else do {
            sep;
            line ''  %-5s %-18s %-14s %-12s %-10s %s''
              [A_str ''ID'', A_str ''Username'', A_str ''Name'', A_str ''Role'', A_str ''Status'', A_str ''Balance''];
            sep;
            for_each [0..<n] (\<lambda>i.
              let u = dec_User (drop (216 * i) buf);
                  st = (if acct_status u = ACCOUNT_ACTIVE then ''Active''
                        else if acct_status u = ACCOUNT_INACTIVE then ''Inactive'' else ''Banned'')
              in line ''  %-5u %-18s %-14s %-12s %-10s Rs.%.2f''
                   [A_u32 (user_id u), A_str (cstring (username u)), A_str (cstring (full_name u)),
                    A_str (role_str (role u)), A_str st, A_dbl (wallet_balance u)]);
            sep } }"

definition admin_change_role :: "unit prog" where
  "admin_change_role =
     do { uid \<leftarrow> read_int ''  User ID: '';
          line ''  0=Bidder 1=Auctioneer 2=Moderator 3=Admin'' [];
          r \<leftarrow> read_int ''  New role: '';
          (_, hdr, _) \<leftarrow> exchange MSG_CHANGE_ROLE_REQ (enc_u32 (word_of_int uid) @ enc_u32 (word_of_int r)) 216;
          if hdr_status hdr = err_code ERR_OK then line ''  Role updated.'' []
          else if hdr_status hdr = err_code ERR_PERMISSION then line ''  Cannot demote last admin.'' []
          else line ''  Error.'' [] }"

definition admin_round :: "bool prog" where
  "admin_round =
     do { heading ''  ADMIN - %s'';
          line ''  1.Add user  2.List users  3.Change role'' [];
          line ''  4.Auctions  5.Change pass  6.Logout'' []; sep;
          choice \<leftarrow> read_int ''  Choice: '';
          if choice = 1 then going_on admin_add_user
          else if choice = 2 then going_on admin_list_users
          else if choice = 3 then going_on admin_change_role
          else if choice = 4 then going_on view_auctions
          else if choice = 5 then going_on do_change_password
          else if choice = 6 then leaving
          else going_on (line ''  Invalid.'' []) }"

section \<open>Menus and main\<close>

partial_function (option) menu_loop :: "bool prog \<Rightarrow> client \<Rightarrow> client option" where
  \<comment> \<open>\<^verbatim>\<open>while (logged_in)\<close>; \<open>None\<close> is a menu that never returns\<close>
  "menu_loop body c =
     (if logged_in c
      then case run_state body c of (again, c) \<Rightarrow> if again then menu_loop body c else Some c
      else Some c)"

definition menu :: "Role \<Rightarrow> client \<Rightarrow> client option" where
  \<comment> \<open>the switch on \<^verbatim>\<open>me.role\<close>\<close>
  "menu r c =
     (if r = ROLE_BIDDER then menu_loop bidder_round c
      else if r = ROLE_AUCTIONEER then menu_loop auctioneer_round c
      else if r = ROLE_MODERATOR then menu_loop moderator_round c
      else if r = ROLE_ADMIN then menu_loop admin_round c
      else Some c)"

datatype entry = Leave | Refused | Entered

definition main_round :: "entry prog" where
  \<comment> \<open>the body of the loop of \<^verbatim>\<open>main\<close> up to the menu\<close>
  "main_round =
     do { PRINT (''  1. Login'' @ [newline] @ ''  2. Exit'' @ [newline]) [];
          choice \<leftarrow> read_int ''  Choice: '';
          if choice \<noteq> 1 then ret Leave
          else do { ok \<leftarrow> do_login; ret (if ok then Entered else Refused) } }"

partial_function (option) main_loop :: "client \<Rightarrow> client option" where
  "main_loop c =
     (case run_state main_round c of
        (e, c) \<Rightarrow>
          if e = Leave then Some c
          else if e = Refused then main_loop c
          else Option.bind (menu (role (me c)) c) main_loop)"

definition client_main :: "bool \<Rightarrow> bool \<Rightarrow> client \<Rightarrow> (int \<times> client) option" where
  \<comment> \<open>whether \<^verbatim>\<open>socket\<close> and \<^verbatim>\<open>connect\<close> succeed; the exit code\<close>
  "client_main sock conn c =
     (if \<not> sock \<or> \<not> conn then Some (1, c)
      else
        let c = snd (run_state (do {
              PRINT (newline # ''  ===================================='' @ [newline]) [];
              line ''     Online Auction System v1.0'' [];
              PRINT (''  ===================================='' @ [newline, newline]) [] }) c)
        in case main_loop c of
             None \<Rightarrow> None
           | Some c \<Rightarrow> Some (0, snd (run_state (line ''  Goodbye!'' []) c)))"

end
