(* ===== verification/Dialogue.thy ===== *)
theory Dialogue
  imports Client
begin

text \<open>
  How the client runs, and what it sends. The first sections say what the network and input
  helpers of \<^verbatim>\<open>client.c\<close> do on arriving messages and typed lines. \<open>server_reads\<close> of \<open>Wire\<close> is the
  server's side: the request that \<^verbatim>\<open>handle_client\<close> makes of some bytes. \<open>quiet\<close> and \<open>sends\<close> are a small calculus
  for the programs of the client, one rule per construct, with which the menus are shown to ask
  only for what the server grants to their role.
\<close>

section \<open>Receiving on the client\<close>

lemma fill_loop_recv:
  "case recv_loop to_read got buf s of
     Some (buf', s') \<Rightarrow> fill_loop to_read got buf s = (0, buf', s')
   | None \<Rightarrow> fst (fill_loop to_read got buf s) = -1"
proof (induction to_read got buf s rule: fill_loop.induct)
  case (1 to_read got buf s)
  obtain bs t where r: "sock_read (to_read - got) s = (bs, t)" by (cases "sock_read (to_read - got) s")
  show ?case
  proof (cases "got < to_read \<and> bs \<noteq> []")
    case True
    then have "fill_loop to_read got buf s =
        fill_loop to_read (got + length bs) (take got buf @ bs @ drop (got + length bs) buf) t"
      by (subst fill_loop.simps) (simp add: r Let_def)
    moreover have "recv_loop to_read got buf s =
        recv_loop to_read (got + length bs) (take got buf @ bs @ drop (got + length bs) buf) t"
      using True by (subst recv_loop.simps) (simp add: r Let_def)
    ultimately show ?thesis
      using "1.IH" [OF conjunct1 [OF True] r [symmetric] refl refl] True by (simp split: option.splits)
  next
    case False
    then show ?thesis
      by (simp add: fill_loop.simps [of to_read got buf s] recv_loop.simps [of to_read got buf s] r Let_def)
  qed
qed

lemma run_recv:
  assumes "recv_msg (length buf) buf (inbox c) = Some (h, buf', s')" and "length hdr = 12"
  shows "\<exists>hb. run_state (client_recv_msg hdr buf) c = ((0, hb, buf'), c\<lparr>inbox := s'\<rparr>) \<and> dec_header hb = h"
proof -
  obtain r t where r: "sock_read 12 (inbox c) = (r, t)" by (cases "sock_read 12 (inbox c)")
  with assms(1) have l: "length r = 12" and h: "h = dec_header r"
    by (auto simp: recv_msg_def Let_def split: if_splits option.splits)
  show ?thesis
  proof (cases "hdr_length h = 0")
    case True
    with assms r l h show ?thesis by (simp add: recv_msg_def client_recv_msg_def)
  next
    case False
    define n where "n = (if unat (hdr_length h) < length buf then unat (hdr_length h) else length buf)"
    from False assms(1) r l have "recv_loop n 0 buf t = Some (buf', s')"
      by (simp add: recv_msg_def Let_def h [symmetric] n_def [symmetric] split: option.splits)
    then have "fill_loop n 0 buf t = (0, buf', s')" using fill_loop_recv [of n 0 buf t] by simp
    with False assms(2) r l show ?thesis
      by (simp add: client_recv_msg_def unat_eq_0 Let_def h [symmetric] n_def [symmetric])
  qed
qed

section \<open>Running the client\<close>

lemma run_PRINT [simp]: "run_state (PRINT fmt args) c = ((), c\<lparr>screen := screen c @ [(fmt, args)]\<rparr>)"
  by (simp add: PRINT_def)

lemma run_line [simp]:
  "run_state (line fmt args) c = ((), c\<lparr>screen := screen c @ [(fmt @ [newline], args)]\<rparr>)"
  by (simp add: line_def)

lemma run_uninit [simp]:
  "run_state (uninit n) c = (map (stack c 0) [0..<n], c\<lparr>stack := \<lambda>k. stack c (Suc k)\<rparr>)"
  by (simp add: uninit_def)

definition healthy :: "client \<Rightarrow> bool" where
  \<comment> \<open>every \<^verbatim>\<open>write\<close> takes all its bytes\<close>
  "healthy c \<longleftrightarrow> accepts c = (\<lambda>k n. int n)"

lemma healthy_simps [simp]:
  "healthy (c\<lparr>inbox := i\<rparr>) = healthy c" "healthy (c\<lparr>outbox := x\<rparr>) = healthy c"
  "healthy (c\<lparr>stdin := x\<rparr>) = healthy c" "healthy (c\<lparr>screen := y\<rparr>) = healthy c"
  "healthy (c\<lparr>stack := g\<rparr>) = healthy c" "healthy (c\<lparr>me := u\<rparr>) = healthy c"
  "healthy (c\<lparr>logged_in := l\<rparr>) = healthy c"
  by (simp_all add: healthy_def)

lemma run_send:
  assumes "healthy c"
  shows "run_state (client_send_msg t pl) c = (0, c\<lparr>outbox := outbox c @ request_bytes t pl\<rparr>)"
proof -
  have "c\<lparr>outbox := x, accepts := \<lambda>k n. int n\<rparr> = c\<lparr>outbox := x\<rparr>" for x
    using assms by (simp add: healthy_def)
  then show ?thesis
    using assms by (simp add: client_send_msg_def sock_write_def request_bytes_def healthy_def Let_def)
qed

lemma run_exchange:
  assumes "healthy c" and "recv_msg n (map (stack c 1) [0..<n]) (inbox c) = Some (h, buf, s)"
  shows "run_state (exchange t pl n) c =
    ((0, h, buf), c\<lparr>outbox := outbox c @ request_bytes t pl, inbox := s, stack := \<lambda>k. stack c (k + 2)\<rparr>)"
proof -
  let ?c = "c\<lparr>outbox := outbox c @ request_bytes t pl, stack := \<lambda>k. stack c (Suc (Suc k))\<rparr>"
  let ?hdr = "map (stack c 0) [0..<12]" and ?buf = "map (stack c 1) [0..<n]"
  have "recv_msg (length ?buf) ?buf (inbox ?c) = Some (h, buf, s)" using assms(2) by simp
  from run_recv [OF this, of ?hdr] obtain hb where
    "run_state (client_recv_msg ?hdr ?buf) ?c = ((0, hb, buf), ?c\<lparr>inbox := s\<rparr>)" "dec_header hb = h" by auto
  then show ?thesis by (simp add: exchange_def run_send [OF assms(1)])
qed


text \<open>Typed lines.\<close>

definition plain :: "string \<Rightarrow> bool" where
  "plain s \<longleftrightarrow> newline \<notin> set s \<and> NUL \<notin> set s"

lemma run_read_line:
  assumes "stdin c = s @ newline # rest" and "plain s" and "length s + 1 < n" and "length buf = n"
  shows "run_state (read_line p buf n) c =
    (s @ NUL # NUL # drop (length s + 2) buf, c\<lparr>stdin := rest, screen := screen c @ [(''%s'', [A_str p])]\<rparr>)"
  using assms fgets_line(1) [of s n buf rest] fgets_line(2) [of s n rest] strcspn_line [of s]
  by (simp add: read_line_def plain_def Let_def)

lemma run_read_zeros:
  assumes "stdin c = s @ newline # rest" and "plain s" and "length s + 1 < n"
  shows "run_state (read_line p (replicate n NUL) n) c =
    (c_array n s, c\<lparr>stdin := rest, screen := screen c @ [(''%s'', [A_str p])]\<rparr>)"
proof -
  have "s @ NUL # NUL # drop (length s + 2) (replicate n NUL) = s @ replicate (Suc (Suc (n - (length s + 2)))) NUL"
    by simp
  also have "Suc (Suc (n - (length s + 2))) = n - length s" using assms(3) by simp
  finally have "s @ NUL # NUL # drop (length s + 2) (replicate n NUL) = c_array n s"
    using assms(3) by (simp add: c_array_def)
  with run_read_line [where buf = "replicate n NUL" and p = p, OF assms] show ?thesis by simp
qed

lemma length_decimal: "n < 10 ^ Suc d \<Longrightarrow> length (decimal n) \<le> Suc d"
proof (induction d arbitrary: n)
  case 0
  then show ?case by (subst decimal.simps) simp
next
  case (Suc d)
  then have "n div 10 < 10 ^ Suc d" by simp
  with Suc.IH show ?case by (subst decimal.simps) simp
qed

lemma plain_decimal [simp]: "plain (decimal n)"
  using decimal_digits [of n] digit_char_facts(4,5) by (auto simp: plain_def list_all_iff)

lemma run_read_int:
  assumes "stdin c = decimal i @ newline # rest" and "i < 2 ^ 31"
  shows "run_state (read_int p) c =
    (int i, c\<lparr>stdin := rest, screen := screen c @ [(''%s'', [A_str p])], stack := \<lambda>k. stack c (Suc k)\<rparr>)"
proof -
  have "length (decimal i) \<le> 10" using length_decimal [of i 9] assms(2) by simp
  then show ?thesis
    using run_read_line [where s = "decimal i" and n = 32 and buf = "map (stack c 0) [0..<32]" and rest = rest
        and c = "c\<lparr>stack := \<lambda>k. stack c (Suc k)\<rparr>" and p = p] assms
    by (simp add: read_int_def atoi_decimal)
qed

lemma run_read_double:
  assumes "stdin c = s @ newline # rest" and "plain s" and "length s < 63"
  shows "run_state (read_double p) c =
    (atof (s @ [NUL]), c\<lparr>stdin := rest, screen := screen c @ [(''%s'', [A_str p])], stack := \<lambda>k. stack c (Suc k)\<rparr>)"
proof -
  have "cstring (s @ NUL # t) = cstring (s @ [NUL])" for t
    by (induction s) auto
  note cs = this
  have "atof (s @ NUL # t) = atof (s @ [NUL])" for t by (simp add: atof_def cs [of t])
  then show ?thesis
    using run_read_line [where s = s and n = 64 and buf = "map (stack c 0) [0..<64]" and rest = rest
        and c = "c\<lparr>stack := \<lambda>k. stack c (Suc k)\<rparr>" and p = p] assms
    by (simp add: read_double_def)
qed

lemma run_read_rupees:
  assumes "stdin c = decimal m @ newline # rest" and "m < 2 ^ 53"
  shows "run_state (read_double p) c =
    (rs (int m), c\<lparr>stdin := rest, screen := screen c @ [(''%s'', [A_str p])], stack := \<lambda>k. stack c (Suc k)\<rparr>)"
proof -
  have "length (decimal m) \<le> 16" using length_decimal [of m 15] assms(2) by simp
  then show ?thesis
    using run_read_double [OF assms(1), of p] atof_decimal [OF assms(2), of "[]"] by simp
qed

section \<open>What the client sends\<close>

definition quiet :: "('a \<Rightarrow> bool) \<Rightarrow> 'a prog \<Rightarrow> bool" where
  \<comment> \<open>nothing is sent, the result satisfies \<open>Q\<close>\<close>
  "quiet Q p \<longleftrightarrow>
     (\<forall>c. healthy c \<longrightarrow> (case run_state p c of (x, c') \<Rightarrow> Q x \<and> healthy c' \<and> outbox c' = outbox c))"

definition sends :: "(request \<Rightarrow> bool) \<Rightarrow> 'a prog \<Rightarrow> bool" where
  \<comment> \<open>at most one message is sent, which the server takes for a request that satisfies \<open>P\<close>\<close>
  "sends P p \<longleftrightarrow>
     (\<forall>c. healthy c \<longrightarrow> (case run_state p c of (_, c') \<Rightarrow> healthy c' \<and>
        (outbox c' = outbox c \<or>
         (\<exists>bs rq. outbox c' = outbox c @ bs \<and> server_reads bs rq \<and> P rq))))"

lemma quietD:
  assumes "quiet Q p" and "healthy c" and "run_state p c = (x, c')"
  shows "Q x" and "healthy c'" and "outbox c' = outbox c"
  using assms by (auto simp: quiet_def)

lemma sendsD:
  assumes "sends P p" and "healthy c" and "run_state p c = (x, c')"
  shows "healthy c'"
    and "outbox c' = outbox c \<or> (\<exists>bs rq. outbox c' = outbox c @ bs \<and> server_reads bs rq \<and> P rq)"
  using assms by (auto simp: sends_def)

lemma quietI:
  assumes "\<And>c x c'. healthy c \<Longrightarrow> run_state p c = (x, c') \<Longrightarrow> Q x \<and> healthy c' \<and> outbox c' = outbox c"
  shows "quiet Q p"
  using assms by (auto simp: quiet_def)

lemma sendsI:
  assumes "\<And>c x c'. healthy c \<Longrightarrow> run_state p c = (x, c') \<Longrightarrow> healthy c' \<and>
    (outbox c' = outbox c \<or> (\<exists>bs rq. outbox c' = outbox c @ bs \<and> server_reads bs rq \<and> P rq))"
  shows "sends P p"
  using assms by (auto simp: sends_def)

lemma quiet_bind:
  assumes "quiet Q p" and "\<And>x. Q x \<Longrightarrow> quiet R (f x)"
  shows "quiet R (State_Monad.bind p f)"
proof (rule quietI)
  fix c y c''
  assume h: "healthy c" and run: "run_state (State_Monad.bind p f) c = (y, c'')"
  obtain x c' where 1: "run_state p c = (x, c')" by (cases "run_state p c")
  note a = quietD [OF assms(1) h 1]
  have 2: "run_state (f x) c' = (y, c'')" using run by (simp add: 1)
  from quietD [OF assms(2) [OF a(1)] a(2) 2] a(3) show "R y \<and> healthy c'' \<and> outbox c'' = outbox c" by simp
qed

lemma quiet_ret: "Q x \<Longrightarrow> quiet Q (ret x)"
  by (simp add: quiet_def)

lemma sends_quiet: "quiet Q p \<Longrightarrow> sends P p"
  by (rule sendsI) (auto dest: quietD)

lemma sends_after:
  assumes "quiet Q p" and "\<And>x. Q x \<Longrightarrow> sends P (f x)"
  shows "sends P (State_Monad.bind p f)"
proof (rule sendsI)
  fix c y c''
  assume h: "healthy c" and run: "run_state (State_Monad.bind p f) c = (y, c'')"
  obtain x c' where 1: "run_state p c = (x, c')" by (cases "run_state p c")
  note a = quietD [OF assms(1) h 1]
  have 2: "run_state (f x) c' = (y, c'')" using run by (simp add: 1)
  from sendsD [OF assms(2) [OF a(1)] a(2) 2] a(3)
  show "healthy c'' \<and> (outbox c'' = outbox c \<or>
    (\<exists>bs rq. outbox c'' = outbox c @ bs \<and> server_reads bs rq \<and> P rq))" by simp
qed

lemma sends_before:
  assumes "sends P p" and "\<And>x. quiet (\<lambda>_. True) (f x)"
  shows "sends P (State_Monad.bind p f)"
proof (rule sendsI)
  fix c y c''
  assume h: "healthy c" and run: "run_state (State_Monad.bind p f) c = (y, c'')"
  obtain x c' where 1: "run_state p c = (x, c')" by (cases "run_state p c")
  note a = sendsD [OF assms(1) h 1]
  have 2: "run_state (f x) c' = (y, c'')" using run by (simp add: 1)
  from quietD [OF assms(2) a(1) 2] a(2)
  show "healthy c'' \<and> (outbox c'' = outbox c \<or>
    (\<exists>bs rq. outbox c'' = outbox c @ bs \<and> server_reads bs rq \<and> P rq))" by simp
qed

lemma sends_if: "(b \<Longrightarrow> sends P p) \<Longrightarrow> (\<not> b \<Longrightarrow> sends P q) \<Longrightarrow> sends P (if b then p else q)"
  by simp

lemma quiet_if: "(b \<Longrightarrow> quiet Q p) \<Longrightarrow> (\<not> b \<Longrightarrow> quiet Q q) \<Longrightarrow> quiet Q (if b then p else q)"
  by simp

lemma quiet_PRINT: "quiet (\<lambda>_. True) (PRINT fmt args)"
  by (simp add: quiet_def)

lemma quiet_line: "quiet (\<lambda>_. True) (line fmt args)"
  by (simp add: quiet_def)

lemma quiet_sep: "quiet (\<lambda>_. True) sep"
  by (simp add: quiet_def sep_def)

lemma quiet_uninit: "quiet (\<lambda>b. length b = n) (uninit n)"
  by (simp add: quiet_def)

lemma quiet_get: "quiet (\<lambda>_. True) State_Monad.get"
  by (simp add: quiet_def)

lemma length_fgets: "length out = n \<Longrightarrow> 0 < n \<Longrightarrow> length (fgets out n inp) = n"
  by (simp add: fgets_def Let_def)

lemma quiet_read_line:
  assumes "length buf = n" and "0 < n"
  shows "quiet (\<lambda>b. length b = n) (read_line p buf n)"
  using assms by (auto simp: quiet_def read_line_def Let_def length_fgets)

lemma quiet_zeros: "0 < n \<Longrightarrow> quiet (\<lambda>b. length b = n) (read_line p (replicate n NUL) n)"
  by (rule quiet_read_line) simp_all

lemma quiet_read_int: "quiet (\<lambda>_. True) (read_int p)"
  unfolding read_int_def
  by (intro quiet_bind [OF quiet_uninit] quiet_bind [OF quiet_read_line] quiet_ret) simp_all

lemma quiet_read_double: "quiet dbl_ok (read_double p)"
  unfolding read_double_def
  by (intro quiet_bind [OF quiet_uninit] quiet_bind [OF quiet_read_line] quiet_ret) simp_all

lemma quiet_for_each: "(\<And>x. quiet (\<lambda>_. True) (f x)) \<Longrightarrow> quiet (\<lambda>_. True) (for_each xs f)"
  by (induction xs) (auto intro: quiet_ret quiet_bind)

lemma recv_frame:
  "run_state (client_recv_msg hdr buf) c = (x, c') \<Longrightarrow> \<exists>i. c' = c\<lparr>inbox := i\<rparr>"
  by (auto simp: client_recv_msg_def Let_def split: prod.splits if_splits)

lemma sends_exchange:
  assumes "length pl \<le> 4096"
  shows "sends (\<lambda>rq. \<exists>buf. rq = dec_request (msg_code t) buf) (exchange t pl n)"
proof -
  have rest: "quiet (\<lambda>_. True) (client_recv_msg hdr buf)" for hdr buf
    by (auto simp: quiet_def dest: recv_frame split: prod.split)
  have "sends (\<lambda>rq. \<exists>buf. rq = dec_request (msg_code t) buf) (client_send_msg t pl)"
    using server_reads_request [OF assms, of t] by (auto simp: sends_def run_send healthy_def)
  then show ?thesis
    unfolding exchange_def
    by (rule sends_before) (intro quiet_bind [OF quiet_uninit] quiet_bind [OF rest], auto intro: quiet_ret split: prod.split)
qed

lemma sends_weaken: "sends P p \<Longrightarrow> (\<And>rq. P rq \<Longrightarrow> R rq) \<Longrightarrow> sends R p"
  by (rule sendsI) (meson sendsD)

lemma sends_request:
  assumes "length pl \<le> 4096" and "\<And>buf. P (dec_request (msg_code t) buf)"
    and "\<And>r hdr buf. quiet (\<lambda>_. True) (f (r, hdr, buf))"
  shows "sends P (State_Monad.bind (exchange t pl n) f)"
  using sends_exchange [OF assms(1), of t n] assms(2,3)
  by (intro sends_before) (auto intro: sends_weaken)

lemmas quiet_intros = quiet_if quiet_for_each quiet_PRINT quiet_line quiet_sep quiet_bind [OF quiet_get]
  quiet_bind [OF quiet_line] quiet_bind [OF quiet_sep] quiet_ret quiet_bind [OF quiet_for_each]

lemmas sends_intros = sends_if sends_request sends_after [OF quiet_read_int] sends_after [OF quiet_read_double]
  sends_after [OF quiet_zeros] sends_after [OF quiet_line] sends_after [OF quiet_uninit] sends_quiet [OF quiet_line]

fun allowed :: "Role \<Rightarrow> request \<Rightarrow> bool" where
  \<comment> \<open>the role gates of the server's switch\<close>
  "allowed r (RQ_FILE_DISPUTE q) = (r = ROLE_BIDDER)"
| "allowed r (RQ_PLACE_BID q) = (r = ROLE_BIDDER)"
| "allowed r (RQ_CREATE_AUCTION q) = (r = ROLE_AUCTIONEER \<or> r = ROLE_ADMIN)"
| "allowed r (RQ_CLOSE_AUCTION q) = (r = ROLE_AUCTIONEER \<or> r = ROLE_ADMIN)"
| "allowed r RQ_VIEW_DISPUTES = (r \<ge> ROLE_MODERATOR)"
| "allowed r (RQ_RESOLVE_DISPUTE q) = (r \<ge> ROLE_MODERATOR)"
| "allowed r RQ_VIEW_FEEDBACK = (r \<ge> ROLE_MODERATOR)"
| "allowed r (RQ_TOGGLE_ACCOUNT q) = (r \<ge> ROLE_MODERATOR)"
| "allowed r (RQ_ADD_USER q) = (r = ROLE_ADMIN)"
| "allowed r RQ_LIST_USERS = (r = ROLE_ADMIN)"
| "allowed r (RQ_CHANGE_ROLE q) = (r = ROLE_ADMIN)"
| "allowed r RQ_OTHER = False"
| "allowed r _ = True"

lemma allowed_dec [simp]:
  "allowed r (dec_request (msg_code MSG_PLACE_BID_REQ) buf) = (r = ROLE_BIDDER)"
  "allowed r (dec_request (msg_code MSG_FILE_DISPUTE_REQ) buf) = (r = ROLE_BIDDER)"
  "allowed r (dec_request (msg_code MSG_CREATE_AUCTION_REQ) buf) = (r = ROLE_AUCTIONEER \<or> r = ROLE_ADMIN)"
  "allowed r (dec_request (msg_code MSG_CLOSE_AUCTION_REQ) buf) = (r = ROLE_AUCTIONEER \<or> r = ROLE_ADMIN)"
  "allowed r (dec_request (msg_code MSG_VIEW_DISPUTES_REQ) buf) = (r \<ge> ROLE_MODERATOR)"
  "allowed r (dec_request (msg_code MSG_RESOLVE_DISPUTE_REQ) buf) = (r \<ge> ROLE_MODERATOR)"
  "allowed r (dec_request (msg_code MSG_VIEW_FEEDBACK_REQ) buf) = (r \<ge> ROLE_MODERATOR)"
  "allowed r (dec_request (msg_code MSG_TOGGLE_ACCOUNT_REQ) buf) = (r \<ge> ROLE_MODERATOR)"
  "allowed r (dec_request (msg_code MSG_ADD_USER_REQ) buf) = (r = ROLE_ADMIN)"
  "allowed r (dec_request (msg_code MSG_LIST_USERS_REQ) buf) = (r = ROLE_ADMIN)"
  "allowed r (dec_request (msg_code MSG_CHANGE_ROLE_REQ) buf) = (r = ROLE_ADMIN)"
  "allowed r (dec_request (msg_code MSG_LOGOUT_REQ) buf)"
  "allowed r (dec_request (msg_code MSG_CHANGE_PASS_REQ) buf)"
  "allowed r (dec_request (msg_code MSG_VIEW_AUCTIONS_REQ) buf)"
  "allowed r (dec_request (msg_code MSG_VIEW_BALANCE_REQ) buf)"
  "allowed r (dec_request (msg_code MSG_DEPOSIT_REQ) buf)"
  "allowed r (dec_request (msg_code MSG_VIEW_MY_BIDS_REQ) buf)"
  "allowed r (dec_request (msg_code MSG_SUBMIT_FEEDBACK_REQ) buf)"
  by (simp_all add: dec_request_def del: msg_code.simps)

lemma not_allowed_denied:
  "\<not> allowed (role (current_user c)) rq \<Longrightarrow> rq \<noteq> RQ_OTHER \<Longrightarrow> dispatch popen rq c w = (c, denied c w)"
  by (cases rq) simp_all

lemma bidder_sends:
  "sends (allowed ROLE_BIDDER) bidder_place_bid" "sends (allowed ROLE_BIDDER) bidder_balance"
  "sends (allowed ROLE_BIDDER) bidder_deposit" "sends (allowed ROLE_BIDDER) bidder_my_bids"
  "sends (allowed ROLE_BIDDER) bidder_feedback" "sends (allowed ROLE_BIDDER) bidder_file_dispute"
  unfolding bidder_place_bid_def bidder_balance_def bidder_deposit_def bidder_my_bids_def bidder_feedback_def
    bidder_file_dispute_def Let_def prod.case
  by (intro sends_intros; auto intro!: quiet_intros simp del: msg_code.simps simp: u32_codec.enc_length dbl_codec.enc_length MAX_FEEDBACK_def MAX_DESC_def)+

lemma auctioneer_sends:
  "sends (allowed ROLE_AUCTIONEER) auctioneer_create" "sends (allowed ROLE_AUCTIONEER) auctioneer_close"
  unfolding auctioneer_create_def auctioneer_close_def Let_def prod.case
  by (intro sends_intros; auto intro!: quiet_intros simp del: msg_code.simps
      simp: u32_codec.enc_length dbl_codec.enc_length MAX_ITEM_NAME_def MAX_DESC_def pad_def)+

lemma moderator_sends:
  "sends (allowed ROLE_MODERATOR) mod_disputes" "sends (allowed ROLE_MODERATOR) mod_resolve"
  "sends (allowed ROLE_MODERATOR) mod_feedback" "sends (allowed ROLE_MODERATOR) mod_toggle"
  unfolding mod_disputes_def mod_resolve_def mod_feedback_def mod_toggle_def Let_def prod.case
  by (intro sends_intros; auto intro!: quiet_intros simp del: msg_code.simps
      simp: u32_codec.enc_length MAX_DESC_def)+

lemma admin_sends:
  "sends (allowed ROLE_ADMIN) admin_add_user" "sends (allowed ROLE_ADMIN) admin_list_users"
  "sends (allowed ROLE_ADMIN) admin_change_role"
  unfolding admin_add_user_def admin_list_users_def admin_change_role_def Let_def prod.case
  by (intro sends_intros; auto intro!: quiet_intros simp del: msg_code.simps
      simp: u32_codec.enc_length MAX_USERNAME_def MAX_PASSWORD_def MAX_NAME_def)+

lemma common_sends:
  "sends (allowed r) view_auctions" "sends (allowed r) do_change_password" "sends (allowed r) do_logout"
proof -
  show "sends (allowed r) view_auctions"
    unfolding view_auctions_def print_auction_def Let_def
    by (intro sends_intros; auto intro!: quiet_intros simp del: msg_code.simps)
  have confirm: "length x = MAX_PASSWORD \<Longrightarrow> quiet (\<lambda>b. length b = MAX_PASSWORD) (read_line p x MAX_PASSWORD)" for p x
    by (rule quiet_read_line) (simp_all add: MAX_PASSWORD_def)
  show "sends (allowed r) do_change_password"
    unfolding do_change_password_def
    by (intro sends_intros sends_after [OF confirm]; auto intro!: quiet_intros simp del: msg_code.simps simp: MAX_PASSWORD_def)
  show "sends (allowed r) do_logout"
    unfolding do_logout_def
    by (intro sends_intros) (auto intro!: sends_request simp: quiet_def simp del: msg_code.simps)
qed

lemma sends_going_on: "sends P p \<Longrightarrow> sends P (going_on p)"
  unfolding going_on_def by (intro sends_before quiet_ret) simp_all

lemma sends_leaving: "sends (allowed r) leaving"
  unfolding leaving_def by (intro sends_before common_sends quiet_ret) simp_all

lemma quiet_heading: "quiet (\<lambda>_. True) (heading title)"
  unfolding heading_def by (intro quiet_intros)

lemmas round_intros = sends_after [OF quiet_heading] sends_after [OF quiet_line] sends_after [OF quiet_sep]
  sends_after [OF quiet_read_int] sends_if sends_going_on sends_leaving sends_quiet [OF quiet_line]
  bidder_sends auctioneer_sends moderator_sends admin_sends common_sends

section \<open>Properties\<close>


definition fresh_client :: "char list \<Rightarrow> char list list \<Rightarrow> client" where
  \<comment> \<open>a client whose user will type \<open>s\<close> and to which \<open>i\<close> will be delivered\<close>
  "fresh_client s i =
     \<lparr>inbox = i, outbox = [], accepts = (\<lambda>k n. int n), stdin = s, screen = [], stack = (\<lambda>k j. NUL),
      me = zero_User, logged_in = True\<rparr>"

lemma fresh_client_simps [simp]:
  "inbox (fresh_client s i) = i" "outbox (fresh_client s i) = []" "stdin (fresh_client s i) = s"
  "logged_in (fresh_client s i)" "healthy (fresh_client s i)" "stack (fresh_client s i) = (\<lambda>k j. NUL)"
  by (simp_all add: fresh_client_def healthy_def)

lemma exchange_outbox:
  "healthy c \<Longrightarrow> outbox (snd (run_state (exchange t pl n) c)) = outbox c @ request_bytes t pl"
  by (auto simp: exchange_def run_send dest!: recv_frame split: prod.split)


end
