(* ===== verification/Client_Server.thy ===== *)
theory Client_Server
  imports Dialogue
begin

text \<open>
  Client and server together. The answer to a request is the first message that arrives after it,
  whatever that message is. Where it is the server's answer, what the user is told about a bid is
  what happened to it; a notification in front of it is taken for the answer, which a seller who
  closes an auction always experiences.
\<close>

section \<open>Exchanges\<close>

lemma header_of_message: "header_ok (message_header m)"
  by (cases "msg_status m") (simp_all add: message_header_def header_ok_def fits_def)

lemma recv_message:
  assumes "arrives (message_bytes m) cs" and "length (payload_bytes (msg_payload m)) \<le> length buf"
    and "length (payload_bytes (msg_payload m)) < 2 ^ 32"
  shows "recv_msg (length buf) buf (cs @ later) =
    Some (message_header m, payload_bytes (msg_payload m) @ drop (length (payload_bytes (msg_payload m))) buf, later)"
  using assms
  by (intro recv_arrives header_of_message)
    (simp_all add: message_bytes_def message_header_def unat_of_nat take_bit_nat_eq_self)

lemma exchange_message:
  assumes "healthy c" and "inbox c = cs @ later" and "arrives (message_bytes m) cs"
    and "length (payload_bytes (msg_payload m)) \<le> n" and "n < 2 ^ 32"
  shows "\<exists>rest. run_state (exchange t pl n) c =
    ((0, message_header m, payload_bytes (msg_payload m) @ rest),
     c\<lparr>outbox := outbox c @ request_bytes t pl, inbox := later, stack := \<lambda>k. stack c (k + 2)\<rparr>)"
  using run_exchange [OF assms(1), of n _ _ later t pl] recv_message [OF assms(3), of "map (stack c 1) [0..<n]" later]
    assms(2,4,5) by (intro exI) simp

lemma exchange_first:
  assumes "healthy c" and "inbox c = cs @ later" and "arrives (message_bytes m) cs"
    and "length (payload_bytes (msg_payload m)) \<le> n" and "n < 2 ^ 32"
  shows "fst (fst (run_state (exchange t pl n) c)) = 0"
    and "fst (snd (fst (run_state (exchange t pl n) c))) = message_header m"
    and "\<exists>rest. snd (snd (fst (run_state (exchange t pl n) c))) = payload_bytes (msg_payload m) @ rest"
    and "inbox (snd (run_state (exchange t pl n) c)) = later" and "healthy (snd (run_state (exchange t pl n) c))"
  using exchange_message [OF assms, of t pl] assms(1) by auto

text \<open>The input helpers leave the network alone.\<close>

lemma read_line_frame [simp]:
  "inbox (snd (run_state (read_line p b n) c)) = inbox c"
  "accepts (snd (run_state (read_line p b n) c)) = accepts c"
  "outbox (snd (run_state (read_line p b n) c)) = outbox c"
  "stack (snd (run_state (read_line p b n) c)) = stack c"
  "logged_in (snd (run_state (read_line p b n) c)) = logged_in c"
  "me (snd (run_state (read_line p b n) c)) = me c"
  by (simp_all add: read_line_def Let_def)

lemma read_number_frame [simp]:
  "inbox (snd (run_state (read_int p) c)) = inbox c" "inbox (snd (run_state (read_double p) c)) = inbox c"
  "accepts (snd (run_state (read_int p) c)) = accepts c" "accepts (snd (run_state (read_double p) c)) = accepts c"
  "outbox (snd (run_state (read_int p) c)) = outbox c" "outbox (snd (run_state (read_double p) c)) = outbox c"
  "stack (snd (run_state (read_int p) c)) = (\<lambda>k. stack c (Suc k))"
  "stack (snd (run_state (read_double p) c)) = (\<lambda>k. stack c (Suc k))"
  "logged_in (snd (run_state (read_int p) c)) = logged_in c"
  "logged_in (snd (run_state (read_double p) c)) = logged_in c"
  by (simp_all add: read_int_def read_double_def case_prod_beta)

lemma healthy_frame [simp]:
  "healthy (snd (run_state (read_line p b n) c)) = healthy c"
  "healthy (snd (run_state (read_int p) c)) = healthy c"
  "healthy (snd (run_state (read_double p) c)) = healthy c"
  by (simp_all add: healthy_def)

section \<open>The bid\<close>

definition bid_report :: "int \<Rightarrow> string \<times> arg list" where
  \<comment> \<open>what \<^verbatim>\<open>bidder_place_bid\<close> prints on a status\<close>
  "bid_report st =
     (if st = err_code ERR_OK then (''  Bid placed! You are the highest bidder.'' @ [newline], [])
      else if st = err_code ERR_BID_TOO_LOW
      then (''  Too low - must beat the current highest bid.'' @ [newline], [])
      else if st = err_code ERR_INSUFFICIENT then (''  Insufficient wallet balance.'' @ [newline], [])
      else if st = err_code ERR_AUCTION_CLOSED then (''  Auction is not open.'' @ [newline], [])
      else (''  Error (%d).'' @ [newline], [A_int st]))"

lemma bid_report_ok: "bid_report (err_code e) = bid_report (err_code ERR_OK) \<longleftrightarrow> e = ERR_OK"
  by (cases e) (simp_all add: bid_report_def)

lemma run_place_bid:
  "run_state bidder_place_bid c =
    (let (padding, c) = run_state (uninit 4) c;
         (aid, c) = run_state (read_int ''  Auction ID: '') c;
         (amount, c) = run_state (read_double ''  Your bid (Rs.): '') c;
         ((r, hdr, buf), c) = run_state (exchange MSG_PLACE_BID_REQ (enc_u32 (word_of_int aid) @ padding @ enc_dbl amount) 40) c
     in ((), c\<lparr>screen := screen c @ [bid_report (hdr_status hdr)]\<rparr>))"
  by (simp add: bidder_place_bid_def case_prod_beta Let_def bid_report_def)

lemma place_bid_prints:
  assumes "healthy c" and "inbox c = cs @ later" and "arrives (message_bytes m) cs"
    and "length (payload_bytes (msg_payload m)) \<le> 40"
  shows "last (screen (snd (run_state bidder_place_bid c))) = bid_report (err_code (msg_status m))"
    and "inbox (snd (run_state bidder_place_bid c)) = later"
proof -
  define c1 where "c1 = snd (run_state (read_double ''  Your bid (Rs.): '')
     (snd (run_state (read_int ''  Auction ID: '') (snd (run_state (uninit 4) c)))))"
  have c1: "healthy c1" "inbox c1 = cs @ later" using assms(1,2) by (simp_all add: c1_def)
  note first = exchange_first [OF c1 assms(3,4)]
  show "last (screen (snd (run_state bidder_place_bid c))) = bid_report (err_code (msg_status m))"
    using first(2) by (simp add: run_place_bid case_prod_beta Let_def c1_def message_header_def)
  show "inbox (snd (run_state bidder_place_bid c)) = later"
    using first(4) by (simp add: run_place_bid case_prod_beta Let_def c1_def)
qed


lemma place_bid_sends:
  assumes "healthy c" and "stdin c = decimal i @ newline # decimal k @ newline # typed"
    and "i < 2 ^ 31" and "k < 2 ^ 53"
  shows "\<exists>bs. outbox (snd (run_state bidder_place_bid c)) = outbox c @ bs \<and>
    server_reads bs (RQ_PLACE_BID \<lparr>bid_req_auction_id = word_of_nat i, bid_req_amount = rs (int k)\<rparr>)"
proof -
  let ?pl = "enc_u32 (word_of_nat i) @ map (stack c 0) [0..<4] @ enc_dbl (rs (int k))"
  have "dbl_ok (rs (int k))" using assms(4) by (intro dbl_ok_rs) simp
  then have "dec_request (msg_code MSG_PLACE_BID_REQ) (c_array 4096 ?pl) =
      RQ_PLACE_BID \<lparr>bid_req_auction_id = word_of_nat i, bid_req_amount = rs (int k)\<rparr>"
    by (simp add: dec_request_def dec_PlaceBidPayload_def c_array_def codec_simps)
  moreover have "length ?pl \<le> 4096" by (simp add: codec_simps \<open>dbl_ok (rs (int k))\<close>)
  ultimately have "server_reads (request_bytes MSG_PLACE_BID_REQ ?pl)
      (RQ_PLACE_BID \<lparr>bid_req_auction_id = word_of_nat i, bid_req_amount = rs (int k)\<rparr>)"
    using server_reads_request [of ?pl MSG_PLACE_BID_REQ] by simp
  moreover have "outbox (snd (run_state bidder_place_bid c)) = outbox c @ request_bytes MSG_PLACE_BID_REQ ?pl"
    using assms
    by (simp add: run_place_bid run_read_int [where i = i] run_read_rupees [where m = k] case_prod_beta Let_def
        exchange_outbox)
  ultimately show ?thesis by blast
qed

text \<open>The server's first message on a bid.\<close>

lemma accepted_first:
  assumes "bid_accepts req u w a"
  shows "\<exists>ms. sent (handle_place_bid fd req u w) = sent w @
    (fd, \<lparr>msg_type = MSG_PLACE_BID_RESP, msg_status = ERR_OK, msg_payload = P_Bid (new_bid req u w)\<rparr>) # ms"
  by (simp add: place_bid_accepted [OF assms] place_bid_respond_def Let_def notify_outbid_def
      push_notification_def send_msg_def log_txn_def)

lemma first_answer:
  assumes "sent (handle_place_bid fd req u w) = sent w @ (fd', m) # ms"
  shows "msg_status m = ERR_OK \<longleftrightarrow> (\<exists>a. bid_accepts req u w a)"
    and "length (payload_bytes (msg_payload m)) \<le> 40 \<or> \<not> (dbl_ok (bid_req_amount req) \<and> fits 8 (now w))"
proof -
  have "(msg_status m = ERR_OK \<longleftrightarrow> (\<exists>a. bid_accepts req u w a)) \<and>
    (length (payload_bytes (msg_payload m)) \<le> 40 \<or> \<not> (dbl_ok (bid_req_amount req) \<and> fits 8 (now w)))"
  proof (cases "\<exists>a. bid_accepts req u w a")
    case True
    then obtain a where a: "bid_accepts req u w a" ..
    have "m = \<lparr>msg_type = MSG_PLACE_BID_RESP, msg_status = ERR_OK, msg_payload = P_Bid (new_bid req u w)\<rparr>"
      using assms accepted_first [OF a, of fd] by auto
    moreover have "length (enc_Bid (new_bid req u w)) = 40"
      if "dbl_ok (bid_req_amount req)" "fits 8 (now w)"
      using that by (intro Bid_codec.enc_length) (simp add: bid_ok_def new_bid_def)
    ultimately show ?thesis using True by auto
  next
    case False
    from place_bid_rejected [OF False, of fd] assms show ?thesis using False by (auto simp: send_msg_def)
  qed
  then show "msg_status m = ERR_OK \<longleftrightarrow> (\<exists>a. bid_accepts req u w a)"
    and "length (payload_bytes (msg_payload m)) \<le> 40 \<or> \<not> (dbl_ok (bid_req_amount req) \<and> fits 8 (now w))"
    by blast+
qed

section \<open>Properties\<close>

text \<open>C21: A bid from the keyboard to the data files and back: the number of an auction and a whole amount,
  typed by a bidder, reach the server as exactly this bid, and when the server's answer is the
  next message to arrive, the client says that the bid is placed if and only if the server
  accepted it; then the record of the auction has the bidder as the leader at the typed amount.\<close>

theorem typed_bid_is_placed:
  assumes "healthy c" and "stdin c = decimal i @ newline # decimal k @ newline # typed"
    and "i < 2 ^ 31" and "k < 2 ^ 53" and "rq = RQ_PLACE_BID \<lparr>bid_req_auction_id = word_of_nat i, bid_req_amount = rs (int k)\<rparr>"
    and "authenticated cn" and "role (current_user cn) = ROLE_BIDDER" and "fits 8 (now w)"
    and "numbered auction_id (auctions w)" and "writable w FILE_AUCTIONS"
    and "w' = snd (serve_request popen rq cn w)" and "sent w' = sent w @ (conn_fd cn, m) # ms"
    and "inbox c = cs @ later" and "arrives (message_bytes m) cs" and "c' = snd (run_state bidder_place_bid c)"
  shows "(\<exists>bs. outbox c' = outbox c @ bs \<and> server_reads bs rq) \<and>
    (last (screen c') = (''  Bid placed! You are the highest bidder.'' @ [newline], []) \<longleftrightarrow>
       (\<exists>a. bid_accepts \<lparr>bid_req_auction_id = word_of_nat i, bid_req_amount = rs (int k)\<rparr> (current_user cn) w a)) \<and>
    (last (screen c') = (''  Bid placed! You are the highest bidder.'' @ [newline], []) \<longrightarrow>
       (\<exists>a. read_auction (word_of_nat i) w' = Some a \<and> highest_bidder_id a = user_id (current_user cn) \<and>
         current_bid a = rs (int k)))"
proof -
  let ?req = "\<lparr>bid_req_auction_id = word_of_nat i, bid_req_amount = rs (int k)\<rparr>" and ?u = "current_user cn"
  have w': "w' = handle_place_bid (conn_fd cn) ?req ?u w"
    using assms(5-7,11) by (simp add: serve_request_def)
  have ok: "dbl_ok (rs (int k))" using assms(4) by (intro dbl_ok_rs) simp
  note ans = first_answer [OF assms(12) [unfolded w']]
  have "last (screen c') = bid_report (err_code (msg_status m))"
    unfolding assms(15) by (rule place_bid_prints [OF assms(1,13,14)]) (use ans(2) ok assms(8) in simp)
  then have iff: "last (screen c') = (''  Bid placed! You are the highest bidder.'' @ [newline], []) \<longleftrightarrow>
      (\<exists>a. bid_accepts ?req ?u w a)"
    using bid_report_ok [of "msg_status m"] ans(1) by (simp add: bid_report_def [of 0])
  have "\<exists>a'. read_auction (word_of_nat i) w' = Some a' \<and> highest_bidder_id a' = user_id ?u \<and> current_bid a' = rs (int k)"
    if a: "bid_accepts ?req ?u w a" for a
    using accepted_auctions [OF a assms(9,10), of "conn_fd cn"] a
    by (auto simp: w' at.rd_Some bid_accepts_def raised_def)
  with iff show ?thesis using place_bid_sends [OF assms(1-4)] assms(5,15) by blast
qed

lemma message_arrives: "arrives (message_bytes m) [message_bytes m]"
  using header_codec.enc_length [OF header_of_message [of m]] by (auto simp: arrives_def message_bytes_def)

definition ann_conn :: conn where
  "ann_conn = new_conn 8\<lparr>current_user := ann, authenticated := True\<rparr>"

lemma ann_conn_simps [simp]: "current_user ann_conn = ann" "authenticated ann_conn" "conn_fd ann_conn = 8"
  by (simp_all add: ann_conn_def new_conn_def)

theorem typed_bid_is_placed_witness:
  "\<exists>m a. last (screen (snd (run_state bidder_place_bid
       (fresh_client (decimal 2 @ newline # decimal 400 @ newline # []) [message_bytes m]))))
     = (''  Bid placed! You are the highest bidder.'' @ [newline], []) \<and>
   read_auction 2 (snd (serve_request sample_shell
     (RQ_PLACE_BID \<lparr>bid_req_auction_id = 2, bid_req_amount = rs 400\<rparr>) ann_conn sample_world)) = Some a \<and>
   highest_bidder_id a = 4"
proof -
  let ?req = "\<lparr>bid_req_auction_id = 2, bid_req_amount = rs 400\<rparr>"
  let ?w = "snd (serve_request sample_shell (RQ_PLACE_BID ?req) ann_conn sample_world)"
  have w: "?w = handle_place_bid 8 ?req ann sample_world" by (simp add: serve_request_def)
  define m where "m = \<lparr>msg_type = MSG_PLACE_BID_RESP, msg_status = ERR_OK, msg_payload = P_Bid (new_bid ?req ann sample_world)\<rparr>"
  obtain ms where ms: "sent ?w = sent sample_world @ (conn_fd ann_conn, m) # ms"
    using accepted_first [OF sample_bid_accepts, of 8] by (auto simp: w m_def)
  let ?c = "fresh_client (decimal 2 @ newline # decimal 400 @ newline # []) [message_bytes m]"
  have in_c: "inbox ?c = [message_bytes m] @ []" by simp
  have small: "(2::nat) < 2 ^ 31" "(400::nat) < 2 ^ 53" "fits 8 (now sample_world)" by (simp_all add: fits_def)
  have rq: "RQ_PLACE_BID ?req = RQ_PLACE_BID \<lparr>bid_req_auction_id = word_of_nat 2, bid_req_amount = rs (int 400)\<rparr>" by simp
  have role: "role (current_user ann_conn) = ROLE_BIDDER" by simp
  from typed_bid_is_placed [OF fresh_client_simps(5) fresh_client_simps(3) small(1,2) rq ann_conn_simps(2) role small(3)
      sample_numbered(2) sample_files(7) refl ms in_c message_arrives refl] sample_bid_accepts
  show ?thesis by auto
qed

section \<open>A seller closes an auction\<close>

lemma reads_local:
  "run_state (read_line p b n) c = (x, c') \<Longrightarrow> inbox c' = inbox c \<and> healthy c' = healthy c"
  "run_state (read_int p) c = (y, c') \<Longrightarrow> inbox c' = inbox c \<and> healthy c' = healthy c"
  "run_state (read_double p) c = (z, c') \<Longrightarrow> inbox c' = inbox c \<and> healthy c' = healthy c"
  by (metis read_line_frame(1) healthy_frame(1) snd_conv, metis read_number_frame(1) healthy_frame(2) snd_conv,
      metis read_number_frame(2) healthy_frame(3) snd_conv)

lemma close_prints:
  assumes "healthy c" and "inbox c = cs @ later" and "arrives (message_bytes m) cs"
    and "length (payload_bytes (msg_payload m)) \<le> 384" and "msg_status m = ERR_OK"
  shows "last (screen (snd (run_state auctioneer_close c))) = (''  Auction closed and settled.'' @ [newline], [])"
    and "inbox (snd (run_state auctioneer_close c)) = later" and "healthy (snd (run_state auctioneer_close c))"
proof -
  let ?c = "snd (run_state (read_int ''  Auction ID: '') c)"
  have "healthy ?c" "inbox ?c = cs @ later" using assms(1,2) by simp_all
  note first = exchange_first [OF this assms(3,4)]
  show "last (screen (snd (run_state auctioneer_close c))) = (''  Auction closed and settled.'' @ [newline], [])"
    "inbox (snd (run_state auctioneer_close c)) = later" "healthy (snd (run_state auctioneer_close c))"
    using first(2,4,5) assms(5) by (simp_all add: auctioneer_close_def case_prod_beta message_header_def)
qed

lemma create_prints:
  assumes "healthy c" and "inbox c = cs @ later" and "arrives (message_bytes m) cs"
    and "msg_status m = ERR_OK" and "msg_payload m = P_Auction a" and "auction_ok a"
  shows "last (screen (snd (run_state auctioneer_create c))) = (''  Auction #%u created.'' @ [newline], [A_u32 (auction_id a)])"
    and "inbox (snd (run_state auctioneer_create c)) = later"
proof -
  obtain x1 s1 where 1: "run_state (read_line ''  Item name:         '' (replicate MAX_ITEM_NAME NUL) MAX_ITEM_NAME) c = (x1, s1)"
    by (cases "run_state (read_line ''  Item name:         '' (replicate MAX_ITEM_NAME NUL) MAX_ITEM_NAME) c")
  obtain x2 s2 where 2: "run_state (read_line ''  Description:       '' (replicate MAX_DESC NUL) MAX_DESC) s1 = (x2, s2)"
    by (cases "run_state (read_line ''  Description:       '' (replicate MAX_DESC NUL) MAX_DESC) s1")
  obtain x3 s3 where 3: "run_state (read_double ''  Start price (Rs.): '') s2 = (x3, s3)"
    by (cases "run_state (read_double ''  Start price (Rs.): '') s2")
  obtain x4 s4 where 4: "run_state (read_double ''  Reserve (Rs.,0=none): '') s3 = (x4, s4)"
    by (cases "run_state (read_double ''  Reserve (Rs.,0=none): '') s3")
  obtain x5 c1 where 5: "run_state (read_int ''  Duration (seconds): '') s4 = (x5, c1)"
    by (cases "run_state (read_int ''  Duration (seconds): '') s4")
  have c1: "healthy c1" "inbox c1 = cs @ later"
    using assms(1,2) reads_local(1) [OF 1] reads_local(1) [OF 2] reads_local(3) [OF 3] reads_local(3) [OF 4] reads_local(2) [OF 5] by simp_all
  have len: "length (payload_bytes (msg_payload m)) \<le> 384" using Auction_codec.enc_length [OF assms(6)] by (simp add: assms(5))
  note first = exchange_first [OF c1 assms(3) len]
  have id: "auction_id (dec_Auction (enc_Auction a @ rest)) = auction_id a" for rest
  proof -
    have "field 0 4 (enc_Auction a @ rest) = enc_u32 (auction_id a)"
      by (simp add: field_def enc_Auction_def u32_codec.enc_length)
    then show ?thesis by (simp add: dec_Auction_def u32_codec.dec_enc)
  qed
  have "auction_id (dec_Auction (snd (snd (fst (run_state (exchange t pl 384) c1))))) = auction_id a" for t pl
    using first(3) [of t pl] id assms(5) by auto
  then show "last (screen (snd (run_state auctioneer_create c))) = (''  Auction #%u created.'' @ [newline], [A_u32 (auction_id a)])"
    and "inbox (snd (run_state auctioneer_create c)) = later"
    using first(2,4) assms(4)
    by (simp_all add: auctioneer_create_def 1 2 3 4 5 case_prod_beta message_header_def)
qed

lemma seller_messages:
  assumes "read_auction i w = Some a" and "seller_id a = user_id u" and "auction_status a = AUCTION_OPEN"
    and "lookup_fd (user_id u) (registry w) = fd" and "0 \<le> fd" and "lookup_fd (highest_bidder_id a) (registry w) \<noteq> fd"
  shows "filter (\<lambda>x. fst x = fd) (sent (handle_close_auction fd \<lparr>close_auction_id = i\<rparr> u w)) =
    filter (\<lambda>x. fst x = fd) (sent w) @
      [(fd, \<lparr>msg_type = MSG_NOTIFY_AUCTION_CLOSED, msg_status = ERR_OK, msg_payload = P_AuctionClosed (auction_id a)\<rparr>),
       (fd, \<lparr>msg_type = MSG_CLOSE_AUCTION_RESP, msg_status = ERR_OK,
             msg_payload = P_Auction (a\<lparr>auction_status := AUCTION_CLOSED\<rparr>)\<rparr>)]"
proof -
  have push: "sent (push_notification j t p v) =
      sent v @ (if lookup_fd j (registry v) < 0 then [] else [(lookup_fd j (registry v), \<lparr>msg_type = t, msg_status = ERR_OK, msg_payload = p\<rparr>)])"
    for j t p v by (simp add: push_notification_def send_msg_def Let_def)
  have "filter (\<lambda>x. fst x = fd) (sent (snd (close_auction_internal a w))) = filter (\<lambda>x. fst x = fd) (sent w) @
      [(fd, \<lparr>msg_type = MSG_NOTIFY_AUCTION_CLOSED, msg_status = ERR_OK, msg_payload = P_AuctionClosed (auction_id a)\<rparr>)]"
    using assms(2,4-6)
    by (simp add: close_auction_internal_def Let_def notify_auction_closed_def notify_auction_won_def push)
  then show ?thesis
    using assms(1-3) by (simp add: handle_close_auction_def case_prod_beta Let_def send_msg_def log_txn_def)
qed

text \<open>A seller who closes an auction is out of step from then on: the server notifies the seller
  before it answers, the client takes the notification for the answer, and the answer stays on the
  socket; when the seller goes on to create an auction before the listener thread has thrown it
  away, the client reports an auction as created, under the number of the one just closed,
  whatever the server makes of the request.\<close>

lemma seller_out_of_step:
  assumes "healthy c" and "read_auction i w = Some a" and "numbered auction_id (auctions w)" and "auction_ok a"
    and "seller_id a = user_id u" and "auction_status a = AUCTION_OPEN" and "lookup_fd (user_id u) (registry w) = fd"
    and "0 \<le> fd" and "lookup_fd (highest_bidder_id a) (registry w) \<noteq> fd"
    and "w' = handle_close_auction fd \<lparr>close_auction_id = i\<rparr> u w"
    and "filter (\<lambda>x. fst x = fd) (sent w') = filter (\<lambda>x. fst x = fd) (sent w) @ new"
    and "list_all2 (\<lambda>x cs. arrives (message_bytes (snd x)) cs) new css" and "inbox c = concat css @ later"
    and "c1 = snd (run_state auctioneer_close c)" and "c2 = snd (run_state auctioneer_create c1)"
  shows "map (\<lambda>x. msg_type (snd x)) new = [MSG_NOTIFY_AUCTION_CLOSED, MSG_CLOSE_AUCTION_RESP] \<and>
    last (screen c1) = (''  Auction closed and settled.'' @ [newline], []) \<and> inbox c1 = last css @ later \<and>
    last (screen c2) = (''  Auction #%u created.'' @ [newline], [A_u32 i]) \<and> inbox c2 = later"
proof -
  let ?m1 = "\<lparr>msg_type = MSG_NOTIFY_AUCTION_CLOSED, msg_status = ERR_OK, msg_payload = P_AuctionClosed (auction_id a)\<rparr>"
  let ?m2 = "\<lparr>msg_type = MSG_CLOSE_AUCTION_RESP, msg_status = ERR_OK, msg_payload = P_Auction (a\<lparr>auction_status := AUCTION_CLOSED\<rparr>)\<rparr>"
  have new: "new = [(fd, ?m1), (fd, ?m2)]"
    using seller_messages [OF assms(2,5-9)] assms(10,11) by simp
  then obtain cs1 cs2 where css: "css = [cs1, cs2]" "arrives (message_bytes ?m1) cs1" "arrives (message_bytes ?m2) cs2"
    using assms(12) by (auto simp: list_all2_Cons1)
  have "length (payload_bytes (msg_payload ?m1)) \<le> 384" by (simp add: codec_simps)
  from close_prints [OF assms(1) _ css(2) this, of "cs2 @ later"] assms(13,14) css(1)
  have c1: "last (screen c1) = (''  Auction closed and settled.'' @ [newline], [])" "inbox c1 = cs2 @ later" "healthy c1"
    by simp_all
  have "auction_ok (a\<lparr>auction_status := AUCTION_CLOSED\<rparr>)" using assms(4) by (simp add: auction_ok_def)
  from create_prints [OF c1(3,2) css(3) _ _ this] assms(15)
  have "last (screen c2) = (''  Auction #%u created.'' @ [newline], [A_u32 (auction_id a)])" "inbox c2 = later" by simp_all
  then show ?thesis using c1 css(1) new at.rd_ident [OF assms(3,2)] by simp
qed

section \<open>Notifications\<close>

text \<open>A notification in front of the answer is taken for the answer: when the server has pushed an
  outbid notice and the listener thread gets to it first, the user reads which auction and which
  amount; when the user's own bid gets there first, the client reports that bid as placed, whatever
  becomes of it, and the notice is lost.\<close>

lemma notice_taken_for_answer:
  assumes "healthy c" and "lookup_fd uid (registry w) = fd" and "0 \<le> fd"
    and "sent (notify_outbid uid aid x w) = sent w @ [(fd, m)]" and "dbl_ok x"
    and "arrives (message_bytes m) cs" and "inbox c = cs @ later"
  shows "last (screen (snd (run_state bidder_place_bid c))) =
      (''  Bid placed! You are the highest bidder.'' @ [newline], []) \<and>
    inbox (snd (run_state bidder_place_bid c)) = later \<and>
    fst (run_state listener_once c) \<and> inbox (snd (run_state listener_once c)) = later \<and>
    last (screen (snd (run_state listener_once c))) =
      (newline # ''  ** OUTBID on Auction #%u - new high: Rs.%.2f'' @ [newline], [A_u32 aid, A_dbl x])"
proof -
  have m: "m = \<lparr>msg_type = MSG_NOTIFY_OUTBID, msg_status = ERR_OK, msg_payload = P_Outbid aid x\<rparr>"
    using assms(2-4) by (simp add: notify_outbid_def push_notification_def send_msg_def)
  let ?pl = "enc_u32 aid @ pad @ enc_dbl x"
  have len: "length (payload_bytes (msg_payload m)) = 16" using assms(5) by (simp add: m codec_simps)
  have "last (screen (snd (run_state bidder_place_bid c))) = bid_report (err_code (msg_status m))"
    "inbox (snd (run_state bidder_place_bid c)) = later"
    using place_bid_prints [OF assms(1,7,6)] len by simp_all
  then have bid: "last (screen (snd (run_state bidder_place_bid c))) = (''  Bid placed! You are the highest bidder.'' @ [newline], [])"
    "inbox (snd (run_state bidder_place_bid c)) = later"
    by (simp_all add: m bid_report_def [of 0])
  let ?c = "c\<lparr>stack := \<lambda>k. stack c (Suc k)\<rparr>"
  have "recv_msg (length (replicate 1024 NUL)) (replicate 1024 NUL) (inbox ?c) =
      Some (message_header m, ?pl @ drop 16 (replicate 1024 NUL), later)"
    using recv_message [OF assms(6), of "replicate 1024 NUL" later] len assms(7) by (simp add: m)
  from run_recv [OF this, of "map (stack c 0) [0..<12]"] obtain hb where hb:
    "run_state (client_recv_msg (map (stack c 0) [0..<12]) (replicate 1024 NUL)) ?c =
       ((0, hb, ?pl @ drop 16 (replicate 1024 NUL)), ?c\<lparr>inbox := later\<rparr>)" "dec_header hb = message_header m"
    by auto
  have f: "dec_u32 (field 0 4 (?pl @ r)) = aid" "dec_dbl (field 8 8 (?pl @ r)) = x" for r
    using assms(5) by (simp_all add: codec_simps)
  have "run_state listener_once c = (True, ?c\<lparr>inbox := later, screen := screen c @
      [(newline # ''  ** OUTBID on Auction #%u - new high: Rs.%.2f'' @ [newline], [A_u32 aid, A_dbl x])]\<rparr>)"
    using hb f [of "drop 16 (replicate 1024 NUL)"]
    by (simp add: listener_once_def message_header_def m Let_def del: append_assoc drop_replicate)
  then show ?thesis using bid by simp
qed

end
