(* ===== verification/Terminal.thy ===== *)
theory Terminal
  imports Client_Server
begin

text \<open>
  The client on its own terminal: after a logout, at the end of its input, without a server, and
  with lines that are longer than its buffers. \<open>stays\<close> and \<open>stuck\<close> are the rules with which every
  operation of the menus is followed through a client whose input has ended.
\<close>

section \<open>After a logout\<close>

lemma no_answer:
  assumes "inbox c = []" and "run_state (exchange t pl n) c = ((r, hdr, buf), c')"
  shows "r = -1 \<and> inbox c' = [] \<and> logged_in c' = logged_in c"
proof -
  obtain x c1 where 1: "run_state (client_send_msg t pl) c = (x, c1)" by (cases "run_state (client_send_msg t pl) c")
  then have "inbox c1 = []" "logged_in c1 = logged_in c"
    using assms(1) by (auto simp: client_send_msg_def sock_write_def Let_def split: if_splits)
  then show ?thesis
    using assms(2) by (simp add: exchange_def 1 client_recv_msg_def) auto
qed

text \<open>A logout is the last thing a client does: the server reads no further request on the connection
  and closes it, the client keeps using it, so when nothing more arrives every later round of its
  main loop ends without a login, whatever the user types.\<close>

lemma no_login_after_logout:
  assumes "inbox c = []" and "\<not> logged_in c" and "run_state main_round c = (e, c')" and "authenticated cn"
  shows "client_loop popen (RQ_LOGOUT # rqs) cn w = client_loop popen [RQ_LOGOUT] cn w \<and>
    e \<noteq> Entered \<and> inbox c' = [] \<and> \<not> logged_in c'"
proof -
  have "client_loop popen (RQ_LOGOUT # rqs) cn w = client_loop popen [RQ_LOGOUT] cn w"
    using assms(4) by (simp add: serve_request_def)
  moreover have "e \<noteq> Entered \<and> inbox c' = [] \<and> \<not> logged_in c'"
  proof -
    let ?c1 = "snd (run_state (read_int ''  Choice: '') (snd (run_state (PRINT (''  1. Login'' @ [newline] @ ''  2. Exit'' @ [newline]) []) c)))"
    obtain u c2 where u: "run_state (read_line ''  Username: '' (replicate MAX_USERNAME NUL) MAX_USERNAME) ?c1 = (u, c2)"
      by (cases "run_state (read_line ''  Username: '' (replicate MAX_USERNAME NUL) MAX_USERNAME) ?c1")
    obtain p c3 where p: "run_state (read_line ''  Password: '' (replicate MAX_PASSWORD NUL) MAX_PASSWORD) c2 = (p, c3)"
      by (cases "run_state (read_line ''  Password: '' (replicate MAX_PASSWORD NUL) MAX_PASSWORD) c2")
    have c1: "inbox ?c1 = []" "logged_in ?c1 = logged_in c" using assms(1) by simp_all
    have c3: "inbox c3 = []" "logged_in c3 = logged_in c"
      using c1 arg_cong [OF u, of snd] arg_cong [OF p, of snd] by (metis read_line_frame(1,5) snd_conv)+
    obtain r hdr buf c4 where x: "run_state (exchange MSG_LOGIN_REQ (u @ p) 216) c3 = ((r, hdr, buf), c4)"
      by (metis prod_cases3 surj_pair)
    note n = no_answer [OF c3(1) x]
    show ?thesis
      using assms(2,3) n c1 c3 u p x
      by (auto simp: main_round_def do_login_def case_prod_beta split: if_splits)
  qed
  ultimately show ?thesis by blast
qed

section \<open>The end of the input\<close>

definition at_eof :: "int \<Rightarrow> client \<Rightarrow> bool" where
  \<comment> \<open>a user is logged in, nothing is left to read, and no uninitialised buffer reads as the number \<open>n\<close>\<close>
  "at_eof n c \<longleftrightarrow> logged_in c \<and> stdin c = [] \<and> (\<forall>k. atoi (map (stack c k) [0..<32]) \<noteq> n)"

definition stays :: "int \<Rightarrow> 'a prog \<Rightarrow> bool" where
  "stays n p \<longleftrightarrow> (\<forall>c. at_eof n c \<longrightarrow> at_eof n (snd (run_state p c)))"

definition stuck :: "int \<Rightarrow> bool prog \<Rightarrow> bool" where
  "stuck n p \<longleftrightarrow> (\<forall>c. at_eof n c \<longrightarrow> fst (run_state p c) \<and> at_eof n (snd (run_state p c)))"

lemma stays_bind: "stays n p \<Longrightarrow> (\<And>x. stays n (f x)) \<Longrightarrow> stays n (State_Monad.bind p f)"
  by (simp add: stays_def case_prod_beta)

lemma stuck_bind: "stays n p \<Longrightarrow> (\<And>x. stuck n (f x)) \<Longrightarrow> stuck n (State_Monad.bind p f)"
  by (simp add: stays_def stuck_def case_prod_beta)

lemma stays_prod: "(\<And>x y. stays n (f x y)) \<Longrightarrow> stays n (case z of (x, y) \<Rightarrow> f x y)"
  by (cases z) simp

lemma stays_if: "(b \<Longrightarrow> stays n p) \<Longrightarrow> (\<not> b \<Longrightarrow> stays n q) \<Longrightarrow> stays n (if b then p else q)"
  by simp

lemma stays_basic:
  "stays n (ret x)" "stays n (PRINT fmt args)" "stays n (line fmt args)" "stays n sep" "stays n State_Monad.get"
  "stays n (uninit k)" "stays n (read_line p b k)" "stays n (heading fmt)"
  by (simp_all add: stays_def at_eof_def read_line_def sep_def heading_def)

lemma stays_numbers: "stays n (read_int p)" "stays n (read_double p)"
  unfolding read_int_def read_double_def by (intro stays_bind stays_basic)+

lemma stays_exchange: "stays n (exchange t pl k)"
proof -
  have "stays n (client_send_msg t pl)"
    by (simp add: stays_def at_eof_def client_send_msg_def sock_write_def Let_def)
  moreover have "stays n (client_recv_msg hdr buf)" for hdr buf
    by (auto simp: stays_def at_eof_def client_recv_msg_def Let_def split: prod.split)
  ultimately show ?thesis unfolding exchange_def by (intro stays_bind stays_prod stays_basic)
qed

lemma stays_for_each: "(\<And>x. stays n (f x)) \<Longrightarrow> stays n (for_each xs f)"
  by (induction xs) (auto intro: stays_basic stays_bind)

lemmas stays_intros = stays_if stays_prod stays_basic stays_numbers stays_exchange stays_for_each stays_bind

lemma stays_operations:
  "stays n view_auctions" "stays n bidder_place_bid" "stays n bidder_balance" "stays n bidder_deposit"
  "stays n bidder_my_bids" "stays n bidder_feedback" "stays n bidder_file_dispute" "stays n do_change_password"
  "stays n auctioneer_create" "stays n auctioneer_close" "stays n mod_disputes" "stays n mod_resolve"
  "stays n mod_feedback" "stays n mod_toggle" "stays n admin_add_user" "stays n admin_list_users"
  "stays n admin_change_role"
  unfolding view_auctions_def print_auction_def bidder_place_bid_def bidder_balance_def bidder_deposit_def
    bidder_my_bids_def bidder_feedback_def bidder_file_dispute_def do_change_password_def auctioneer_create_def
    auctioneer_close_def mod_disputes_def mod_resolve_def mod_feedback_def mod_toggle_def admin_add_user_def
    admin_list_users_def admin_change_role_def Let_def
  by (intro stays_intros)+

lemma stuck_choice: "(\<And>x. x \<noteq> n \<Longrightarrow> stuck n (f x)) \<Longrightarrow> stuck n (State_Monad.bind (read_int p) f)"
proof -
  assume f: "\<And>x. x \<noteq> n \<Longrightarrow> stuck n (f x)"
  have "fst (run_state (read_int p) c) \<noteq> n" if "at_eof n c" for c
    using that by (simp add: at_eof_def read_int_def read_line_def)
  then show ?thesis
    using f stays_numbers(1) [of n p] unfolding stuck_def stays_def by (simp add: case_prod_beta)
qed

lemma stuck_going_on: "stays n p \<Longrightarrow> stuck n (going_on p)"
  by (simp add: stays_def stuck_def going_on_def case_prod_beta)

lemma stuck_if: "(b \<Longrightarrow> stuck n p) \<Longrightarrow> (\<not> b \<Longrightarrow> stuck n q) \<Longrightarrow> stuck n (if b then p else q)"
  by simp

lemma stuck_rounds:
  "stuck 9 bidder_round" "stuck 5 auctioneer_round" "stuck 6 moderator_round" "stuck 6 admin_round"
  unfolding bidder_round_def auctioneer_round_def moderator_round_def admin_round_def
  by (rule stuck_bind, rule stays_basic, rule stuck_bind, rule stays_basic, rule stuck_bind, rule stays_basic,
      (rule stuck_bind, rule stays_basic, rule stuck_bind, rule stays_basic)?,
      intro stuck_bind stays_basic stuck_choice stuck_if stuck_going_on stays_operations; simp)+

lemma stuck_loop:
  assumes "stuck n body" and "at_eof n c"
  shows "menu_loop body c = None"
proof (cases "menu_loop body c")
  case (Some r)
  have "\<not> at_eof n c"
  proof (rule menu_loop.raw_induct [OF _ Some, where P = "\<lambda>b c r. stuck n b \<longrightarrow> \<not> at_eof n c", THEN mp, OF _ assms(1)])
    fix f b c r
    assume IH: "\<And>b c r. f b c = Some r \<Longrightarrow> stuck n b \<longrightarrow> \<not> at_eof n c"
      and ret: "(if logged_in c then case run_state b c of (again, c) \<Rightarrow> if again then f b c else Some c else Some c) = Some r"
    show "stuck n b \<longrightarrow> \<not> at_eof n c"
      using IH ret by (auto simp: stuck_def case_prod_beta split: if_splits) (auto simp: at_eof_def)
  qed
  with assms(2) show ?thesis by simp
qed


lemma exchange_stdin: "stdin (snd (run_state (exchange t pl n) c)) = stdin c"
proof -
  have "stdin (snd (run_state (client_send_msg t pl) c)) = stdin c" for c
    by (simp add: client_send_msg_def sock_write_def Let_def)
  moreover have "stdin (snd (run_state (client_recv_msg hdr buf) c)) = stdin c" for hdr buf c
    using recv_frame [of hdr buf c] by (cases "run_state (client_recv_msg hdr buf) c") fastforce
  ultimately show ?thesis by (simp add: exchange_def case_prod_beta)
qed

lemma run_leaving:
  "fst (run_state leaving c) = False" "logged_in (snd (run_state leaving c)) = False"
  "stdin (snd (run_state leaving c)) = stdin c"
  by (simp_all add: leaving_def do_logout_def case_prod_beta exchange_stdin)

lemma heading_stdin: "stdin (snd (run_state (heading t) c)) = stdin c" "stdin (snd (run_state sep c)) = stdin c"
  by (simp_all add: heading_def sep_def)

lemma rounds_leave:
  assumes "(body, n) \<in> {(bidder_round, 9), (auctioneer_round, 5), (moderator_round, 6), (admin_round, 6)}"
    and "stdin c = decimal n @ newline # rest"
  shows "fst (run_state body c) = False" and "logged_in (snd (run_state body c)) = False"
    and "stdin (snd (run_state body c)) = rest"
  using assms
  by (auto simp: bidder_round_def auctioneer_round_def moderator_round_def admin_round_def case_prod_beta
      run_read_int [where rest = rest] heading_stdin run_leaving)

lemma menu_bodies:
  "menu ROLE_BIDDER = menu_loop bidder_round" "menu ROLE_AUCTIONEER = menu_loop auctioneer_round"
  "menu ROLE_MODERATOR = menu_loop moderator_round" "menu ROLE_ADMIN = menu_loop admin_round"
  by (simp_all add: menu_def fun_eq_iff role_defs)

text \<open>C34: A menu returns when the user types the number of its logout: it then has consumed that line and
  the user is logged out. When the input has ended, it never returns: no \<^verbatim>\<open>fgets\<close> result is checked,
  so unless an uninitialised buffer happens to hold the number of the logout, the menu keeps
  printing itself (and sending whatever requests those buffers spell).\<close>

theorem menu_at_end_of_input:
  assumes "(r, n) \<in> {(ROLE_BIDDER, 9), (ROLE_AUCTIONEER, 5), (ROLE_MODERATOR, 6), (ROLE_ADMIN, 6)}"
    and "logged_in c"
  shows "(stdin c = decimal n @ newline # rest \<longrightarrow>
      (\<exists>c'. menu r c = Some c' \<and> \<not> logged_in c' \<and> stdin c' = rest)) \<and>
    (stdin c = [] \<and> (\<forall>k. atoi (map (stack c k) [0..<32]) \<noteq> int n) \<longrightarrow> menu r c = None)"
proof -
  obtain body where body: "menu r = menu_loop body" "stuck (int n) body"
    "(body, n) \<in> {(bidder_round, 9), (auctioneer_round, 5), (moderator_round, 6), (admin_round, 6)}"
    using assms(1) stuck_rounds menu_bodies by auto
  have "\<exists>c'. menu r c = Some c' \<and> \<not> logged_in c' \<and> stdin c' = rest" if "stdin c = decimal n @ newline # rest"
    using rounds_leave [OF body(3) that] assms(2) by (simp add: body(1) menu_loop.simps [of body c] case_prod_beta)
  moreover have "menu r c = None" if "stdin c = [] \<and> (\<forall>k. atoi (map (stack c k) [0..<32]) \<noteq> int n)"
    using stuck_loop [OF body(2)] that assms(2) by (simp add: body(1) at_eof_def)
  ultimately show ?thesis by blast
qed

theorem menu_at_end_of_input_witness:
  "menu ROLE_BIDDER (fresh_client [] []) = None \<and>
   (\<exists>c'. menu ROLE_ADMIN (fresh_client (decimal 6 @ newline # ''1'') []) = Some c' \<and> stdin c' = ''1'')"
proof
  have "atoi (map (\<lambda>_. NUL) [0..<32]) = 0" by (simp add: atoi_def upt_rec)
  with menu_at_end_of_input [of ROLE_BIDDER 9 "fresh_client [] []"] show "menu ROLE_BIDDER (fresh_client [] []) = None" by simp
  show "\<exists>c'. menu ROLE_ADMIN (fresh_client (decimal 6 @ newline # ''1'') []) = Some c' \<and> stdin c' = ''1''"
    using menu_at_end_of_input [of ROLE_ADMIN 6 "fresh_client (decimal 6 @ newline # ''1'') []" "''1''"] by auto
qed

section \<open>Without a server\<close>

text \<open>When the server is gone the client does not notice: it prints for a bid what the bytes of an
  uninitialised header say, so with memory that happens to be zero it reports the bid as placed.\<close>

lemma dead_server_bid:
  assumes "inbox c = []"
  shows "last (screen (snd (run_state bidder_place_bid c))) = bid_report (dec_signed 4 (map (stack c 3) [8..<12])) \<and>
    ((\<forall>j. stack c 3 j = NUL) \<longrightarrow> last (screen (snd (run_state bidder_place_bid c))) =
      (''  Bid placed! You are the highest bidder.'' @ [newline], []))"
proof -
  have hdr: "hdr_status (fst (snd (fst (run_state (exchange t pl n) v)))) = dec_signed 4 (map (stack v 0) [8..<12])"
    if "inbox v = []" for t pl n v
  proof -
    have "inbox (snd (run_state (client_send_msg t pl) v)) = [] \<and> stack (snd (run_state (client_send_msg t pl) v)) = stack v"
      using that by (simp add: client_send_msg_def sock_write_def Let_def)
    moreover have "take 4 (drop 8 (map g [0..<12])) = map g [8..<12]" for g :: "nat \<Rightarrow> char"
      by (simp add: drop_map take_map)
    ultimately show ?thesis
      by (simp add: exchange_def case_prod_beta client_recv_msg_def dec_header_def del: upt_eq_Cons_conv)
  qed
  have last: "last (screen (snd (run_state bidder_place_bid c))) = bid_report (dec_signed 4 (map (stack c 3) [8..<12]))"
    using assms by (simp add: run_place_bid case_prod_beta Let_def hdr numeral_eq_Suc)
  have "dec_signed 4 (map (stack c 3) [8..<12]) = 0" if "\<forall>j. stack c 3 j = NUL"
    using that by (simp add: dec_signed_def upt_rec)
  then show ?thesis unfolding last by (simp add: bid_report_def [of 0])
qed

section \<open>What is typed\<close>

lemma typed_nan_deposit:
  assumes "healthy c" and "stdin c = ''nan'' @ newline # typed"
  shows "\<exists>bs. outbox (snd (run_state bidder_deposit c)) = outbox c @ bs \<and>
    server_reads bs (RQ_DEPOSIT \<lparr>deposit_amount = NaN\<rparr>)"
proof -
  have "dec_request (msg_code MSG_DEPOSIT_REQ) (c_array 4096 (enc_dbl NaN)) = RQ_DEPOSIT \<lparr>deposit_amount = NaN\<rparr>"
    by (simp add: dec_request_def dec_DepositPayload_def c_array_def codec_simps)
  moreover have "length (enc_dbl NaN) \<le> 4096" by (simp add: codec_simps)
  ultimately have "server_reads (request_bytes MSG_DEPOSIT_REQ (enc_dbl NaN)) (RQ_DEPOSIT \<lparr>deposit_amount = NaN\<rparr>)"
    using server_reads_request [of "enc_dbl NaN" MSG_DEPOSIT_REQ] by simp
  moreover have "outbox (snd (run_state bidder_deposit c)) = outbox c @ request_bytes MSG_DEPOSIT_REQ (enc_dbl NaN)"
    using assms run_read_double [OF assms(2)] atof_nan [of "[]"]
    by (simp add: bidder_deposit_def plain_def case_prod_beta exchange_outbox if_distrib [of "\<lambda>p. run_state p _"]
        if_distrib [of snd] if_distrib [of outbox] cong: if_cong)
  ultimately show ?thesis by blast
qed

lemma run_do_login:
  assumes "run_state (read_line ''  Username: '' (replicate MAX_USERNAME NUL) MAX_USERNAME) c = (u, c1)"
    and "run_state (read_line ''  Password: '' (replicate MAX_PASSWORD NUL) MAX_PASSWORD) c1 = (p, c2)" and "healthy c2"
  shows "outbox (snd (run_state do_login c)) = outbox c2 @ request_bytes MSG_LOGIN_REQ (u @ p)"
    and "stdin (snd (run_state do_login c)) = stdin c2"
  using exchange_outbox [OF assms(3), of MSG_LOGIN_REQ "u @ p" 216] exchange_stdin [of MSG_LOGIN_REQ "u @ p" 216 c2]
  by (simp_all add: do_login_def assms(1,2) case_prod_beta)

text \<open>A name that is too long is cut in two: of a line of more than 31 characters at the user name
  prompt the first 31 become the name, and the rest of the line is read as the password, before
  the user has seen that prompt; what the user then types as the password is read by the next
  prompt.\<close>

lemma long_name_is_cut:
  assumes "healthy c" and "stdin c = s @ t @ newline # typed" and "plain s" and "plain t"
    and "length s = 31" and "length t < 63"
  shows "\<exists>bs q. outbox (snd (run_state do_login c)) = outbox c @ bs \<and> server_reads bs (RQ_LOGIN q) \<and>
    cstring (login_username q) = s \<and> cstring (login_password q) = t \<and> stdin (snd (run_state do_login c)) = typed"
proof -
  let ?c1 = "c\<lparr>stdin := t @ newline # typed, screen := screen c @ [(''%s'', [A_str ''  Username: ''])]\<rparr>"
  let ?c2 = "?c1\<lparr>stdin := typed, screen := screen ?c1 @ [(''%s'', [A_str ''  Password: ''])]\<rparr>"
  have ne: "s @ t @ newline # typed \<noteq> []" by simp
  have "fgets (replicate 32 NUL) (Suc 31) (s @ t @ newline # typed) = s @ [NUL]"
    "fgets_rest (Suc 31) (s @ t @ newline # typed) = t @ newline # typed"
    using fgets_long(1) [of s 31 "replicate 32 NUL" "t @ newline # typed"] fgets_long(2) [of s 31 "t @ newline # typed"] assms(3,5)
    by (simp_all add: plain_def)
  moreover have "strcspn_nl (s @ [NUL]) = 31" using strcspn_full [of s "[]"] assms(3,5) by (simp add: plain_def)
  ultimately have u: "run_state (read_line ''  Username: '' (replicate MAX_USERNAME NUL) MAX_USERNAME) c = (s @ [NUL], ?c1)"
    using assms(2,5) ne by (simp add: read_line_def Let_def MAX_USERNAME_def list_update_append)
  have "run_state (read_line ''  Password: '' (replicate MAX_PASSWORD NUL) MAX_PASSWORD) ?c1 = (c_array MAX_PASSWORD t, ?c2)"
    by (rule run_read_zeros) (use assms(4,6) in \<open>simp_all add: MAX_PASSWORD_def\<close>)
  note run = run_do_login [OF u this]
  let ?pl = "(s @ [NUL]) @ c_array MAX_PASSWORD t"
  let ?q = "dec_LoginPayload (c_array 4096 ?pl)"
  have len: "length ?pl \<le> 4096" using assms(5) by (simp add: MAX_PASSWORD_def)
  have pl: "c_array 4096 ?pl = (s @ [NUL]) @ c_array MAX_PASSWORD t @ replicate 4000 NUL"
    using assms(5) by (simp add: c_array_def [of 4096] MAX_PASSWORD_def)
  have "cstring s = s" "cstring t = t" using assms(3,4) by (simp_all add: plain_def cstring_id)
  then have str: "cstring (s @ [NUL]) = s" "cstring (c_array MAX_PASSWORD t @ replicate 4000 NUL) = t"
    using assms(6) cstring_append_pad [of s 1] cstring_append_pad [of "c_array MAX_PASSWORD t" 4000]
      c_array_cstring [of t MAX_PASSWORD] assms(4) by (simp_all add: plain_def MAX_PASSWORD_def)
  have "login_username ?q = s @ [NUL]" "login_password ?q = c_array MAX_PASSWORD t @ replicate 4000 NUL"
    unfolding pl using assms(5) by (simp_all add: dec_LoginPayload_def field_def)
  with str have "cstring (login_username ?q) = s" "cstring (login_password ?q) = t" by simp_all
  moreover have "server_reads (request_bytes MSG_LOGIN_REQ ?pl) (RQ_LOGIN ?q)"
    using server_reads_request [OF len, of MSG_LOGIN_REQ] by (simp add: dec_request_def)
  ultimately show ?thesis
    using run assms(1) by (intro exI [of _ "request_bytes MSG_LOGIN_REQ ?pl"] exI [of _ ?q]) simp
qed

end
