(* ===== verification/Server_Process.thy ===== *)
theory Server_Process
  imports Server "HOL-Library.Multiset"
begin

text \<open>
  The process of \<^verbatim>\<open>server/server.c\<close>: start-up, the accept loop and the pool of eight worker threads
  around the work queue. A worker is blocked in \<^verbatim>\<open>dequeue_client\<close> (\<open>None\<close>) or runs \<^verbatim>\<open>handle_client\<close>
  for a descriptor; how long that takes is up to the client, so it is one event when it ends.

  The theory shows that connections are served in the order in which they were accepted, each by
  one worker, which connections are closed and when, and that eight clients that keep their
  connections open stop the service for all.
\<close>

section \<open>Start-up\<close>

definition THREAD_POOL_SIZE :: nat where "THREAD_POOL_SIZE = 8"

record pool =
  p_queue :: WorkQueue
  p_workers :: "int option list"
  p_closed :: "int list" \<comment> \<open>the connections the server has closed, in order\<close>

datatype startup = Exit_failure | Listening pool

definition init_thread_pool :: "(nat \<Rightarrow> int) \<Rightarrow> int option list option" where
  \<comment> \<open>the result of each \<^verbatim>\<open>pthread_create\<close>; \<open>None\<close> is the exit when one fails\<close>
  "init_thread_pool create =
     (if \<exists>i < THREAD_POOL_SIZE. create i \<noteq> 0 then None else Some (replicate THREAD_POOL_SIZE None))"

definition start_auction_timer :: "int \<Rightarrow> bool" where
  \<comment> \<open>the result of its \<^verbatim>\<open>pthread_create\<close>; \<open>False\<close> is the exit. The thread's rounds are \<^verbatim>\<open>timer_tick\<close>.\<close>
  "start_auction_timer created \<longleftrightarrow> created = 0"

definition server_main :: "int \<Rightarrow> int \<Rightarrow> int \<Rightarrow> (nat \<Rightarrow> int) \<Rightarrow> int \<Rightarrow> startup" where
  \<comment> \<open>the results of \<^verbatim>\<open>socket\<close>, \<^verbatim>\<open>bind\<close>, \<^verbatim>\<open>listen\<close> and of the thread creations; up to the accept
    loop\<close>
  "server_main sock bnd lst create created =
     (if sock < 0 then Exit_failure
      else if bnd < 0 then Exit_failure
      else if lst < 0 then Exit_failure
      else
        let q = init_work_queue
        in case init_thread_pool create of
             None \<Rightarrow> Exit_failure
           | Some workers \<Rightarrow>
               if start_auction_timer created then Listening \<lparr>p_queue = q, p_workers = workers, p_closed = []\<rparr>
               else Exit_failure)"

section \<open>The running server\<close>

datatype pool_event =
    Failed \<comment> \<open>\<^verbatim>\<open>accept\<close> failed\<close>
  | Queued int | Dropped int \<comment> \<open>a connection was accepted and queued, or closed at once\<close>
  | Taken int \<comment> \<open>a worker took it out of the queue\<close>
  | Finished int \<comment> \<open>its conversation ended\<close>

definition accept_round :: "int \<Rightarrow> pool \<Rightarrow> pool_event \<times> pool" where
  \<comment> \<open>one iteration of the accept loop on the result of \<^verbatim>\<open>accept\<close>\<close>
  "accept_round client_fd p =
     (if client_fd < 0 then (Failed, p)
      else let (r, closed, q) = enqueue_client client_fd (p_queue p)
           in (if r < 0 then Dropped client_fd else Queued client_fd,
               p\<lparr>p_queue := q, p_closed := p_closed p @ closed\<rparr>))"

definition worker_takes :: "nat \<Rightarrow> pool \<Rightarrow> (pool_event \<times> pool) option" where
  \<comment> \<open>\<^verbatim>\<open>dequeue_client\<close> returns in a blocked worker\<close>
  "worker_takes k p =
     (case dequeue_client (p_queue p) of
        None \<Rightarrow> None
      | Some (fd, q) \<Rightarrow> Some (Taken fd, p\<lparr>p_queue := q, p_workers := (p_workers p)[k := Some fd]\<rparr>))"

definition worker_ends :: "nat \<Rightarrow> int \<Rightarrow> pool \<Rightarrow> pool" where
  \<comment> \<open>\<^verbatim>\<open>handle_client\<close> returns: it has closed the connection, except for a descriptor it refuses at once\<close>
  "worker_ends k fd p =
     p\<lparr>p_workers := (p_workers p)[k := None], p_closed := p_closed p @ (if fd \<le> 0 then [] else [fd])\<rparr>"

inductive pool_step :: "pool \<Rightarrow> pool_event \<Rightarrow> pool \<Rightarrow> bool" where
  accept: "accept_round fd p = (e, p') \<Longrightarrow> pool_step p e p'"
| take: "k < length (p_workers p) \<Longrightarrow> p_workers p ! k = None \<Longrightarrow> worker_takes k p = Some (e, p') \<Longrightarrow>
     pool_step p e p'"
| finish: "k < length (p_workers p) \<Longrightarrow> p_workers p ! k = Some fd \<Longrightarrow>
     pool_step p (Finished fd) (worker_ends k fd p)"

inductive pool_run :: "pool \<Rightarrow> pool_event list \<Rightarrow> pool \<Rightarrow> bool" where
  rest: "pool_run p [] p"
| step: "pool_run p es p' \<Longrightarrow> pool_step p' e p'' \<Longrightarrow> pool_run p (es @ [e]) p''"

fun queued_fd :: "pool_event \<Rightarrow> int option" where
  "queued_fd (Queued fd) = Some fd" | "queued_fd _ = None"

fun taken_fd :: "pool_event \<Rightarrow> int option" where
  "taken_fd (Taken fd) = Some fd" | "taken_fd _ = None"

fun finished_fd :: "pool_event \<Rightarrow> int option" where
  "finished_fd (Finished fd) = Some fd" | "finished_fd _ = None"

fun accepted_fd :: "pool_event \<Rightarrow> int option" where
  "accepted_fd (Queued fd) = Some fd" | "accepted_fd (Dropped fd) = Some fd" | "accepted_fd _ = None"

fun closed_fd :: "pool_event \<Rightarrow> int option" where
  "closed_fd (Dropped fd) = Some fd"
| "closed_fd (Finished fd) = (if fd \<le> 0 then None else Some fd)"
| "closed_fd _ = None"

definition serving :: "pool \<Rightarrow> int list" where
  "serving p = List.map_filter id (p_workers p)"

definition pool_ok :: "pool_event list \<Rightarrow> pool \<Rightarrow> bool" where
  \<comment> \<open>what holds after the events \<open>es\<close> since the start\<close>
  "pool_ok es p \<longleftrightarrow>
     queue_inv (p_queue p) \<and> length (p_workers p) = THREAD_POOL_SIZE \<and>
     List.map_filter queued_fd es = List.map_filter taken_fd es @ queued (p_queue p) \<and>
     mset (List.map_filter taken_fd es) = mset (List.map_filter finished_fd es) + mset (serving p) \<and>
     p_closed p = List.map_filter closed_fd es"

lemma map_filter_append [simp]:
  "List.map_filter f (xs @ ys) = List.map_filter f xs @ List.map_filter f ys"
  by (simp add: map_filter_def)

lemma serving_update:
  assumes "k < length ws"
  shows "mset (List.map_filter id (ws[k := x])) + mset (List.map_filter id [ws ! k]) =
    mset (List.map_filter id ws) + mset (List.map_filter id [x])"
proof -
  have ws: "List.map_filter id (take k ws @ [y] @ drop (Suc k) ws) =
      List.map_filter id (take k ws) @ List.map_filter id [y] @ List.map_filter id (drop (Suc k) ws)" for y
    by (simp only: map_filter_append)
  have "ws = take k ws @ [ws ! k] @ drop (Suc k) ws" using id_take_nth_drop [OF assms] by simp
  moreover have "ws[k := x] = take k ws @ [x] @ drop (Suc k) ws" using assms by (simp add: upd_conv_take_nth_drop)
  ultimately have "List.map_filter id ws = List.map_filter id (take k ws) @ List.map_filter id [ws ! k] @
        List.map_filter id (drop (Suc k) ws)"
      "List.map_filter id (ws[k := x]) = List.map_filter id (take k ws) @ List.map_filter id [x] @
        List.map_filter id (drop (Suc k) ws)"
    using ws [of x] ws [of "ws ! k"] by simp_all
  then show ?thesis by (simp only: mset_append ac_simps)
qed

lemma pool_ok_step:
  assumes "pool_ok es p" and "pool_step p e p'"
  shows "pool_ok (es @ [e]) p'"
  using assms(2)
proof cases
  case (accept fd)
  note ok = assms(1) [unfolded pool_ok_def]
  show ?thesis
  proof (cases "fd < 0")
    case True
    with accept ok show ?thesis by (simp add: accept_round_def pool_ok_def map_filter_simps)
  next
    case False
    show ?thesis
    proof (cases "length (queued (p_queue p)) = WORK_QUEUE_SIZE")
      case True
      with False accept ok wq.enq_full [of "p_queue p" fd] show ?thesis
        by (auto simp: accept_round_def pool_ok_def map_filter_simps serving_def)
    next
      case room: False
      then have "length (queued (p_queue p)) < WORK_QUEUE_SIZE" using wq.bounded [of "p_queue p"] ok by simp
      with False accept ok wq.enq_room [of "p_queue p" fd] show ?thesis
        by (auto simp: accept_round_def pool_ok_def map_filter_simps case_prod_beta serving_def)
    qed
  qed
next
  case (take k)
  note ok = assms(1) [unfolded pool_ok_def]
  obtain fd fds where q: "queued (p_queue p) = fd # fds"
    using take(3) ok wq.deq_empty [of "p_queue p"] by (cases "queued (p_queue p)") (auto simp: worker_takes_def)
  then obtain q' where q': "dequeue_client (p_queue p) = Some (fd, q')" "queue_inv q'" "queued q' = fds"
    using wq.deq_item [of "p_queue p" fd fds] ok by blast
  then have e: "e = Taken fd" "p' = p\<lparr>p_queue := q', p_workers := (p_workers p)[k := Some fd]\<rparr>"
    using take(3) by (simp_all add: worker_takes_def)
  show ?thesis
    using ok q q' take(1,2) serving_update [OF take(1), of "Some fd"]
    by (simp add: e pool_ok_def map_filter_simps serving_def)
next
  case (finish k fd)
  then show ?thesis
    using assms(1) serving_update [OF finish(3), of None]
    by (simp add: pool_ok_def map_filter_simps serving_def worker_ends_def)
qed

lemma pool_ok_run:
  assumes "pool_run p es p'" and "pool_ok [] p"
  shows "pool_ok es p'"
  using assms by (induction rule: pool_run.induct) (auto intro: pool_ok_step)

lemma pool_ok_start: "server_main sock bnd lst create created = Listening p \<Longrightarrow> pool_ok [] p"
  using wq.empty_ok wq.empty_items
  by (auto simp: server_main_def start_auction_timer_def init_thread_pool_def pool_ok_def serving_def map_filter_def split: if_splits)

text \<open>For the witnesses: a server that has started.\<close>

definition started :: pool where
  "started = \<lparr>p_queue = init_work_queue, p_workers = replicate 8 None, p_closed = []\<rparr>"

lemma started_listening: "server_main 3 0 0 (\<lambda>_. 0) 0 = Listening started"
  by (simp add: server_main_def start_auction_timer_def init_thread_pool_def started_def THREAD_POOL_SIZE_def)

lemma pool_run_accept: "0 \<le> fd \<Longrightarrow> fst (enqueue_client fd (p_queue p)) = 0 \<Longrightarrow>
    pool_run p [Queued fd] (p\<lparr>p_queue := snd (snd (enqueue_client fd (p_queue p))),
      p_closed := p_closed p @ fst (snd (enqueue_client fd (p_queue p)))\<rparr>)"
  using pool_run.step [OF pool_run.rest pool_step.accept, of fd p]
  by (auto simp: accept_round_def case_prod_beta)

lemma length_map_filter: "length (List.map_filter f xs) \<le> length xs"
  by (simp add: map_filter_def)

lemma unfinished:
  assumes "\<forall>fd. Finished fd \<notin> set es"
  shows "List.map_filter finished_fd es = []"
    and "length (List.map_filter accepted_fd es) =
      length (List.map_filter queued_fd es) + length (List.map_filter closed_fd es)"
    and "count_list (List.map_filter closed_fd es) fd = count_list es (Dropped fd)"
proof -
  have e: "\<exists>fd. e = Failed \<or> e = Queued fd \<or> e = Dropped fd \<or> e = Taken fd" if "e \<in> set es" for e
    using assms that by (cases e) auto
  then show "List.map_filter finished_fd es = []"
    "length (List.map_filter accepted_fd es) =
      length (List.map_filter queued_fd es) + length (List.map_filter closed_fd es)"
    "count_list (List.map_filter closed_fd es) fd = count_list es (Dropped fd)"
    by (induction es) (fastforce simp: map_filter_simps)+
qed

lemma dropped_full:
  assumes "pool_run p es p'" and "pool_ok [] p"
  shows "es = es1 @ Dropped fd # es2 \<longrightarrow>
    length (List.map_filter queued_fd es1) = length (List.map_filter taken_fd es1) + 64"
  using assms
proof (induction arbitrary: es2 rule: pool_run.induct)
  case (rest p)
  then show ?case by simp
next
  case (step p es p' e p'')
  show ?case
  proof (cases es2 rule: rev_cases)
    case (snoc es3 x)
    with step.IH [OF step.prems, of es3] show ?thesis by auto
  next
    case Nil
    note ok = pool_ok_run [OF step.hyps(1) step.prems, unfolded pool_ok_def]
    have "length (queued (p_queue p')) = 64" if "e = Dropped fd"
      using step.hyps(2) that
    proof cases
      case (accept g)
      show ?thesis
      proof (rule ccontr)
        assume "length (queued (p_queue p')) \<noteq> 64"
        then have "length (queued (p_queue p')) < WORK_QUEUE_SIZE"
          using ok wq.bounded [of "p_queue p'"] by (simp add: WORK_QUEUE_SIZE_def)
        with wq.enq_room [of "p_queue p'" g] ok accept that show False
          by (auto simp: accept_round_def case_prod_beta split: if_splits)
      qed
    next
      case (take k)
      with that show ?thesis by (auto simp: worker_takes_def split: option.splits prod.splits)
    qed auto
    with Nil ok show ?thesis by auto
  qed
qed

section \<open>Properties\<close>

text \<open>C23: Connections are served in order, once: after any run of the server the connections queued so far
  are, in order, those that workers have taken and those still waiting; those taken are those
  finished and those being served, each by one of at most eight workers; and at most 64 wait.\<close>

theorem connections_in_order:
  assumes "server_main sock bnd lst create created = Listening p" and "pool_run p es p'"
  shows "List.map_filter queued_fd es = List.map_filter taken_fd es @ queued (p_queue p') \<and>
    mset (List.map_filter taken_fd es) = mset (List.map_filter finished_fd es) + mset (serving p') \<and>
    length (p_workers p') = 8 \<and> length (queued (p_queue p')) \<le> 64"
  using pool_ok_run [OF assms(2) pool_ok_start [OF assms(1)]] wq.bounded [of "p_queue p'"]
  by (auto simp: pool_ok_def THREAD_POOL_SIZE_def WORK_QUEUE_SIZE_def)

theorem connections_in_order_witness:
  "\<exists>p. pool_run started [Queued 5, Taken 5, Finished 5] p \<and> queued (p_queue p) = [] \<and>
    length (p_workers p) = 8 \<and> serving p = []"
proof -
  let ?p1 = "started\<lparr>p_queue := snd (snd (enqueue_client 5 init_work_queue))\<rparr>"
  let ?p2 = "snd (the (worker_takes 0 ?p1))"
  let ?p3 = "worker_ends 0 5 ?p2"
  have "pool_run started [Queued 5] ?p1"
    using pool_run_accept [of 5 started] by (simp add: started_def enqueue_client_def init_work_queue_def WORK_QUEUE_SIZE_def)
  moreover have "worker_takes 0 ?p1 = Some (Taken 5, ?p2)"
    by (simp add: started_def worker_takes_def dequeue_client_def enqueue_client_def init_work_queue_def WORK_QUEUE_SIZE_def)
  then have "pool_step ?p1 (Taken 5) ?p2" by (intro pool_step.take [of 0]) (simp_all add: started_def)
  moreover have "p_workers ?p2 = (replicate 8 None)[0 := Some 5]"
    by (simp add: started_def worker_takes_def dequeue_client_def enqueue_client_def init_work_queue_def WORK_QUEUE_SIZE_def)
  then have "pool_step ?p2 (Finished 5) ?p3" by (intro pool_step.finish [of 0]) simp_all
  ultimately have "pool_run started ((([Queued 5] @ [Taken 5]) @ [Finished 5])) ?p3"
    by (blast intro: pool_run.step)
  then have run: "pool_run started [Queued 5, Taken 5, Finished 5] ?p3" by simp
  from connections_in_order [OF started_listening this] run show ?thesis
    by (intro exI [of _ ?p3]) (simp add: map_filter_simps)
qed

text \<open>C24: Eight clients that keep their connections open stop the service. From the start of
  the server, as long as no conversation ends, at most eight connections are ever taken up by a
  worker, the first ones accepted, and their workers stay with them; at most 64 others wait; every
  further one has been closed by the server, however many there are, and nothing else has been
  closed; and a connection is closed only when 64 were waiting.\<close>

theorem eight_clients_block:
  assumes "server_main sock bnd lst create created = Listening p" and "pool_run p es p'"
    and "\<forall>fd. Finished fd \<notin> set es"
    and "accepted = List.map_filter accepted_fd es" and "taken = List.map_filter taken_fd es"
  shows "length taken \<le> 8 \<and> mset taken = mset (serving p') \<and> taken = take (length taken) (List.map_filter queued_fd es) \<and>
    length (queued (p_queue p')) \<le> 64 \<and>
    length accepted = length taken + length (queued (p_queue p')) + length (p_closed p') \<and>
    (\<forall>fd. count_list (p_closed p') fd = count_list es (Dropped fd)) \<and>
    (\<forall>es1 fd es2. es = es1 @ Dropped fd # es2 \<longrightarrow>
      length (List.map_filter queued_fd es1) = length (List.map_filter taken_fd es1) + 64)"
proof -
  note start = pool_ok_start [OF assms(1)]
  note ok = pool_ok_run [OF assms(2) start, unfolded pool_ok_def]
  have "List.map_filter finished_fd es = []" using unfinished(1) [OF assms(3)] .
  then have m: "mset taken = mset (serving p')" using ok assms(5) by simp
  have "length (serving p') \<le> 8" using ok length_map_filter [of id "p_workers p'"]
    by (simp add: serving_def THREAD_POOL_SIZE_def)
  then have "length taken \<le> 8" using mset_eq_length [OF m] by simp
  moreover have "length accepted = length taken + length (queued (p_queue p')) + length (p_closed p')"
    using ok unfinished(2) [OF assms(3)] assms(4,5) by simp
  moreover have "count_list (p_closed p') fd = count_list es (Dropped fd)" for fd
    using ok unfinished(3) [OF assms(3), of fd] by simp
  moreover have "length (queued (p_queue p')) \<le> 64"
    using ok wq.bounded [of "p_queue p'"] by (simp add: WORK_QUEUE_SIZE_def)
  ultimately show ?thesis using m ok assms(5) dropped_full [OF assms(2) start] by auto
qed

theorem eight_clients_block_witness:
  "\<exists>p. pool_run started [Queued 5, Taken 5, Queued 6] p \<and> serving p = [5] \<and> length (queued (p_queue p)) = 1"
proof -
  note simps = started_def worker_takes_def dequeue_client_def enqueue_client_def init_work_queue_def
    WORK_QUEUE_SIZE_def accept_round_def
  let ?p1 = "started\<lparr>p_queue := snd (snd (enqueue_client 5 init_work_queue))\<rparr>"
  let ?p2 = "snd (the (worker_takes 0 ?p1))"
  let ?p3 = "snd (accept_round 6 ?p2)"
  have "pool_run started [Queued 5] ?p1" using pool_run_accept [of 5 started] by (simp add: simps)
  moreover have "worker_takes 0 ?p1 = Some (Taken 5, ?p2)" by (simp add: simps)
  then have "pool_step ?p1 (Taken 5) ?p2" by (intro pool_step.take [of 0]) (simp_all add: started_def)
  moreover have "accept_round 6 ?p2 = (Queued 6, ?p3)" by (simp add: simps)
  then have "pool_step ?p2 (Queued 6) ?p3" by (rule pool_step.accept)
  ultimately have "pool_run started (([Queued 5] @ [Taken 5]) @ [Queued 6]) ?p3" by (blast intro: pool_run.step)
  then have run: "pool_run started [Queued 5, Taken 5, Queued 6] ?p3" by simp
  have "mset [5] = mset (serving ?p3) \<and> length [5, 6 :: int] = length [5 :: int] + length (queued (p_queue ?p3)) + length (p_closed ?p3)"
    using eight_clients_block [OF started_listening run _ refl refl] by (simp add: map_filter_simps)
  moreover have "p_closed ?p3 = []" by (simp add: simps)
  ultimately show ?thesis using run by (intro exI [of _ ?p3]) simp
qed

end
