(* ===== verification/Layout.thy ===== *)
theory Layout
  imports Wire
begin

text \<open>
  The layout of the data files. A record of a data file is well formed when its character arrays
  have the sizes of \<^verbatim>\<open>common/models.h\<close>, the arrays that the code prints with \<^verbatim>\<open>%s\<close> end in a
  terminator, and its amounts are values of the C type \<^verbatim>\<open>double\<close>.

  The theory shows that the server writes only well-formed records, whatever bytes its clients send
  and whatever the shell prints for a digest. The digest is the one place where the code writes past
  an array: 64 digits and a terminator go into \<^verbatim>\<open>password[64]\<close>, the last byte into the first of
  \<^verbatim>\<open>full_name\<close>.
\<close>

section \<open>Well-formed records\<close>

definition text_ok :: "nat \<Rightarrow> char list \<Rightarrow> bool" where
  \<comment> \<open>an array of \<open>n\<close> characters whose last one is a terminator\<close>
  "text_ok n s \<longleftrightarrow> length s = n \<and> s ! (n - 1) = NUL"

definition user_layout :: "User \<Rightarrow> bool" where
  "user_layout u \<longleftrightarrow> text_ok 32 (username u) \<and> length (password u) = 64 \<and> text_ok 64 (full_name u) \<and>
     dbl_ok (wallet_balance u) \<and> dbl_ok (wallet_hold u)"

definition auction_layout :: "Auction \<Rightarrow> bool" where
  "auction_layout a \<longleftrightarrow> text_ok 64 (item_name a) \<and> text_ok 256 (description a) \<and>
     dbl_ok (start_price a) \<and> dbl_ok (reserve_price a) \<and> dbl_ok (current_bid a)"

definition bid_layout :: "Bid \<Rightarrow> bool" where
  "bid_layout b \<longleftrightarrow> dbl_ok (bid_amount b)"

definition dispute_layout :: "Dispute \<Rightarrow> bool" where
  "dispute_layout d \<longleftrightarrow> text_ok 256 (reason d) \<and> text_ok 256 (resolution d)"

definition feedback_layout :: "Feedback \<Rightarrow> bool" where
  "feedback_layout f \<longleftrightarrow> text_ok 256 (feedback_message f)"

definition files_layout :: "world \<Rightarrow> bool" where
  "files_layout w \<longleftrightarrow>
     (\<forall>u \<in> set (records (users_file w)). user_layout u) \<and>
     (\<forall>a \<in> set (records (auctions_file w)). auction_layout a) \<and>
     (\<forall>b \<in> set (records (bids_file w)). bid_layout b) \<and>
     (\<forall>d \<in> set (records (disputes_file w)). dispute_layout d) \<and>
     (\<forall>f \<in> set (records (feedback_file w)). feedback_layout f)"

named_theorems layout_intro \<comment> \<open>operations that keep the layout\<close>

lemma text_ok_cstring: "text_ok n s \<Longrightarrow> 0 < n \<Longrightarrow> length (cstring s) < n"
proof -
  assume s: "text_ok n s" "0 < n"
  then have "NUL \<in> set s" using nth_mem [of "n - 1" s] by (auto simp: text_ok_def)
  with s(1) have "takeWhile (\<lambda>c. c \<noteq> NUL) s \<noteq> s" by (auto simp: text_ok_def takeWhile_eq_all_conv)
  then have "length (takeWhile (\<lambda>c. c \<noteq> NUL) s) < length s"
    using takeWhile_eq_take [of "\<lambda>c. c \<noteq> NUL" s] length_takeWhile_le [of "\<lambda>c. c \<noteq> NUL" s]
    by (metis order_le_less take_all)
  with s(1) show "length (cstring s) < n" by (simp add: cstring_def text_ok_def)
qed

lemma text_ok_zero: "0 < n \<Longrightarrow> text_ok n (replicate n NUL)"
  by (simp add: text_ok_def)

lemma text_ok_strncpy: "text_ok n dst \<Longrightarrow> m < n \<Longrightarrow> text_ok n (strncpy dst src m)"
  using length_cstring_le [of "take m src"]
  by (auto simp: text_ok_def strncpy_def Let_def nth_append)

section \<open>Doubles from the network\<close>

lemma dbl_ok_bits [simp]: "dbl_ok (bits_dbl x)"
proof -
  define m ex fr where "m = x mod 2 ^ 63" and "ex = m div 2 ^ 52" and "fr = m mod 2 ^ 52"
  have fin: "dbl_ok (Fin (q * 2 ^ e))" if "\<bar>q\<bar> < 2 ^ 53" and "e < 2046" for q :: int and e :: nat
  proof -
    have "2 ^ excess (q * 2 ^ e) dvd q * 2 ^ e" using that(1) by (intro excess_multiple) simp
    moreover have "\<bar>q * 2 ^ e\<bar> < 2 ^ 53 * 2 ^ e" using that(1) by (simp add: abs_mult)
    moreover have "(2::int) ^ 53 * 2 ^ e \<le> overflow"
    proof -
      have "(2::int) ^ 53 * 2 ^ e = 2 ^ (53 + e)" by (simp only: power_add)
      also have "\<dots> \<le> overflow" unfolding overflow_def one_def power_add [symmetric] using that(2) by (intro power_increasing) simp_all
      finally show ?thesis .
    qed
    ultimately show ?thesis by (simp add: dbl_ok_def)
  qed
  have "m < 2 ^ 63" by (simp add: m_def)
  then have ex: "ex < 2048" by (simp add: ex_def less_mult_imp_div_less)
  have fr: "fr < 2 ^ 52" by (simp add: fr_def)
  show ?thesis
  proof (cases "ex = 2047")
    case True
    then show ?thesis by (simp add: bits_dbl_def Let_def m_def ex_def)
  next
    case False
    define q where "q = (if ex = 0 then int fr else int (2 ^ 52 + fr))"
    have "\<bar>q\<bar> < 2 ^ 53" using fr by (simp add: q_def)
    moreover have "ex - 1 < 2046" using ex False by simp
    ultimately have v: "dbl_ok (Fin (q * 2 ^ (ex - 1)))" by (rule fin)
    have "bits_dbl x = (if 2 ^ 63 \<le> x then - Fin (q * 2 ^ (ex - 1)) else Fin (q * 2 ^ (ex - 1)))"
      using False unfolding bits_dbl_def Let_def q_def m_def [symmetric] ex_def [symmetric] fr_def [symmetric] by simp
    then show ?thesis using v dbl_ok_simps(5) [of "Fin (q * 2 ^ (ex - 1))"] by (cases "2 ^ 63 \<le> x") (simp_all only: if_True if_False)
  qed
qed

lemma dbl_ok_dec [simp]: "dbl_ok (dec_dbl bs)"
  by (simp add: dec_dbl_def)

fun typed_request :: "request \<Rightarrow> bool" where
  "typed_request (RQ_DEPOSIT q) = dbl_ok (deposit_amount q)"
| "typed_request (RQ_PLACE_BID q) = dbl_ok (bid_req_amount q)"
| "typed_request (RQ_CREATE_AUCTION q) =
     (dbl_ok (create_start_price q) \<and> dbl_ok (create_reserve_price q))"
| "typed_request _ = True"

lemma typed_dec_request: "typed_request (dec_request t buf)"
  by (simp add: dec_request_def dec_DepositPayload_def dec_PlaceBidPayload_def dec_CreateAuctionPayload_def)

section \<open>Files\<close>

lemma all_rec_write:
  "\<forall>x \<in> set (records f). P x \<Longrightarrow> P z \<Longrightarrow> P r \<Longrightarrow> \<forall>x \<in> set (records (rec_write z k r f)). P x"
  by (auto simp: rec_write_def Let_def dest!: set_update_subset_insert [THEN subsetD])

lemma all_rec_append: "\<forall>x \<in> set (records f). P x \<Longrightarrow> P r \<Longrightarrow> \<forall>x \<in> set (records (rec_append r f)). P x"
  by (auto simp: rec_append_def)

lemma all_rec_read: "rec_read k f = Some r \<Longrightarrow> \<forall>x \<in> set (records f). P x \<Longrightarrow> P r"
  by (auto simp: rec_read_Some)

lemma zero_layout: "user_layout zero_User" "auction_layout zero_Auction" "dispute_layout zero_Dispute"
  by (simp_all add: user_layout_def zero_User_def auction_layout_def zero_Auction_def dispute_layout_def
      zero_Dispute_def text_ok_def MAX_USERNAME_def MAX_PASSWORD_def MAX_NAME_def MAX_ITEM_NAME_def MAX_DESC_def)

lemma files_layout_cong:
  "files_layout w \<Longrightarrow> users_file w' = users_file w \<Longrightarrow> auctions_file w' = auctions_file w \<Longrightarrow>
   bids_file w' = bids_file w \<Longrightarrow> disputes_file w' = disputes_file w \<Longrightarrow>
   feedback_file w' = feedback_file w \<Longrightarrow> files_layout w'"
  by (simp add: files_layout_def)

lemma layout_frame [layout_intro]:
  "files_layout w \<Longrightarrow> files_layout (log_txn m w)"
  "files_layout w \<Longrightarrow> files_layout (send_msg fd t e p w)"
  "files_layout w \<Longrightarrow> files_layout (snd (write_session k s w))"
  "files_layout w \<Longrightarrow> files_layout (snd (find_free_slot w))"
  "files_layout w \<Longrightarrow> files_layout (notify_register i fd w)"
  "files_layout w \<Longrightarrow> files_layout (notify_unregister i w)"
  "files_layout w \<Longrightarrow> files_layout (notify_outbid i j d w)"
  "files_layout w \<Longrightarrow> files_layout (notify_auction_won i j d w)"
  "files_layout w \<Longrightarrow> files_layout (notify_auction_closed i j w)"
  by (erule files_layout_cong; simp)+

lemma files_layout_update:
  assumes "files_layout w"
  shows "\<forall>u \<in> set (records f1). user_layout u \<Longrightarrow> files_layout (w\<lparr>users_file := f1\<rparr>)"
    "\<forall>a \<in> set (records f2). auction_layout a \<Longrightarrow> files_layout (w\<lparr>auctions_file := f2\<rparr>)"
    "\<forall>b \<in> set (records f3). bid_layout b \<Longrightarrow> files_layout (w\<lparr>bids_file := f3\<rparr>)"
    "\<forall>d \<in> set (records f4). dispute_layout d \<Longrightarrow> files_layout (w\<lparr>disputes_file := f4\<rparr>)"
    "\<forall>f \<in> set (records f5). feedback_layout f \<Longrightarrow> files_layout (w\<lparr>feedback_file := f5\<rparr>)"
  using assms by (simp_all add: files_layout_def)

lemma files_layout_parts:
  assumes "files_layout w"
  shows "\<forall>u \<in> set (records (users_file w)). user_layout u"
    "\<forall>a \<in> set (records (auctions_file w)). auction_layout a"
    "\<forall>b \<in> set (records (bids_file w)). bid_layout b"
    "\<forall>d \<in> set (records (disputes_file w)). dispute_layout d"
    "\<forall>f \<in> set (records (feedback_file w)). feedback_layout f"
  using assms by (simp_all add: files_layout_def)

lemma layout_write [layout_intro]:
  assumes "files_layout w"
  shows "user_layout u \<Longrightarrow> files_layout (snd (write_user u w))"
    "auction_layout a \<Longrightarrow> files_layout (snd (write_auction a w))"
    "dispute_layout d \<Longrightarrow> files_layout (snd (write_dispute d w))"
    "bid_layout b \<Longrightarrow> files_layout (snd (append_bid b w))"
    "feedback_layout f \<Longrightarrow> files_layout (snd (append_feedback f w))"
  using assms files_layout_update(1) [OF assms all_rec_write [OF files_layout_parts(1) [OF assms] zero_layout(1)]]
    files_layout_update(2) [OF assms all_rec_write [OF files_layout_parts(2) [OF assms] zero_layout(2)]]
    files_layout_update(4) [OF assms all_rec_write [OF files_layout_parts(4) [OF assms] zero_layout(3)]]
    files_layout_update(3) [OF assms all_rec_append [OF files_layout_parts(3) [OF assms]]]
    files_layout_update(5) [OF assms all_rec_append [OF files_layout_parts(5) [OF assms]]]
  by (simp_all add: write_user_def write_auction_def write_dispute_def append_bid_def append_feedback_def)

lemma layout_read:
  "read_user i w = Some u \<Longrightarrow> files_layout w \<Longrightarrow> user_layout u"
  "read_auction i w = Some a \<Longrightarrow> files_layout w \<Longrightarrow> auction_layout a"
  "read_dispute i w = Some d \<Longrightarrow> files_layout w \<Longrightarrow> dispute_layout d"
  by (auto simp: read_user_def read_auction_def read_dispute_def files_layout_def intro: all_rec_read)

lemma layout_find: "find_user_by_username name w = Some u \<Longrightarrow> files_layout w \<Longrightarrow> user_layout u"
  by (auto simp: find_user_by_username_def files_layout_def find_Some_iff)

lemma layout_fields [simp]:
  "user_layout u \<Longrightarrow> user_layout (u\<lparr>wallet_balance := b, wallet_hold := h\<rparr>) = (dbl_ok b \<and> dbl_ok h)"
  "user_layout (u\<lparr>role := r\<rparr>) = user_layout u" "user_layout (u\<lparr>acct_status := s\<rparr>) = user_layout u"
  "user_layout (u\<lparr>last_login := t\<rparr>) = user_layout u"
  "auction_layout (a\<lparr>auction_status := st\<rparr>) = auction_layout a"
  unfolding user_layout_def auction_layout_def by simp_all

section \<open>The handlers\<close>

lemma apply_wallet_delta_layout [layout_intro]:
  assumes "files_layout w" and "dbl_ok b" and "dbl_ok h"
  shows "files_layout (snd (apply_wallet_delta i b h w))"
proof (cases "read_user i w")
  case None
  with assms show ?thesis by (simp add: apply_wallet_delta_def)
next
  case (Some u)
  then have u: "user_layout u" using assms(1) by (rule layout_read)
  then have "dbl_ok (wallet_balance u + b)" "dbl_ok (wallet_hold u + h)"
    using assms by (simp_all add: user_layout_def)
  with u show ?thesis
    using assms(1) by (auto simp: apply_wallet_delta_def Some Let_def intro!: layout_write)
qed

lemma wallet_layout [layout_intro]:
  assumes "files_layout w" and "dbl_ok a"
  shows "files_layout (snd (place_hold i a w))" "files_layout (snd (release_hold i a w))"
    "files_layout (snd (settle_payment i a w))" "files_layout (snd (credit_wallet i a w))"
  using assms by (auto simp: place_hold_def release_hold_def settle_payment_def credit_wallet_def Let_def
      case_prod_beta intro!: layout_intro split: option.split)

lemma deposit_layout:
  assumes "files_layout w" and "dbl_ok (deposit_amount q)" and "user_layout u"
  shows "files_layout (snd (handle_deposit fd q u w))" "user_layout (fst (handle_deposit fd q u w))"
proof -
  have l: "files_layout (snd (credit_wallet (user_id u) (deposit_amount q) w))"
    using assms by (intro layout_intro)
  show "files_layout (snd (handle_deposit fd q u w))" "user_layout (fst (handle_deposit fd q u w))"
    using assms l by (auto simp: handle_deposit_def Let_def case_prod_beta intro!: layout_intro
        dest: layout_read split: option.split)
qed

lemma login_layout:
  assumes "files_layout w" and "user_layout u"
  shows "files_layout (snd (snd (handle_login popen fd q u w)))"
    "user_layout (fst (snd (handle_login popen fd q u w)))"
  using assms by (auto simp: handle_login_def Let_def case_prod_beta intro!: layout_intro
      dest: layout_find split: option.split)

lemma logout_layout [layout_intro]: "files_layout w \<Longrightarrow> files_layout (handle_logout fd u w)"
  by (auto simp: handle_logout_def Let_def intro!: layout_intro)

lemma change_password_layout:
  assumes "files_layout w" and "user_layout u"
  shows "files_layout (snd (handle_change_password popen fd q u w))"
    "user_layout (fst (handle_change_password popen fd q u w))"
proof -
  have "user_layout (u\<lparr>password := strncpy (password u) h MAX_PASSWORD\<rparr>)" for h
    using assms(2) by (simp add: user_layout_def MAX_PASSWORD_def)
  then show "files_layout (snd (handle_change_password popen fd q u w))"
    "user_layout (fst (handle_change_password popen fd q u w))"
    using assms by (auto simp: handle_change_password_def Let_def intro!: layout_intro)
qed

lemma sha256_hex_memory:
  assumes "64 \<le> length out" and "65 \<le> length out \<or> popen (sha256_cmd inp) = None"
  shows "length (sha256_hex popen inp out) = length out"
    "last_kept < length out \<Longrightarrow> out ! last_kept = NUL \<Longrightarrow> 65 \<le> last_kept \<Longrightarrow>
      sha256_hex popen inp out ! last_kept = NUL"
proof -
  have g: "length (fgets out 65 t) = length out \<and>
      (last_kept < length out \<longrightarrow> 65 \<le> last_kept \<longrightarrow> fgets out 65 t ! last_kept = out ! last_kept)"
    if "65 \<le> length out" for t
    using that by (auto simp: fgets_def Let_def nth_append)
  show "length (sha256_hex popen inp out) = length out"
    using assms g by (auto simp: sha256_hex_def Let_def split: option.split)
  show "sha256_hex popen inp out ! last_kept = NUL"
    if "last_kept < length out" "out ! last_kept = NUL" "65 \<le> last_kept"
  proof (cases "popen (sha256_cmd inp)")
    case None
    with that assms show ?thesis
      by (simp add: sha256_hex_def strncpy_def Let_def nth_append cstring_def)
  next
    case (Some t)
    with that assms g [of t] show ?thesis
      by (cases "strcspn_nl (fgets out 65 t) = last_kept") (simp_all add: sha256_hex_def Let_def)
  qed
qed

lemma hash_into_layout: "user_layout u \<Longrightarrow> user_layout (hash_into popen inp u)"
  using sha256_hex_memory(1) [of "password u @ full_name u" popen inp]
    sha256_hex_memory(2) [of "password u @ full_name u" popen inp 127]
  by (auto simp: user_layout_def text_ok_def hash_into_def Let_def MAX_PASSWORD_def MAX_NAME_def nth_append)

lemma new_user_layout: "user_layout (new_user popen q w)"
proof -
  have "text_ok 32 (strncpy (replicate 32 NUL) n 31)" "text_ok 64 (strncpy (replicate 64 NUL) m 63)" for n m
    by (simp_all add: text_ok_strncpy text_ok_zero)
  then show ?thesis
    unfolding new_user_def Let_def
    by (intro hash_into_layout)
      (simp add: user_layout_def zero_User_def MAX_USERNAME_def MAX_NAME_def MAX_PASSWORD_def)
qed

lemma admin_layout [layout_intro]:
  assumes "files_layout w"
  shows "files_layout (handle_add_user popen fd q w)" "files_layout (handle_list_users fd w)"
    "files_layout (handle_change_role fd r w)" "files_layout (handle_toggle_account fd t m w)"
  using assms by (auto simp: handle_add_user_def handle_list_users_def handle_change_role_def
      handle_toggle_account_def Let_def case_prod_beta new_user_layout intro!: layout_intro
      dest: layout_read split: option.split)

lemma soft_admin_layout [layout_intro]:
  assumes "files_layout w"
  shows "files_layout (handle_delete_user fd q w)" "files_layout (handle_modify_user fd m w)"
proof -
  have d: "user_layout (u\<lparr>user_deleted := x\<rparr>) = user_layout u" for u x
    by (simp add: user_layout_def)
  have m: "user_layout u \<Longrightarrow> user_layout (u\<lparr>full_name := strncpy (full_name u) n (MAX_NAME - Suc 0)\<rparr>)" for u n
    by (simp add: user_layout_def MAX_NAME_def text_ok_strncpy)
  show "files_layout (handle_delete_user fd q w)" "files_layout (handle_modify_user fd m w)"
    using assms by (auto simp: handle_delete_user_def handle_modify_user_def Let_def d
        intro!: layout_intro m dest: layout_read split: option.split)
qed

lemma new_dispute_layout: "dispute_layout (new_dispute q u w)"
  by (simp add: new_dispute_def dispute_layout_def zero_Dispute_def MAX_DESC_def text_ok_strncpy text_ok_zero)

lemma decided_layout: "dispute_layout d \<Longrightarrow> dispute_layout (decided q u t d)"
  by (simp add: decided_def dispute_layout_def MAX_DESC_def text_ok_strncpy)

lemma refund_layout [layout_intro]:
  "files_layout w \<Longrightarrow> auction_layout a \<Longrightarrow> files_layout (refund d a w)"
  by (auto simp: refund_def Let_def auction_layout_def intro!: layout_intro split: option.split)

lemma dispute_handlers_layout [layout_intro]:
  assumes "files_layout w"
  shows "files_layout (handle_file_dispute fd q u w)" "files_layout (handle_view_disputes fd w)"
  using assms by (auto simp: handle_file_dispute_def handle_view_disputes_def Let_def case_prod_beta
      new_dispute_layout intro!: layout_intro dest: layout_read split: option.split)

lemma resolve_layout [layout_intro]:
  assumes "files_layout w"
  shows "files_layout (handle_resolve_dispute fd q u w)"
proof (cases "read_dispute (resolve_dispute_id q) w")
  case None
  with assms show ?thesis by (auto simp: handle_resolve_dispute_def intro!: layout_intro)
next
  case (Some d)
  let ?d = "decided q u (now w) d"
  have "dispute_layout ?d" using layout_read(3) [OF Some assms] by (rule decided_layout)
  with assms have l: "files_layout (snd (write_dispute ?d w))" by (intro layout_intro)
  then show ?thesis
    using assms by (auto simp: handle_resolve_dispute_def Some Let_def intro!: layout_intro
        dest: layout_read(2) [OF _ assms] split: option.split)
qed

lemma view_feedback_layout [layout_intro]:
  assumes "files_layout w"
  shows "files_layout (handle_view_feedback fd w)"
proof (cases "feedback_file w")
  case None
  with assms show ?thesis by (auto simp: handle_view_feedback_def intro!: layout_intro)
next
  case (Some recs)
  have "\<forall>f \<in> set (records (Some (review_loop 0 recs))). feedback_layout f"
    using files_layout_parts(5) [OF assms] by (auto simp: Some review_loop_prefix feedback_layout_def)
  from files_layout_update(5) [OF assms this] assms show ?thesis
    by (auto simp: handle_view_feedback_def Some Let_def intro!: layout_intro)
qed

lemma create_layout [layout_intro]:
  assumes "files_layout w" and "dbl_ok (create_start_price q)" and "dbl_ok (create_reserve_price q)"
  shows "files_layout (handle_create_auction fd q u w)"
proof -
  have "auction_layout (new_auction q u w)"
    using assms by (simp add: new_auction_def auction_layout_def zero_Auction_def MAX_ITEM_NAME_def MAX_DESC_def
        text_ok_strncpy text_ok_zero)
  then show ?thesis
    using assms by (auto simp: handle_create_auction_def Let_def case_prod_beta intro!: layout_intro)
qed

lemma mark_winning_layout [layout_intro]:
  assumes "files_layout w"
  shows "files_layout (mark_winning_bids a w)"
proof (cases "bids_file w")
  case None
  with assms show ?thesis by (simp add: mark_winning_bids_def)
next
  case (Some recs)
  have "\<forall>b \<in> set (records (Some (mark_loop a 0 recs))). bid_layout b"
    using files_layout_parts(3) [OF assms] by (auto simp: Some mark_loop_prefix mark_def bid_layout_def)
  from files_layout_update(3) [OF assms this] assms show ?thesis by (simp add: mark_winning_bids_def Some)
qed

lemma close_layout [layout_intro]:
  assumes "files_layout w" and a: "auction_layout a"
  shows "files_layout (snd (close_auction_internal a w))"
proof -
  have "dbl_ok (current_bid a)" using a by (simp add: auction_layout_def)
  with assms show ?thesis
    by (auto simp: close_auction_internal_def Let_def intro!: layout_intro)
qed

lemma timer_layout [layout_intro]:
  assumes "files_layout w"
  shows "files_layout (handle_close_auction fd q u w)" "files_layout (timer_tick w)"
proof -
  show "files_layout (handle_close_auction fd q u w)"
    using assms by (auto simp: handle_close_auction_def Let_def case_prod_beta intro!: layout_intro
        dest: layout_read split: option.split)
  have step: "files_layout v \<Longrightarrow> files_layout (timer_close i v)" for i v
    by (auto simp: timer_close_def case_prod_beta intro!: layout_intro dest: layout_read split: option.split)
  have "files_layout v \<Longrightarrow> files_layout (fold timer_close is v)" for "is" v
    by (induction "is" arbitrary: v) (simp_all add: step)
  with assms show "files_layout (timer_tick w)" by (simp add: timer_tick_def split: option.split)
qed

lemma bid_layout_handlers [layout_intro]:
  assumes "files_layout w"
  shows "files_layout (handle_view_auctions fd w)" "files_layout (handle_view_my_bids fd u w)"
    "files_layout (handle_view_balance fd u w)" "files_layout (handle_submit_feedback fd f u w)"
proof -
  have "feedback_layout \<lparr>feedback_id = i, from_user_id = j, about_auction_id = k,
      feedback_message = strncpy (replicate MAX_FEEDBACK NUL) m (MAX_FEEDBACK - Suc 0),
      submitted_at = t, reviewed = b\<rparr>" for i j k m t b
    by (simp add: feedback_layout_def MAX_FEEDBACK_def text_ok_strncpy text_ok_zero)
  with assms show "files_layout (handle_submit_feedback fd f u w)"
    by (auto simp: handle_submit_feedback_def Let_def case_prod_beta intro!: layout_intro split: option.split)
qed (use assms in \<open>auto simp: handle_view_auctions_def handle_view_my_bids_def handle_view_balance_def Let_def
    intro!: layout_intro split: option.split\<close>)

lemma place_bid_layout [layout_intro]:
  assumes w: "files_layout w" and q: "dbl_ok (bid_req_amount q)"
  shows "files_layout (handle_place_bid fd q u w)"
proof -
  have b: "bid_layout (\<lparr>bid_id = i, bid_auction_id = j, bidder_id = k, bid_amount = bid_req_amount q,
      placed_at = t, is_winning = f\<rparr>)" for i j k t f
    using q by (simp add: bid_layout_def)
  have a: "auction_layout (x\<lparr>current_bid := bid_req_amount q, highest_bidder_id := i, bid_count := n\<rparr>)"
    if "auction_layout x" for x i n
    using that q by (simp add: auction_layout_def)
  have p: "dbl_ok (current_bid x)" if "auction_layout x" for x using that by (simp add: auction_layout_def)
  have "files_layout (snd (place_bid_critical q u w))"
    using w q by (auto simp: place_bid_critical_def Let_def case_prod_beta intro!: layout_intro a b p
        dest: layout_read split: option.split)
  then show ?thesis
    using w by (auto simp: handle_place_bid_def place_bid_respond_def Let_def case_prod_beta
        intro!: layout_intro split: option.split sum.split)
qed

lemma serve_layout:
  assumes "files_layout w" and "user_layout (current_user c)" and "typed_request rq"
  shows "files_layout (snd (serve_request popen rq c w)) \<and>
    user_layout (current_user (fst (serve_request popen rq c w)))"
  using assms
  by (cases rq) (auto simp: serve_request_def case_prod_beta intro!: layout_intro deposit_layout login_layout
      change_password_layout)

lemma serve_stream_layout:
  assumes "files_layout w" and "user_layout (current_user c)"
  shows "files_layout (snd (serve_stream popen s c w))"
  using assms
proof (induction popen s c w rule: serve_stream.induct)
  case (1 popen s c w)
  show ?case
  proof (cases "recv_msg 4096 (replicate 4096 NUL) s")
    case None
    with "1.prems" show ?thesis by (simp add: serve_stream.simps [of popen s])
  next
    case (Some r)
    then obtain h buf t where r: "recv_msg 4096 (replicate 4096 NUL) s = Some (h, buf, t)" by (cases r) auto
    obtain c' w' where sr: "serve_request popen (dec_request (hdr_type h) buf) c w = (c', w')"
      by (cases "serve_request popen (dec_request (hdr_type h) buf) c w")
    have "files_layout w' \<and> user_layout (current_user c')"
      using serve_layout [OF "1.prems" typed_dec_request, of popen "hdr_type h" buf] by (simp add: sr)
    with "1.IH" [OF r refl refl sr [symmetric] refl] r sr show ?thesis
      by (simp add: serve_stream.simps [of popen s])
  qed
qed

lemma seed_layout: "files_layout w \<Longrightarrow> files_layout (snd (seed_main popen w))"
proof -
  assume w: "files_layout w"
  have "seed_sha256_hex popen inp out = (if popen (sha256_cmd inp) = None then out else sha256_hex popen inp out)"
    for inp out by (auto simp: seed_sha256_hex_def sha256_hex_def)
  moreover have "text_ok 32 (strncpy (replicate 32 NUL) n 31)" "text_ok 64 (strncpy (replicate 64 NUL) m 63)" for n m
    by (simp_all add: text_ok_strncpy text_ok_zero)
  ultimately have "user_layout (seed_admin popen t)" for t
    using sha256_hex_memory(1) [of "replicate 64 NUL @ strncpy (replicate 64 NUL) ''System Admin'' 63" popen "''admin123''"]
      sha256_hex_memory(2) [of "replicate 64 NUL @ strncpy (replicate 64 NUL) ''System Admin'' 63" popen "''admin123''" 127]
    by (simp add: seed_admin_def Let_def user_layout_def zero_User_def MAX_USERNAME_def MAX_PASSWORD_def
        MAX_NAME_def text_ok_def nth_append)
  with w files_layout_update(1) [OF w, of "Some [seed_admin popen (now w)]"] show ?thesis
    by (simp add: seed_main_def)
qed

lemma sample_layout: "files_layout sample_world"
  by (simp add: sample_world_def files_layout_def user_layout_def auction_layout_def text_ok_def c_array_def
      sample_user_def sample_auction_def zero_User_def zero_Auction_def dbl_ok_rs MAX_USERNAME_def MAX_PASSWORD_def
      MAX_NAME_def MAX_ITEM_NAME_def MAX_DESC_def)

section \<open>Properties\<close>

text \<open>C14: Every record on file stays well formed: whatever bytes a client sends in a whole conversation,
  and whatever the shell prints, each record the server has written to the five data files has
  arrays of the declared sizes, a terminator at the end of every name, title, reason and message, and
  amounts that are C doubles; so does what the timer and the seed program write.\<close>

theorem records_stay_well_formed:
  assumes "files_layout w"
  shows "files_layout (handle_client_bytes popen fd s w) \<and> files_layout (timer_tick w) \<and>
    files_layout (snd (seed_main popen w))"
proof (intro conjI)
  have "user_layout (current_user (new_conn fd))" by (simp add: new_conn_def zero_layout)
  from serve_stream_layout [OF assms this, of popen s] assms
  show "files_layout (handle_client_bytes popen fd s w)"
    by (auto simp: handle_client_bytes_def cleanup_def Let_def case_prod_beta intro!: layout_intro)
  show "files_layout (timer_tick w)" using assms by (rule layout_intro)
  show "files_layout (snd (seed_main popen w))" using assms by (rule seed_layout)
qed

theorem records_stay_well_formed_witness:
  "files_layout (handle_client_bytes sample_shell 7
     [enc_header \<lparr>hdr_type = 0, hdr_length = 5, hdr_status = 0\<rparr>, ''abc'', ''de''] sample_world)"
  using records_stay_well_formed [OF sample_layout, of sample_shell 7] by blast

end
