(* ===== verification/Wallet_Threads.thy ===== *)
theory Wallet_Threads
  imports Auth
begin

text \<open>
  The wallet mutexes of \<^verbatim>\<open>server/wallet.c\<close>: the four operations in the single steps of the code, each
  thread inside the mutex of its user's bucket from \<^verbatim>\<open>pthread_mutex_lock\<close> to the unlock, and a login
  in the steps of \<^verbatim>\<open>server/auth.c\<close>, which writes the same records without that mutex. A read or a
  write of a record is one step: \<^verbatim>\<open>common/file_io.h\<close> guards it with the mutex of the file. The check
  and the creation of a session are one step because \<^verbatim>\<open>auth_lock\<close> is held from one to the other.

  The theory shows that wallet operations are linearizable: whatever the interleaving, the user file
  and all results are those of running the same calls one after the other. It also shows that the
  mutexes do not protect a wallet from a login.
\<close>

section \<open>The mutexes\<close>

definition WALLET_LOCK_BUCKETS :: nat where "WALLET_LOCK_BUCKETS = 64"

definition get_wallet_lock :: "u32 \<Rightarrow> nat" where
  "get_wallet_lock i = unat i mod WALLET_LOCK_BUCKETS"

section \<open>A wallet operation in steps\<close>

datatype wallet_call = Hold u32 dbl | Release u32 dbl | Settle u32 dbl | Credit u32 dbl

primrec call_user :: "wallet_call \<Rightarrow> u32" where
  "call_user (Hold i a) = i" | "call_user (Release i a) = i" | "call_user (Settle i a) = i" | "call_user (Credit i a) = i"

primrec call_deltas :: "wallet_call \<Rightarrow> dbl \<times> dbl" where
  \<comment> \<open>the arguments of \<^verbatim>\<open>apply_wallet_delta\<close>\<close>
  "call_deltas (Hold i a) = (0, a)"
| "call_deltas (Release i a) = (0, - a)"
| "call_deltas (Settle i a) = (- a, - a)"
| "call_deltas (Credit i a) = (a, 0)"

primrec call_entry :: "wallet_call \<Rightarrow> log_msg" where
  "call_entry (Hold i a) = L_HOLD i a"
| "call_entry (Release i a) = L_RELEASE i a"
| "call_entry (Settle i a) = L_SETTLE i a"
| "call_entry (Credit i a) = L_CREDIT i a"

primrec run_call :: "wallet_call \<Rightarrow> world \<Rightarrow> int \<times> world" where
  \<comment> \<open>the operation without interruption\<close>
  "run_call (Hold i a) w = place_hold i a w"
| "run_call (Release i a) w = release_hold i a w"
| "run_call (Settle i a) w = settle_payment i a w"
| "run_call (Credit i a) w = credit_wallet i a w"

datatype wallet_phase =
    WP_lock \<comment> \<open>about to take the mutex\<close>
  | WP_check \<comment> \<open>\<^verbatim>\<open>place_hold\<close>: about to read the user\<close>
  | WP_read \<comment> \<open>\<^verbatim>\<open>apply_wallet_delta\<close>: about to read the user\<close>
  | WP_write User \<comment> \<open>about to write the local \<^verbatim>\<open>u\<close> back\<close>
  | WP_unlock int bool \<comment> \<open>about to release the mutex; whether a log entry follows\<close>
  | WP_log int
  | WP_done int

definition with_deltas :: "dbl \<times> dbl \<Rightarrow> User \<Rightarrow> User option" where
  \<comment> \<open>the record with the new amounts, or \<open>None\<close> when a guard refuses it\<close>
  "with_deltas d u =
     (let new_balance = wallet_balance u + fst d;
          new_hold = wallet_hold u + snd d
      in if new_balance < 0 then None
         else let new_hold = (if new_hold < 0 then 0 else new_hold)
              in if new_hold > new_balance then None
                 else Some (u\<lparr>wallet_balance := new_balance, wallet_hold := new_hold\<rparr>))"

fun wallet_act :: "wallet_call \<Rightarrow> wallet_phase \<Rightarrow> world \<Rightarrow> wallet_phase \<times> world" where
  \<comment> \<open>one step that does not touch the mutex\<close>
  "wallet_act (Hold i a) WP_check w =
     (case read_user i w of
        None \<Rightarrow> (WP_unlock (-1) False, w)
      | Some u \<Rightarrow>
          let available = wallet_balance u - wallet_hold u
          in (if a > available then WP_unlock (-1) False else WP_read, w))"
| "wallet_act c WP_read w =
     (case read_user (call_user c) w of
        None \<Rightarrow> (WP_unlock (-1) True, w)
      | Some u \<Rightarrow>
          (case with_deltas (call_deltas c) u of None \<Rightarrow> WP_unlock (-1) True | Some u \<Rightarrow> WP_write u, w))"
| "wallet_act c (WP_write u) w = (let (result, w) = write_user u w in (WP_unlock result True, w))"
| "wallet_act c (WP_log result) w = (WP_done result, log_txn (call_entry c) w)"
| "wallet_act c p w = (p, w)"

definition first_phase :: "wallet_call \<Rightarrow> wallet_phase" where
  \<comment> \<open>what follows the lock\<close>
  "first_phase c = (case c of Hold i a \<Rightarrow> WP_check | _ \<Rightarrow> WP_read)"

section \<open>A login in steps\<close>

record login =
  l_fd :: int
  l_req :: LoginPayload

datatype login_phase =
    LG_find \<comment> \<open>steps 1 to 3\<close>
  | LG_session User \<comment> \<open>steps 4 and 5, under \<^verbatim>\<open>auth_lock\<close>\<close>
  | LG_register User
  | LG_write User \<comment> \<open>step 6\<close>
  | LG_reply User \<comment> \<open>step 7\<close>
  | LG_done bool

fun login_act :: "shell \<Rightarrow> login \<Rightarrow> login_phase \<Rightarrow> world \<Rightarrow> login_phase \<times> world" where
  "login_act popen l LG_find w =
     (case find_user_by_username (login_username (l_req l)) w of
        None \<Rightarrow> (LG_done False, send_msg (l_fd l) MSG_LOGIN_RESP ERR_AUTH_FAIL P_None w)
      | Some u \<Rightarrow>
          if acct_status u = ACCOUNT_BANNED
          then (LG_done False, send_msg (l_fd l) MSG_LOGIN_RESP ERR_ACCOUNT_BANNED P_None w)
          else if acct_status u = ACCOUNT_INACTIVE
          then (LG_done False, send_msg (l_fd l) MSG_LOGIN_RESP ERR_ACCOUNT_BANNED P_None w)
          else if \<not> strncmp_eq (hash_of popen (login_password (l_req l))) (password u) 64
          then (LG_done False, send_msg (l_fd l) MSG_LOGIN_RESP ERR_AUTH_FAIL P_None w)
          else (LG_session u, w))"
| "login_act popen l (LG_session u) w =
     (if find_session_slot (user_id u) w \<ge> 0
      then (LG_done False, send_msg (l_fd l) MSG_LOGIN_RESP ERR_ALREADY_LOGGED P_None w)
      else
        let (slot, w) = find_free_slot w
        in if slot < 0 then (LG_done False, send_msg (l_fd l) MSG_LOGIN_RESP ERR_INTERNAL P_None w)
           else (LG_register u, snd (write_session slot \<lparr>session_user_id = user_id u, session_fd = l_fd l,
                   login_time = now w, is_active = True\<rparr> w)))"
| "login_act popen l (LG_register u) w = (LG_write u, notify_register (user_id u) (l_fd l) w)"
| "login_act popen l (LG_write u) w =
     (let u = u\<lparr>last_login := now w\<rparr> in (LG_reply u, snd (write_user u w)))"
| "login_act popen l (LG_reply u) w =
     (LG_done True, log_txn (L_LOGIN (user_id u) (username u)) (send_msg (l_fd l) MSG_LOGIN_RESP ERR_OK (P_User u) w))"
| "login_act popen l (LG_done r) w = (LG_done r, w)"

section \<open>The interleaving\<close>

datatype wallet_thread = Wallet wallet_call wallet_phase | Login login login_phase

record wallet_sys =
  ws_world :: world
  ws_locks :: "nat \<Rightarrow> bool"
  ws_threads :: "nat \<Rightarrow> wallet_thread option"

fun begins :: "wallet_thread \<Rightarrow> bool" where
  "begins (Wallet c p) = (p = WP_lock)"
| "begins (Login l p) = (p = LG_find)"

inductive wallet_step :: "shell \<Rightarrow> (wallet_thread \<Rightarrow> bool) \<Rightarrow> wallet_sys \<Rightarrow> wallet_sys \<Rightarrow> bool"
  for popen :: shell and kinds :: "wallet_thread \<Rightarrow> bool" where
  enter: "ws_threads s t = None \<Longrightarrow> begins th \<Longrightarrow> kinds th \<Longrightarrow>
     wallet_step popen kinds s (s\<lparr>ws_threads := (ws_threads s)(t \<mapsto> th)\<rparr>)"
| lock: "ws_threads s t = Some (Wallet c WP_lock) \<Longrightarrow> \<not> ws_locks s (get_wallet_lock (call_user c)) \<Longrightarrow>
     wallet_step popen kinds s
       (s\<lparr>ws_locks := (ws_locks s)(get_wallet_lock (call_user c) := True),
          ws_threads := (ws_threads s)(t \<mapsto> Wallet c (first_phase c))\<rparr>)"
| unlock: "ws_threads s t = Some (Wallet c (WP_unlock r logs)) \<Longrightarrow>
     wallet_step popen kinds s
       (s\<lparr>ws_locks := (ws_locks s)(get_wallet_lock (call_user c) := False),
          ws_threads := (ws_threads s)(t \<mapsto> Wallet c (if logs then WP_log r else WP_done r))\<rparr>)"
| wallet: "ws_threads s t = Some (Wallet c p) \<Longrightarrow> wallet_act c p (ws_world s) = (p', w') \<Longrightarrow>
     wallet_step popen kinds s (s\<lparr>ws_world := w', ws_threads := (ws_threads s)(t \<mapsto> Wallet c p')\<rparr>)"
| login: "ws_threads s t = Some (Login l p) \<Longrightarrow> login_act popen l p (ws_world s) = (p', w') \<Longrightarrow>
     wallet_step popen kinds s (s\<lparr>ws_world := w', ws_threads := (ws_threads s)(t \<mapsto> Login l p')\<rparr>)"
| clock: "now (ws_world s) \<le> n \<Longrightarrow>
     wallet_step popen kinds s (s\<lparr>ws_world := (ws_world s)\<lparr>now := n\<rparr>\<rparr>)"

inductive wallet_reach :: "shell \<Rightarrow> (wallet_thread \<Rightarrow> bool) \<Rightarrow> wallet_sys \<Rightarrow> wallet_sys \<Rightarrow> bool"
  for popen :: shell and kinds :: "wallet_thread \<Rightarrow> bool" and start :: wallet_sys where
  here: "wallet_reach popen kinds start start"
| further: "wallet_reach popen kinds start s \<Longrightarrow> wallet_step popen kinds s s' \<Longrightarrow> wallet_reach popen kinds start s'"

definition no_threads :: "world \<Rightarrow> wallet_sys" where
  "no_threads w = \<lparr>ws_world = w, ws_locks = (\<lambda>_. False), ws_threads = (\<lambda>_. None)\<rparr>"

fun wallet_only :: "wallet_thread \<Rightarrow> bool" where
  "wallet_only (Wallet c p) = True"
| "wallet_only (Login l p) = False"

section \<open>The uninterrupted operation\<close>

lemma apply_with_deltas:
  "apply_wallet_delta i (fst d) (snd d) w =
     (case read_user i w of
        None \<Rightarrow> (-1, w)
      | Some u \<Rightarrow> (case with_deltas d u of None \<Rightarrow> (-1, w) | Some u' \<Rightarrow> write_user u' w))"
  by (simp add: apply_wallet_delta_def with_deltas_def Let_def split: option.split)

fun covered :: "wallet_call \<Rightarrow> world \<Rightarrow> bool" where
  \<comment> \<open>the check of \<^verbatim>\<open>place_hold\<close>\<close>
  "covered (Hold i a) w \<longleftrightarrow> (\<exists>u. read_user i w = Some u \<and> \<not> a > wallet_balance u - wallet_hold u)"
| "covered _ w \<longleftrightarrow> True"

lemma run_call_shape:
  "run_call c w =
     (if covered c w
      then let r = apply_wallet_delta (call_user c) (fst (call_deltas c)) (snd (call_deltas c)) w
           in (fst r, log_txn (call_entry c) (snd r))
      else (-1, w))"
  by (cases c) (auto simp: wallet_shapes Let_def)

lemma with_deltas_id: "with_deltas d u = Some u' \<Longrightarrow> user_id u' = user_id u"
  by (auto simp: with_deltas_def Let_def split: if_splits)

lemma run_call_cong:
  assumes "users_file v = users_file w" and "writable v = writable w"
  shows "covered c v = covered c w" "fst (run_call c v) = fst (run_call c w)"
    "users_file (snd (run_call c v)) = users_file (snd (run_call c w))"
    "writable (snd (run_call c v)) = writable v"
proof -
  have r: "read_user i v = read_user i w" for i using assms by (simp add: read_user_def)
  show c: "covered c v = covered c w" by (cases c) (simp_all add: r)
  show "fst (run_call c v) = fst (run_call c w)" "users_file (snd (run_call c v)) = users_file (snd (run_call c w))"
    "writable (snd (run_call c v)) = writable v"
    using assms by (auto simp: run_call_shape c apply_with_deltas r Let_def write_user_def split: option.split)
qed

primrec replay :: "(wallet_call \<times> int) list \<Rightarrow> world \<Rightarrow> world option" where
  \<comment> \<open>the calls one after the other; \<open>None\<close> when one does not have the given result\<close>
  "replay [] w = Some w"
| "replay (x # xs) w =
     (let (r, w) = run_call (fst x) w in if r = snd x then replay xs w else None)"

lemma replay_snoc:
  "replay (xs @ [(c, r)]) w =
     (case replay xs w of
        None \<Rightarrow> None
      | Some w \<Rightarrow> if fst (run_call c w) = r then Some (snd (run_call c w)) else None)"
  by (induction xs arbitrary: w) (simp_all add: case_prod_beta)

section \<open>What holds of a thread\<close>

fun inside :: "wallet_thread \<Rightarrow> nat \<Rightarrow> bool" where
  \<comment> \<open>the thread holds the mutex of the bucket\<close>
  "inside (Wallet c p) b \<longleftrightarrow>
     get_wallet_lock (call_user c) = b \<and>
     (case p of WP_lock \<Rightarrow> False | WP_log r \<Rightarrow> False | WP_done r \<Rightarrow> False | _ \<Rightarrow> True)"
| "inside (Login l p) b \<longleftrightarrow> False"

fun outcome :: "wallet_thread \<Rightarrow> (wallet_call \<times> int) option" where
  \<comment> \<open>the call and its result once that is decided\<close>
  "outcome (Wallet c (WP_unlock r logs)) = Some (c, r)"
| "outcome (Wallet c (WP_log r)) = Some (c, r)"
| "outcome (Wallet c (WP_done r)) = Some (c, r)"
| "outcome _ = None"

fun thread_ok :: "world \<Rightarrow> wallet_thread \<Rightarrow> bool" where
  \<comment> \<open>what a thread has checked still holds, and what it is about to write is up to date\<close>
  "thread_ok w (Wallet c WP_read) \<longleftrightarrow> covered c w"
| "thread_ok w (Wallet c (WP_write u)) \<longleftrightarrow>
     covered c w \<and> (\<exists>v. read_user (call_user c) w = Some v \<and> with_deltas (call_deltas c) v = Some u)"
| "thread_ok w _ \<longleftrightarrow> True"

lemma thread_ok_cong:
  assumes "read_user (call_user c) w' = read_user (call_user c) w"
  shows "thread_ok w' (Wallet c p) = thread_ok w (Wallet c p)"
  using assms by (cases c; cases p) simp_all

lemma act_decided:
  assumes "outcome (Wallet c p) = Some x" and "wallet_act c p w = (p', w')"
  shows "outcome (Wallet c p') = Some x \<and> users_file w' = users_file w \<and> thread_ok w' (Wallet c p')"
  using assms by (cases p) auto

lemma act_undecided:
  assumes "thread_ok w (Wallet c p)" and "outcome (Wallet c p) = None" and "wallet_act c p w = (p', w')"
    and "outcome (Wallet c p') = None"
  shows "users_file w' = users_file w \<and> thread_ok w' (Wallet c p')"
  using assms by (cases c; cases p) (auto simp: Let_def case_prod_beta split: option.splits if_splits)

lemma act_decides:
  assumes "thread_ok w (Wallet c p)" and "outcome (Wallet c p) = None" and "wallet_act c p w = (p', w')"
    and "outcome (Wallet c p') = Some x"
  shows "x = (c, fst (run_call c w)) \<and> users_file w' = users_file (snd (run_call c w)) \<and> thread_ok w' (Wallet c p')"
proof (cases p)
  case WP_check
  with assms show ?thesis
    by (cases c) (auto simp: run_call_shape Let_def split: option.splits if_splits)
next
  case WP_read
  with assms show ?thesis
    by (auto simp: run_call_shape apply_with_deltas Let_def split: option.splits)
next
  case (WP_write u)
  with assms show ?thesis
    by (auto simp: run_call_shape apply_with_deltas Let_def case_prod_beta)
qed (use assms in auto)

lemma act_writes:
  assumes "thread_ok w (Wallet c p)" and "wallet_act c p w = (p', w')" and "numbered user_id (users w)"
  shows "writable w' = writable w \<and> numbered user_id (users w') \<and>
    (\<forall>i. i \<noteq> call_user c \<longrightarrow> read_user i w' = read_user i w)"
proof (cases "\<exists>u. p = WP_write u")
  case True
  then obtain u where p: "p = WP_write u" ..
  with assms obtain v where v: "read_user (call_user c) w = Some v" "with_deltas (call_deltas c) v = Some u" by auto
  then have id: "user_id u = call_user c" using with_deltas_id ut.rd_ident [OF assms(3)] by metis
  have w': "w' = snd (write_user u w)" using assms(2) p by (auto simp: case_prod_beta)
  show ?thesis
    using ut.numbered_update [OF assms(3) v(1) id] ut.rd_update [OF v(1) id] by (simp add: w')
next
  case False
  then have "users_file w' = users_file w \<and> writable w' = writable w"
    using assms(2) by (cases c; cases p) (auto simp: Let_def split: option.splits if_splits)
  with assms(3) show ?thesis by (simp add: read_user_def)
qed

lemma act_inside:
  assumes "wallet_act c p w = (p', w')"
  shows "inside (Wallet c p') b = inside (Wallet c p) b"
  using assms by (cases c; cases p) (auto simp: Let_def case_prod_beta split: option.splits if_splits)

section \<open>The invariant of the interleavings\<close>

definition holds :: "wallet_sys \<Rightarrow> nat \<Rightarrow> nat \<Rightarrow> bool" where
  "holds s t b \<longleftrightarrow> (\<exists>th. ws_threads s t = Some th \<and> inside th b)"

definition exclusive :: "wallet_sys \<Rightarrow> bool" where
  "exclusive s \<longleftrightarrow> (\<forall>b. ws_locks s b = (\<exists>t. holds s t b) \<and> (\<forall>t t'. holds s t b \<and> holds s t' b \<longrightarrow> t = t'))"

definition decided :: "wallet_sys \<Rightarrow> nat \<Rightarrow> (wallet_call \<times> int) option" where
  "decided s t = Option.bind (ws_threads s t) outcome"

definition serial :: "world \<Rightarrow> wallet_sys \<Rightarrow> (nat \<times> wallet_call \<times> int) list \<Rightarrow> bool" where
  \<comment> \<open>an order of the decided calls that explains the user file\<close>
  "serial w0 s L \<longleftrightarrow> distinct (map fst L) \<and> (\<forall>t x. (t, x) \<in> set L \<longleftrightarrow> decided s t = Some x) \<and>
     (\<exists>w1. replay (map snd L) w0 = Some w1 \<and> users_file w1 = users_file (ws_world s) \<and>
       writable w1 = writable (ws_world s))"

definition wallet_inv :: "world \<Rightarrow> wallet_sys \<Rightarrow> bool" where
  "wallet_inv w0 s \<longleftrightarrow> exclusive s \<and> numbered user_id (users (ws_world s)) \<and>
     (\<forall>t th. ws_threads s t = Some th \<longrightarrow> wallet_only th \<and> thread_ok (ws_world s) th) \<and> (\<exists>L. serial w0 s L)"

lemma exclusive_same:
  assumes "exclusive s" and "ws_threads s t = Some (Wallet c p)" and "\<And>b. inside (Wallet c p') b = inside (Wallet c p) b"
  shows "exclusive (s\<lparr>ws_world := w', ws_threads := (ws_threads s)(t \<mapsto> Wallet c p')\<rparr>)"
proof -
  have "holds (s\<lparr>ws_world := w', ws_threads := (ws_threads s)(t \<mapsto> Wallet c p')\<rparr>) t' b = holds s t' b" for t' b
    using assms(2,3) by (simp add: holds_def)
  with assms(1) show ?thesis by (simp add: exclusive_def)
qed

lemma serial_same:
  assumes "serial w0 s L" and "ws_threads s t = Some th" and "outcome th' = outcome th"
    and "users_file w' = users_file (ws_world s)" and "writable w' = writable (ws_world s)"
  shows "serial w0 (s\<lparr>ws_world := w', ws_threads := (ws_threads s)(t \<mapsto> th')\<rparr>) L"
proof -
  have "decided (s\<lparr>ws_world := w', ws_threads := (ws_threads s)(t \<mapsto> th')\<rparr>) t' = decided s t'" for t'
    using assms(2,3) by (simp add: decided_def)
  with assms show ?thesis by (simp add: serial_def)
qed

lemma serial_extend:
  assumes "serial w0 s L" and "ws_threads s t = Some (Wallet c p)" and "outcome (Wallet c p) = None"
    and "outcome (Wallet c p') = Some (c, fst (run_call c (ws_world s)))"
    and "users_file w' = users_file (snd (run_call c (ws_world s)))" and "writable w' = writable (ws_world s)"
  shows "serial w0 (s\<lparr>ws_world := w', ws_threads := (ws_threads s)(t \<mapsto> Wallet c p')\<rparr>)
    (L @ [(t, c, fst (run_call c (ws_world s)))])"
proof -
  let ?s = "s\<lparr>ws_world := w', ws_threads := (ws_threads s)(t \<mapsto> Wallet c p')\<rparr>"
  let ?r = "fst (run_call c (ws_world s))"
  from assms(1) obtain w1 where L: "distinct (map fst L)" "\<forall>t x. (t, x) \<in> set L \<longleftrightarrow> decided s t = Some x"
    and w1: "replay (map snd L) w0 = Some w1" "users_file w1 = users_file (ws_world s)" "writable w1 = writable (ws_world s)"
    by (auto simp: serial_def)
  have d: "decided s t = None" using assms(2,3) by (simp add: decided_def)
  then have "t \<notin> fst ` set L" using L(2) by force
  moreover have "decided ?s t' = (if t' = t then Some (c, ?r) else decided s t')" for t'
    using assms(4) by (simp add: decided_def)
  then have "\<forall>t' x. (t', x) \<in> set (L @ [(t, c, ?r)]) \<longleftrightarrow> decided ?s t' = Some x" using L(2) d by auto
  moreover have "replay (map snd (L @ [(t, c, ?r)])) w0 = Some (snd (run_call c w1))"
    using w1(1) run_call_cong(2) [OF w1(2,3)] by (simp add: replay_snoc)
  ultimately show ?thesis
    using L(1) run_call_cong(3,4) [OF w1(2,3)] assms(5,6) w1(3) by (simp add: serial_def)
qed

lemma others_ok:
  assumes inv: "wallet_inv w0 s" and t: "ws_threads s t = Some (Wallet c p)" and act: "wallet_act c p (ws_world s) = (p', w')"
    and t': "ws_threads s t' = Some th" "t' \<noteq> t"
  shows "thread_ok w' th"
proof -
  from inv t' have ok: "thread_ok (ws_world s) th" "wallet_only th" by (auto simp: wallet_inv_def)
  then obtain d q where th: "th = Wallet d q" by (cases th) auto
  show ?thesis
  proof (cases "users_file w' = users_file (ws_world s)")
    case True
    then have "read_user i w' = read_user i (ws_world s)" for i by (simp add: read_user_def)
    with ok(1) th thread_ok_cong show ?thesis by blast
  next
    case False
    then have p: "inside (Wallet c p) (get_wallet_lock (call_user c))"
      using act by (cases c; cases p) (auto simp: Let_def split: option.splits if_splits)
    show ?thesis
    proof (cases "call_user d = call_user c")
      case True
      have "\<not> inside th (get_wallet_lock (call_user c))"
        using inv t t' p unfolding wallet_inv_def exclusive_def holds_def by metis
      then show ?thesis using True by (cases q) (simp_all add: th)
    next
      case False
      have "thread_ok (ws_world s) (Wallet c p)" "numbered user_id (users (ws_world s))"
        using inv t by (auto simp: wallet_inv_def)
      from act_writes [OF this(1) act this(2)] False
      have "read_user (call_user d) w' = read_user (call_user d) (ws_world s)" by simp
      with ok(1) th thread_ok_cong show ?thesis by blast
    qed
  qed
qed

lemma wallet_inv_act:
  assumes inv: "wallet_inv w0 s" and t: "ws_threads s t = Some (Wallet c p)" and act: "wallet_act c p (ws_world s) = (p', w')"
  shows "wallet_inv w0 (s\<lparr>ws_world := w', ws_threads := (ws_threads s)(t \<mapsto> Wallet c p')\<rparr>)"
proof -
  let ?s = "s\<lparr>ws_world := w', ws_threads := (ws_threads s)(t \<mapsto> Wallet c p')\<rparr>"
  from inv t have ok: "thread_ok (ws_world s) (Wallet c p)" and num: "numbered user_id (users (ws_world s))"
    and ex: "exclusive s" by (auto simp: wallet_inv_def)
  from inv obtain L where L: "serial w0 s L" by (auto simp: wallet_inv_def)
  note w = act_writes [OF ok act num]
  have "exclusive ?s" using exclusive_same [OF ex t act_inside [OF act]] .
  moreover have "thread_ok w' (Wallet c p') \<and> (\<exists>L. serial w0 ?s L)"
  proof (cases "outcome (Wallet c p)")
    case (Some x)
    note a = act_decided [OF Some act]
    then have "serial w0 ?s L" using w Some by (intro serial_same [OF L t]) auto
    with a show ?thesis by blast
  next
    case None
    show ?thesis
    proof (cases "outcome (Wallet c p')")
      case undecided: None
      note a = act_undecided [OF ok None act undecided]
      then have "serial w0 ?s L" using w None undecided by (intro serial_same [OF L t]) auto
      with a show ?thesis by blast
    next
      case (Some x)
      note a = act_decides [OF ok None act Some]
      then have "serial w0 ?s (L @ [(t, c, fst (run_call c (ws_world s)))])"
        using w Some by (intro serial_extend [OF L t None]) auto
      with a show ?thesis by blast
    qed
  qed
  moreover have "thread_ok w' th" if "ws_threads ?s t' = Some th" "t' \<noteq> t" for t' th
    using others_ok [OF inv t act] that by simp
  ultimately show ?thesis using inv w by (auto simp: wallet_inv_def split: if_splits)
qed

lemma wallet_inv_enter:
  assumes inv: "wallet_inv w0 s" and t: "ws_threads s t = None" and th: "begins th" "wallet_only th"
  shows "wallet_inv w0 (s\<lparr>ws_threads := (ws_threads s)(t \<mapsto> th)\<rparr>)"
proof -
  from th obtain c where c: "th = Wallet c WP_lock" by (cases th) auto
  let ?s = "s\<lparr>ws_threads := (ws_threads s)(t \<mapsto> th)\<rparr>"
  have h: "holds ?s t' b = holds s t' b" for t' b using t by (simp add: holds_def c)
  have d: "decided ?s t' = decided s t'" for t' using t by (simp add: decided_def c)
  have "thread_ok (ws_world s) th \<and> wallet_only th" by (simp add: c)
  with inv show ?thesis unfolding wallet_inv_def exclusive_def serial_def h d by auto
qed

lemma wallet_inv_lock:
  assumes inv: "wallet_inv w0 s" and t: "ws_threads s t = Some (Wallet c WP_lock)"
    and free: "\<not> ws_locks s (get_wallet_lock (call_user c))"
  shows "wallet_inv w0 (s\<lparr>ws_locks := (ws_locks s)(get_wallet_lock (call_user c) := True),
    ws_threads := (ws_threads s)(t \<mapsto> Wallet c (first_phase c))\<rparr>)"
proof -
  let ?b = "get_wallet_lock (call_user c)"
  let ?s = "s\<lparr>ws_locks := (ws_locks s)(?b := True), ws_threads := (ws_threads s)(t \<mapsto> Wallet c (first_phase c))\<rparr>"
  have h: "holds ?s t' b = (if t' = t then b = ?b else holds s t' b)" for t' b
    by (auto simp: holds_def first_phase_def split: wallet_call.splits)
  have n: "\<not> holds s t b" for b using t by (simp add: holds_def)
  have e: "ws_locks s b = (\<exists>t. holds s t b)" "holds s t1 b \<Longrightarrow> holds s t2 b \<Longrightarrow> t1 = t2" for b t1 t2
    using inv by (auto simp: wallet_inv_def exclusive_def)
  have none: "\<not> holds s t' ?b" for t' using free e(1) [of ?b] by auto
  have "exclusive ?s" unfolding exclusive_def
  proof (intro allI conjI impI)
    fix b
    have "(\<exists>t. holds ?s t b) = (b = ?b \<or> (\<exists>t. holds s t b))" using h n by metis
    then show "ws_locks ?s b = (\<exists>t. holds ?s t b)" using e(1) [of b] by simp
    fix t1 t2
    assume "holds ?s t1 b \<and> holds ?s t2 b"
    then show "t1 = t2" using e(2) [of t1 b t2] none by (auto simp: h split: if_splits)
  qed
  moreover have "decided ?s t' = decided s t'" for t'
    using t by (simp add: decided_def first_phase_def split: wallet_call.splits)
  moreover have "thread_ok w (Wallet c (first_phase c))" for w
    by (simp add: first_phase_def split: wallet_call.splits)
  ultimately show ?thesis using inv by (auto simp: wallet_inv_def serial_def)
qed

lemma wallet_inv_unlock:
  assumes inv: "wallet_inv w0 s" and t: "ws_threads s t = Some (Wallet c (WP_unlock r logs))"
  shows "wallet_inv w0 (s\<lparr>ws_locks := (ws_locks s)(get_wallet_lock (call_user c) := False),
    ws_threads := (ws_threads s)(t \<mapsto> Wallet c (if logs then WP_log r else WP_done r))\<rparr>)"
proof -
  let ?b = "get_wallet_lock (call_user c)"
  let ?s = "s\<lparr>ws_locks := (ws_locks s)(?b := False),
    ws_threads := (ws_threads s)(t \<mapsto> Wallet c (if logs then WP_log r else WP_done r))\<rparr>"
  have h: "holds ?s t' b = (t' \<noteq> t \<and> holds s t' b)" for t' b
    by (auto simp: holds_def)
  have o: "holds s t b = (b = ?b)" for b using t by (auto simp: holds_def)
  have e: "ws_locks s b = (\<exists>t. holds s t b)" "holds s t1 b \<Longrightarrow> holds s t2 b \<Longrightarrow> t1 = t2" for b t1 t2
    using inv by (auto simp: wallet_inv_def exclusive_def)
  have "exclusive ?s" unfolding exclusive_def
  proof (intro allI conjI impI)
    fix b
    have "(\<exists>t. holds ?s t b) = (b \<noteq> ?b \<and> (\<exists>t. holds s t b))" using h o e(2) by metis
    then show "ws_locks ?s b = (\<exists>t. holds ?s t b)" using e(1) [of b] by simp
    fix t1 t2
    assume "holds ?s t1 b \<and> holds ?s t2 b"
    then show "t1 = t2" using e(2) [of t1 b t2] by (simp add: h)
  qed
  moreover have "decided ?s t' = decided s t'" for t'
    using t by (simp add: decided_def)
  ultimately show ?thesis using inv by (auto simp: wallet_inv_def serial_def)
qed

lemma wallet_inv_clock:
  assumes "wallet_inv w0 s"
  shows "wallet_inv w0 (s\<lparr>ws_world := (ws_world s)\<lparr>now := n\<rparr>\<rparr>)"
proof -
  have "read_user i ((ws_world s)\<lparr>now := n\<rparr>) = read_user i (ws_world s)" for i by (simp add: read_user_def)
  then have "thread_ok ((ws_world s)\<lparr>now := n\<rparr>) (Wallet c p) = thread_ok (ws_world s) (Wallet c p)" for c p
    by (intro thread_ok_cong) simp
  then have "wallet_only th \<and> thread_ok (ws_world s) th \<Longrightarrow> thread_ok ((ws_world s)\<lparr>now := n\<rparr>) th" for th
    by (cases th) auto
  with assms show ?thesis
    by (auto simp: wallet_inv_def exclusive_def holds_def serial_def decided_def)
qed

lemma wallet_inv_step:
  assumes "wallet_step popen wallet_only s s'" and "wallet_inv w0 s"
  shows "wallet_inv w0 s'"
  using assms(1)
proof cases
  case (login t l p p' w')
  with assms(2) have "wallet_only (Login l p)" unfolding wallet_inv_def by metis
  then show ?thesis by simp
qed (use assms(2) wallet_inv_enter wallet_inv_lock wallet_inv_unlock wallet_inv_act wallet_inv_clock in auto)

lemma wallet_inv_reach:
  assumes "wallet_reach popen wallet_only (no_threads w) s" and "numbered user_id (users w)"
  shows "wallet_inv w s"
  using assms(1)
proof (induction rule: wallet_reach.induct)
  case here
  have "serial w (no_threads w) []" by (simp add: serial_def decided_def no_threads_def)
  then show ?case
    using assms(2) unfolding wallet_inv_def by (auto simp: exclusive_def holds_def no_threads_def)
qed (rule wallet_inv_step)

section \<open>A thread that runs alone\<close>

definition at_phase :: "wallet_sys \<Rightarrow> nat \<Rightarrow> (nat \<Rightarrow> bool) \<Rightarrow> world \<Rightarrow> wallet_thread \<Rightarrow> wallet_sys" where
  "at_phase s t locks w th = s\<lparr>ws_world := w, ws_locks := locks, ws_threads := (ws_threads s)(t \<mapsto> th)\<rparr>"

lemma at_phase_simps [simp]:
  "ws_world (at_phase s t locks w th) = w" "ws_locks (at_phase s t locks w th) = locks"
  "ws_threads (at_phase s t locks w th) = (ws_threads s)(t \<mapsto> th)"
  "(at_phase s t locks w th)\<lparr>ws_world := w', ws_threads := (ws_threads s)(t \<mapsto> th')\<rparr> = at_phase s t locks w' th'"
  "(at_phase s t locks w th)\<lparr>ws_locks := locks', ws_threads := (ws_threads s)(t \<mapsto> th')\<rparr> = at_phase s t locks' w th'"
  by (simp_all add: at_phase_def)

lemma reach_wallet:
  assumes "wallet_reach popen kinds s0 (at_phase s t locks w (Wallet c p))" and "wallet_act c p w = (p', w')"
  shows "wallet_reach popen kinds s0 (at_phase s t locks w' (Wallet c p'))"
  using wallet_reach.further [OF assms(1) wallet_step.wallet [where t = t and c = c and p = p]] assms(2) by simp

lemmas reach_act = reach_wallet [OF _ prod.collapse [symmetric]]

lemma reach_login_step:
  assumes "wallet_reach popen kinds s0 (at_phase s t locks w (Login l p))" and "login_act popen l p w = (p', w')"
  shows "wallet_reach popen kinds s0 (at_phase s t locks w' (Login l p'))"
  using wallet_reach.further [OF assms(1) wallet_step.login [where t = t and l = l and p = p]] assms(2) by simp

lemma reach_trans: "wallet_reach popen kinds s v \<Longrightarrow> wallet_reach popen kinds v x \<Longrightarrow> wallet_reach popen kinds s x"
proof -
  assume s: "wallet_reach popen kinds s v"
  assume "wallet_reach popen kinds v x"
  then show "wallet_reach popen kinds s x"
  proof (induction rule: wallet_reach.induct)
    case here
    show ?case by (rule s)
  next
    case (further y y')
    show ?case using further.IH further.hyps(2) by (rule wallet_reach.further)
  qed
qed

lemma reach_finish:
  assumes "wallet_reach popen kinds s (at_phase s t locks w (Wallet c (WP_unlock r logs)))"
  shows "wallet_reach popen kinds s (at_phase s t (locks(get_wallet_lock (call_user c) := False))
    (if logs then log_txn (call_entry c) w else w) (Wallet c (WP_done r)))"
proof -
  have u: "wallet_reach popen kinds s (at_phase s t (locks(get_wallet_lock (call_user c) := False)) w
      (Wallet c (if logs then WP_log r else WP_done r)))"
    using wallet_reach.further [OF assms wallet_step.unlock [where t = t and c = c]] by simp
  show ?thesis
  proof (cases logs)
    case True
    with u have "wallet_reach popen kinds s (at_phase s t (locks(get_wallet_lock (call_user c) := False)) w (Wallet c (WP_log r)))"
      by simp
    from reach_wallet [OF this, of "WP_done r" "log_txn (call_entry c) w"] True show ?thesis by simp
  next
    case False
    with u show ?thesis by simp
  qed
qed

lemma wallet_alone:
  assumes t: "ws_threads s t = Some (Wallet c WP_lock)" and free: "\<not> ws_locks s (get_wallet_lock (call_user c))"
  shows "wallet_reach popen kinds s
    (at_phase s t (ws_locks s) (snd (run_call c (ws_world s))) (Wallet c (WP_done (fst (run_call c (ws_world s))))))"
proof -
  let ?w = "ws_world s" and ?b = "get_wallet_lock (call_user c)"
  let ?locks = "(ws_locks s)(?b := True)"
  let ?R = "\<lambda>w p. wallet_reach popen kinds s (at_phase s t ?locks w (Wallet c p))"
  have free_again: "(ws_locks s)(?b := False) = ws_locks s" using free by (simp add: fun_upd_idem)
  have start: "?R ?w (first_phase c)"
    using wallet_reach.further [OF wallet_reach.here wallet_step.lock [OF t free]] by (simp add: at_phase_def)
  have check: "?R ?w (if covered c ?w then WP_read else WP_unlock (-1) False)"
  proof (cases c)
    case (Hold i a)
    with start have "?R ?w WP_check" by (simp add: first_phase_def)
    from reach_act [OF this] show ?thesis
      by (cases "read_user i ?w") (simp_all add: Hold Let_def split: if_splits)
  qed (use start in \<open>simp_all add: first_phase_def\<close>)
  show ?thesis
  proof (cases "covered c ?w")
    case False
    with check have "?R ?w (WP_unlock (-1) False)" by simp
    from reach_finish [OF this] False show ?thesis by (simp add: run_call_shape free_again)
  next
    case True
    let ?r = "apply_wallet_delta (call_user c) (fst (call_deltas c)) (snd (call_deltas c)) ?w"
    from check True have read: "?R ?w WP_read" by simp
    have "?R (snd ?r) (WP_unlock (fst ?r) True)"
    proof (cases "Option.bind (read_user (call_user c) ?w) (with_deltas (call_deltas c))")
      case None
      then have "?r = (-1, ?w)" "wallet_act c WP_read ?w = (WP_unlock (-1) True, ?w)"
        by (auto simp: apply_with_deltas split: option.splits bind_splits)
      with reach_act [OF read] show ?thesis by simp
    next
      case (Some u)
      then have r: "?r = write_user u ?w" "wallet_act c WP_read ?w = (WP_write u, ?w)"
        by (auto simp: apply_with_deltas split: option.splits bind_splits)
      from reach_act [OF read] r(2) have "?R ?w (WP_write u)" by simp
      from reach_act [OF this] show ?thesis by (simp add: r(1) case_prod_beta)
    qed
    from reach_finish [OF this] True show ?thesis by (simp add: run_call_shape Let_def free_again)
  qed
qed

lemma login_accepted:
  assumes t: "ws_threads s t = Some (Login l LG_find)" and ok: "login_accepts popen (l_req l) (ws_world s) u"
  shows "\<exists>w. wallet_reach popen kinds s (at_phase s t (ws_locks s) w (Login l (LG_write u))) \<and>
    users_file w = users_file (ws_world s) \<and> writable w = writable (ws_world s) \<and> now w = now (ws_world s) \<and>
    login_act popen l (LG_reply (u\<lparr>last_login := now w\<rparr>)) (snd (write_user (u\<lparr>last_login := now w\<rparr>) w)) =
      (LG_done True, snd (snd (handle_login popen (l_fd l) (l_req l) out (ws_world s))))"
proof -
  let ?w = "ws_world s"
  let ?R = "\<lambda>w p. wallet_reach popen kinds s (at_phase s t (ws_locks s) w (Login l p))"
  let ?slot = "fst (find_free_slot ?w)"
  let ?w1 = "snd (write_session ?slot (session_record (l_fd l) u ?w) (snd (find_free_slot ?w)))"
  have "?R ?w LG_find" using wallet_reach.here [of popen kinds s] t by (simp add: at_phase_def map_upd_triv)
  then have "?R ?w (LG_session u)" by (rule reach_login_step) (use ok in \<open>simp add: login_accepts_def\<close>)
  then have "?R ?w1 (LG_register u)"
    by (rule reach_login_step) (use ok slot_none_iff [of "user_id u" ?w] in
      \<open>auto simp: login_accepts_def session_record_def case_prod_beta not_le\<close>)
  then have "?R (notify_register (user_id u) (l_fd l) ?w1) (LG_write u)" by (rule reach_login_step) simp
  then show ?thesis
    by (intro exI conjI) (assumption, simp_all add: login_success [OF ok] logged_in_world_def)
qed

lemma login_alone:
  assumes "ws_threads s t = Some (Login l LG_find)" and "login_accepts popen (l_req l) (ws_world s) u"
  shows "wallet_reach popen kinds s
    (at_phase s t (ws_locks s) (snd (snd (handle_login popen (l_fd l) (l_req l) out (ws_world s)))) (Login l (LG_done True)))"
proof -
  obtain w where w: "wallet_reach popen kinds s (at_phase s t (ws_locks s) w (Login l (LG_write u)))"
    "login_act popen l (LG_reply (u\<lparr>last_login := now w\<rparr>)) (snd (write_user (u\<lparr>last_login := now w\<rparr>) w)) =
      (LG_done True, snd (snd (handle_login popen (l_fd l) (l_req l) out (ws_world s))))"
    using login_accepted [OF assms] by metis
  from reach_login_step [OF w(1)] have
    "wallet_reach popen kinds s (at_phase s t (ws_locks s) (snd (write_user (u\<lparr>last_login := now w\<rparr>) w))
       (Login l (LG_reply (u\<lparr>last_login := now w\<rparr>))))" by (simp add: Let_def)
  from reach_login_step [OF this w(2)] show ?thesis .
qed

lemma run_call_now: "now (snd (run_call c w)) = now w"
  by (cases c) simp_all

definition at_once :: wallet_sys where
  \<comment> \<open>user 3 logs in while 100 rupees are credited to the account\<close>
  "at_once = (no_threads sample_world)\<lparr>ws_threads :=
     [1 \<mapsto> Login \<lparr>l_fd = 7, l_req = sample_login\<rparr> LG_find, 2 \<mapsto> Wallet (Credit 3 (rs 100)) WP_lock]\<rparr>"

section \<open>Properties\<close>

text \<open>C19: The wallet operations are linearizable: however the steps of any number of threads interleave,
  there is an order of the calls in which running them one after the other gives every finished
  call the result it returned and leaves the user file as it is. No update is lost, and the guards
  of the wallet hold as if there were one thread.\<close>

theorem wallet_operations_serialise:
  assumes "wallet_reach popen wallet_only (no_threads w) s" and "numbered user_id (users w)"
  shows "\<exists>L w'. distinct (map fst L) \<and>
    (\<forall>t c r. ws_threads s t = Some (Wallet c (WP_done r)) \<longrightarrow> (t, c, r) \<in> set L) \<and>
    (\<forall>t c r. (t, c, r) \<in> set L \<longrightarrow> (\<exists>p. ws_threads s t = Some (Wallet c p))) \<and>
    replay (map snd L) w = Some w' \<and> users w' = users (ws_world s)"
proof -
  from wallet_inv_reach [OF assms] obtain L where inv: "wallet_inv w s" and L: "serial w s L"
    by (auto simp: wallet_inv_def)
  have "\<exists>p. ws_threads s t = Some (Wallet c p)" if "(t, c, r) \<in> set L" for t c r
  proof -
    have "decided s t = Some (c, r)" using L that by (simp add: serial_def)
    then obtain th where th: "ws_threads s t = Some th" "outcome th = Some (c, r)"
      by (auto simp: decided_def split: bind_splits)
    then show ?thesis by (cases th rule: outcome.cases) auto
  qed
  moreover have "(t, c, r) \<in> set L" if "ws_threads s t = Some (Wallet c (WP_done r))" for t c r
    using L that by (simp add: serial_def decided_def)
  ultimately show ?thesis using L by (auto simp: serial_def)
qed

theorem wallet_operations_serialise_witness:
  "\<exists>(s :: wallet_sys) L w'. ws_threads s 1 = Some (Wallet (Credit 3 (rs 100)) (WP_done (fst (credit_wallet 3 (rs 100) sample_world)))) \<and>
     (1 :: nat, Credit 3 (rs 100), fst (credit_wallet 3 (rs 100) sample_world)) \<in> set L \<and>
     replay (map snd L) sample_world = Some w' \<and> users w' = users (ws_world s)"
proof -
  let ?s = "(no_threads sample_world)\<lparr>ws_threads := [1 \<mapsto> Wallet (Credit 3 (rs 100)) WP_lock]\<rparr>"
  have "wallet_reach sample_shell wallet_only (no_threads sample_world) ?s"
    using wallet_reach.further [OF wallet_reach.here wallet_step.enter [of "no_threads sample_world" 1 "Wallet (Credit 3 (rs 100)) WP_lock"]]
    by (simp add: no_threads_def)
  from reach_trans [OF this wallet_alone [of ?s 1 "Credit 3 (rs 100)"]]
  obtain s where s: "wallet_reach sample_shell wallet_only (no_threads sample_world) s"
    "ws_threads s 1 = Some (Wallet (Credit 3 (rs 100)) (WP_done (fst (credit_wallet 3 (rs 100) sample_world))))"
    by (force simp: no_threads_def)
  from wallet_operations_serialise [OF s(1) sample_numbered(1)] obtain L w' where
    "\<forall>t c r. ws_threads s t = Some (Wallet c (WP_done r)) \<longrightarrow> (t, c, r) \<in> set L"
    "replay (map snd L) sample_world = Some w'" "users w' = users (ws_world s)" by auto
  with s(2) show ?thesis by (intro exI [of _ s] exI [of _ L] exI [of _ w']) simp
qed

text \<open>C31: The mutexes do not protect a wallet from a login: a login writes back the record that it read at
  its beginning. When a wallet operation of the same user runs in between, it succeeds and is undone:
  the login ends with the balance and the hold of before, so a deposit is lost, or a payment.\<close>

theorem login_undoes_wallet_call:
  assumes "ws_threads s t1 = Some (Login l LG_find)" and "ws_threads s t2 = Some (Wallet c WP_lock)"
    and "\<not> ws_locks s (get_wallet_lock (call_user c))" and "w = ws_world s"
    and "login_accepts popen (l_req l) w u" and "call_user c = user_id u" and "fst (run_call c w) = 0"
    and "numbered user_id (users w)" and "writable w FILE_USERS"
  shows "\<exists>s'. wallet_reach popen kinds s s' \<and> read_user (user_id u) w = Some u \<and>
    ws_threads s' = (ws_threads s)(t1 \<mapsto> Login l (LG_done True), t2 \<mapsto> Wallet c (WP_done 0)) \<and>
    read_user (user_id u) (ws_world s') = Some (u\<lparr>last_login := now w\<rparr>)"
proof -
  obtain v where v: "wallet_reach popen kinds s (at_phase s t1 (ws_locks s) v (Login l (LG_write u)))"
    "users_file v = users_file w" "writable v = writable w" "now v = now w"
    using login_accepted [OF assms(1), of popen u kinds] assms(4,5) by blast
  let ?s1 = "at_phase s t1 (ws_locks s) v (Login l (LG_write u))"
  let ?v = "snd (run_call c v)" and ?u = "u\<lparr>last_login := now w\<rparr>"
  let ?after = "log_txn (L_LOGIN (user_id ?u) (username ?u)) (send_msg (l_fd l) MSG_LOGIN_RESP ERR_OK (P_User ?u)
    (snd (write_user ?u ?v)))"
  let ?s2 = "s\<lparr>ws_threads := (ws_threads s)(t2 \<mapsto> Wallet c (WP_done 0))\<rparr>"
  have ne: "t1 \<noteq> t2" using assms(1,2) by auto
  then have "ws_threads ?s1 t2 = Some (Wallet c WP_lock)" using assms(2) by simp
  from reach_trans [OF v(1) wallet_alone [OF this]] assms(3,7) run_call_cong(2) [OF v(2,3), of c] ne
  have "wallet_reach popen kinds s (at_phase ?s2 t1 (ws_locks s) ?v (Login l (LG_write u)))"
    by (simp add: at_phase_def fun_upd_twist)
  from reach_login_step [OF this, of "LG_reply ?u"]
  have "wallet_reach popen kinds s (at_phase ?s2 t1 (ws_locks s) (snd (write_user ?u ?v)) (Login l (LG_reply ?u)))"
    using v(4) by (simp add: Let_def run_call_now)
  from reach_login_step [OF this, of "LG_done True"]
  have "wallet_reach popen kinds s (at_phase ?s2 t1 (ws_locks s) ?after (Login l (LG_done True)))" by simp
  moreover have "writable ?v FILE_USERS" using run_call_cong(4) [OF v(2,3), of c] v(3) assms(9) by simp
  then have "read_user (user_id u) ?after = Some ?u" using ut.rd_same [of ?v ?u] by simp
  moreover have "read_user (user_id u) w = Some u"
    using member_read [OF assms(8)] find_user_mem assms(5) by (auto simp: login_accepts_def)
  moreover have "(ws_threads s)(t2 \<mapsto> Wallet c (WP_done 0), t1 \<mapsto> Login l (LG_done True)) =
      (ws_threads s)(t1 \<mapsto> Login l (LG_done True), t2 \<mapsto> Wallet c (WP_done 0))"
    using ne by (simp add: fun_upd_twist)
  ultimately show ?thesis by (intro exI [of _ "at_phase ?s2 t1 (ws_locks s) ?after (Login l (LG_done True))"]) simp
qed

theorem login_undoes_wallet_call_witness:
  "\<exists>s' r. wallet_reach sample_shell (\<lambda>_. True) at_once s' \<and>
     ws_threads s' 2 = Some (Wallet (Credit 3 (rs 100)) (WP_done 0)) \<and>
     read_user 3 (ws_world s') = Some r \<and> wallet_balance r = rs 1000"
proof -
  let ?bob = "sample_user 3 ''bob'' ROLE_BIDDER 1000 300"
  have "fst (run_call (Credit 3 (rs 100)) sample_world) = 0"
    by (simp add: credit_wallet_shape apply_wallet_delta_def Let_def zero_rs rs_add ut.wr_status)
  moreover have "ws_threads at_once 1 = Some (Login \<lparr>l_fd = 7, l_req = sample_login\<rparr> LG_find)"
    "ws_threads at_once 2 = Some (Wallet (Credit 3 (rs 100)) WP_lock)"
    "\<not> ws_locks at_once (get_wallet_lock (call_user (Credit 3 (rs 100))))" "sample_world = ws_world at_once"
    by (simp_all add: at_once_def no_threads_def)
  moreover have "login_accepts sample_shell (l_req \<lparr>l_fd = 7, l_req = sample_login\<rparr>) sample_world ?bob"
    using sample_accepts by simp
  moreover have "call_user (Credit 3 (rs 100)) = user_id ?bob" by simp
  ultimately have "\<exists>s'. wallet_reach sample_shell (\<lambda>_. True) at_once s' \<and> read_user (user_id ?bob) sample_world = Some ?bob \<and>
    ws_threads s' = (ws_threads at_once)(1 \<mapsto> Login \<lparr>l_fd = 7, l_req = sample_login\<rparr> (LG_done True),
      2 \<mapsto> Wallet (Credit 3 (rs 100)) (WP_done 0)) \<and>
    read_user (user_id ?bob) (ws_world s') = Some (?bob\<lparr>last_login := now sample_world\<rparr>)"
    using sample_numbered(1) sample_files(7) by (intro login_undoes_wallet_call)
  then show ?thesis by auto
qed

end
