(* ===== verification/File_Bytes.thy ===== *)
theory File_Bytes
  imports Wire
begin

text \<open>
  The data files as bytes. The other theories take a data file as a list of records; here each
  function of \<^verbatim>\<open>common/file_io.h\<close> is given on the bytes of the file, with its \<^verbatim>\<open>lseek\<close> to
  \<^verbatim>\<open>(id - 1) * sizeof\<close>, its \<^verbatim>\<open>read\<close> or \<^verbatim>\<open>write\<close> of one struct and its comparison of the count, and the
  loops that read to the end. \<open>disk\<close> holds the bytes of the six files and which files can be opened
  for writing; the result of a \<^verbatim>\<open>write\<close> is an argument.

  The theory shows that on files of whole records the functions do what the record model says, and
  what a short \<^verbatim>\<open>write\<close> leaves behind.
\<close>

section \<open>Reading and writing at an offset\<close>

definition pwrite :: "nat \<Rightarrow> char list \<Rightarrow> char list \<Rightarrow> char list" where
  \<comment> \<open>\<^verbatim>\<open>lseek\<close> to \<open>off\<close> and \<^verbatim>\<open>write\<close>: a gap behind the end of the file reads as zeros\<close>
  "pwrite off bs f =
     (if bs = [] then f else take off (f @ replicate off NUL) @ bs @ drop (off + length bs) f)"

function read_records :: "nat \<Rightarrow> (char list \<Rightarrow> 'r) \<Rightarrow> char list \<Rightarrow> 'r list" where
  \<comment> \<open>what \<^verbatim>\<open>while (read(fd, &r, sizeof r) == sizeof r)\<close> sees\<close>
  "read_records sz dec bs =
     (if sz = 0 \<or> length bs < sz then [] else dec (take sz bs) # read_records sz dec (drop sz bs))"
  by pat_completeness auto
termination by (relation "measure (\<lambda>(sz, dec, bs). length bs)") auto

declare read_records.simps [simp del]

lemma read_records_short: "length bs < sz \<Longrightarrow> read_records sz dec bs = []"
  by (simp add: read_records.simps)

lemma read_records_Cons:
  "length b = sz \<Longrightarrow> 0 < sz \<Longrightarrow> read_records sz dec (b @ bs) = dec b # read_records sz dec bs"
  by (simp add: read_records.simps [of sz dec "b @ bs"])

lemma read_records_append:
  "length xs = k * sz \<Longrightarrow> 0 < sz \<Longrightarrow>
   read_records sz dec (xs @ ys) = read_records sz dec xs @ read_records sz dec ys"
proof (induction k arbitrary: xs)
  case 0
  then show ?case by (simp add: read_records_short)
next
  case (Suc k)
  then have "length (take sz xs) = sz" "length (drop sz xs) = k * sz" by simp_all
  with Suc read_records_Cons [of "take sz xs" sz dec "drop sz xs"]
    read_records_Cons [of "take sz xs" sz dec "drop sz xs @ ys"] show ?case
    by (simp flip: append_assoc)
qed

lemma length_read_records: "0 < sz \<Longrightarrow> length (read_records sz dec bs) = length bs div sz"
proof (induction sz dec bs rule: read_records.induct)
  case (1 sz dec bs)
  then show ?case
    by (cases "length bs < sz") (simp_all add: read_records.simps [of sz dec bs] le_div_geq)
qed

lemma read_records_drop:
  "0 < sz \<Longrightarrow> read_records sz dec (drop (k * sz) bs) = drop k (read_records sz dec bs)"
proof (induction k arbitrary: bs)
  case (Suc k)
  show ?case
  proof (cases "length bs < sz")
    case True
    then show ?thesis using Suc.prems by (simp add: read_records_short)
  next
    case False
    with Suc.prems have "read_records sz dec bs = dec (take sz bs) # read_records sz dec (drop sz bs)"
      by (simp add: read_records.simps [of sz dec bs])
    with Suc.IH [of "drop sz bs"] Suc.prems show ?thesis by (simp add: add.commute)
  qed
qed simp

lemma read_records_take:
  assumes "0 < sz" and "k \<le> length bs div sz"
  shows "read_records sz dec (take (k * sz) bs) = take k (read_records sz dec bs)"
proof -
  have "k * sz \<le> length bs" using assms by (simp add: less_eq_div_iff_mult_less_eq)
  then have "length (take (k * sz) bs) = k * sz" by simp
  from read_records_append [OF this assms(1), of dec "drop (k * sz) bs"]
  have "read_records sz dec bs = read_records sz dec (take (k * sz) bs) @ read_records sz dec (drop (k * sz) bs)"
    by simp
  moreover have "length (read_records sz dec (take (k * sz) bs)) = k"
    using assms \<open>k * sz \<le> length bs\<close> by (simp add: length_read_records)
  ultimately show ?thesis by simp
qed

section \<open>The contract of a file of records\<close>

locale record_file = codec enc dec size_of ok
  for enc :: "'r \<Rightarrow> char list" and dec :: "char list \<Rightarrow> 'r" and size_of :: nat and ok :: "'r \<Rightarrow> bool" +
  fixes zero :: 'r
  assumes size_pos: "0 < size_of" and dec_zero: "dec (replicate size_of NUL) = zero"
begin

lemma read_zeros: "read_records size_of dec (replicate (k * size_of) NUL) = replicate k zero"
proof (induction k)
  case (Suc k)
  have "replicate (Suc k * size_of) NUL = replicate size_of NUL @ replicate (k * size_of) NUL"
    by (simp add: replicate_add)
  with Suc show ?case using size_pos by (simp add: read_records_Cons dec_zero)
qed (simp add: read_records_short size_pos)

lemma read_one: "ok r \<Longrightarrow> read_records size_of dec (enc r) = [r]"
  using read_records_Cons [of "enc r" size_of dec "[]"] size_pos
  by (simp add: enc_length dec_enc read_records_short)

lemma put_record:
  assumes "size_of dvd length bs" and "ok r"
  shows "read_records size_of dec (pwrite (k * size_of) (enc r) bs) =
      records (rec_write zero k r (Some (read_records size_of dec bs)))"
    and "size_of dvd length (pwrite (k * size_of) (enc r) bs)"
proof -
  obtain n where n: "length bs = n * size_of" using assms(1) by (auto simp: dvd_def mult.commute)
  have len: "length (read_records size_of dec bs) = n" using n size_pos by (simp add: length_read_records)
  have e: "length (enc r) = size_of" "enc r \<noteq> []" using enc_length [OF assms(2)] size_pos by auto
  define pre where "pre = take (k * size_of) (bs @ replicate (k * size_of) NUL)"
  have pre: "length pre = k * size_of" by (simp add: pre_def)
  have w: "pwrite (k * size_of) (enc r) bs = pre @ enc r @ drop (Suc k * size_of) bs"
    using e by (simp add: pwrite_def pre_def add.commute)
  have "read_records size_of dec (pre @ enc r @ drop (Suc k * size_of) bs) =
      read_records size_of dec pre @ r # drop (Suc k) (read_records size_of dec bs)"
    using read_records_append [OF pre size_pos, of dec] e(1) size_pos
    by (simp only: read_records_Cons dec_enc [OF assms(2)] read_records_drop)
  moreover have "read_records size_of dec pre = take k (read_records size_of dec bs @ replicate (k - n) zero)"
  proof (cases "k \<le> n")
    case True
    then have "k * size_of \<le> length bs" by (simp add: n)
    then have "pre = take (k * size_of) bs" by (simp add: pre_def)
    then show ?thesis using True n size_pos len by (simp add: read_records_take)
  next
    case False
    then have "k * size_of = n * size_of + (k - n) * size_of" by (simp add: flip: add_mult_distrib)
    then have "pre = bs @ replicate ((k - n) * size_of) NUL" by (simp add: pre_def n)
    then show ?thesis using False n len read_records_append [OF n size_pos, of dec] by (simp add: read_zeros)
  qed
  ultimately show "read_records size_of dec (pwrite (k * size_of) (enc r) bs) =
      records (rec_write zero k r (Some (read_records size_of dec bs)))"
    using len by (auto simp: w rec_write_def Let_def upd_conv_take_nth_drop)
  show "size_of dvd length (pwrite (k * size_of) (enc r) bs)"
    using e(1) by (simp add: w pre n flip: diff_mult_distrib)
qed

lemma append_record:
  assumes "size_of dvd length bs" and "ok r"
  shows "read_records size_of dec (bs @ enc r) = read_records size_of dec bs @ [r]"
    and "size_of dvd length (bs @ enc r)"
proof -
  obtain n where n: "length bs = n * size_of" using assms(1) by (auto simp: dvd_def mult.commute)
  show "read_records size_of dec (bs @ enc r) = read_records size_of dec bs @ [r]"
    using read_records_append [OF n size_pos, of dec "enc r"] by (simp add: read_one assms(2))
  show "size_of dvd length (bs @ enc r)" using n enc_length [OF assms(2)] by simp
qed

lemma get_record:
  assumes "size_of dvd length bs"
  shows "(length (take size_of (drop (k * size_of) bs)) = size_of) = (k < length (read_records size_of dec bs))"
    and "k < length (read_records size_of dec bs) \<Longrightarrow>
      dec (take size_of (drop (k * size_of) bs)) = read_records size_of dec bs ! k"
proof -
  obtain n where n: "length bs = n * size_of" using assms(1) by (auto simp: dvd_def mult.commute)
  have len: "length (read_records size_of dec bs) = n" using n size_pos by (simp add: length_read_records)
  have "size_of \<le> (n - k) * size_of \<longleftrightarrow> k < n" using size_pos by (cases "n - k") auto
  then show "(length (take size_of (drop (k * size_of) bs)) = size_of) = (k < length (read_records size_of dec bs))"
    using n by (simp add: len min_def flip: diff_mult_distrib) linarith
  assume k: "k < length (read_records size_of dec bs)"
  then have "drop k (read_records size_of dec bs) \<noteq> []" by simp
  moreover have "read_records size_of dec (drop (k * size_of) bs) = drop k (read_records size_of dec bs)"
    using size_pos by (rule read_records_drop)
  ultimately have "hd (drop k (read_records size_of dec bs)) = dec (take size_of (drop (k * size_of) bs))"
    by (metis list.sel(1) read_records.simps)
  then show "dec (take size_of (drop (k * size_of) bs)) = read_records size_of dec bs ! k"
    using k by (simp add: hd_drop_conv_nth)
qed

end


section \<open>Sessions as bytes\<close>

definition enc_Session :: "Session \<Rightarrow> char list" where
  "enc_Session s = enc_u32 (session_user_id s) @ enc_signed 4 (session_fd s) @
     enc_signed 8 (login_time s) @ enc_flag (is_active s) @ pad"

definition dec_Session :: "char list \<Rightarrow> Session" where
  "dec_Session bs = \<lparr>session_user_id = dec_u32 (field 0 4 bs), session_fd = dec_signed 4 (field 4 4 bs),
     login_time = dec_signed 8 (field 8 8 bs), is_active = dec_flag (field 16 4 bs)\<rparr>"

definition session_ok :: "Session \<Rightarrow> bool" where
  "session_ok s \<longleftrightarrow> fits 4 (session_fd s) \<and> fits 8 (login_time s)"

interpretation Session_codec: codec enc_Session dec_Session 24 session_ok
  by unfold_locales (simp_all add: enc_Session_def dec_Session_def session_ok_def codec_simps)

section \<open>The six files\<close>

lemma le_nat_zeros [simp]: "le_nat (replicate n NUL) = 0"
  by (induction n) simp_all

lemma dec_zeros: "dec_u32 (replicate n NUL) = 0" "dec_signed n (replicate m NUL) = 0"
  "dec_flag (replicate m NUL) = False" "dec_dbl (replicate m NUL) = 0"
  by (simp_all add: dec_u32_def dec_signed_def dec_flag_def dec_dbl_def bits_dbl_def zero_dbl_def Let_def)

lemma field_zeros: "off + k \<le> n \<Longrightarrow> field off k (replicate n NUL) = replicate k NUL"
  by (simp add: field_def min_def)

definition zero_Bid :: Bid where
  "zero_Bid = \<lparr>bid_id = 0, bid_auction_id = 0, bidder_id = 0, bid_amount = 0, placed_at = 0,
     is_winning = False\<rparr>"

definition zero_Feedback :: Feedback where
  "zero_Feedback = \<lparr>feedback_id = 0, from_user_id = 0, about_auction_id = 0,
     feedback_message = replicate MAX_FEEDBACK NUL, submitted_at = 0, reviewed = False\<rparr>"

interpretation users_dat: record_file enc_User dec_User 216 user_ok zero_User
  by unfold_locales (simp_all add: dec_User_def zero_User_def field_zeros dec_zeros MAX_USERNAME_def
    MAX_PASSWORD_def MAX_NAME_def)

interpretation auctions_dat: record_file enc_Auction dec_Auction 384 auction_ok zero_Auction
  by unfold_locales (simp_all add: dec_Auction_def zero_Auction_def field_zeros dec_zeros
    MAX_ITEM_NAME_def MAX_DESC_def status_of_code_def)

interpretation bids_dat: record_file enc_Bid dec_Bid 40 bid_ok zero_Bid
  by unfold_locales (simp_all add: dec_Bid_def zero_Bid_def field_zeros dec_zeros)

interpretation sessions_dat: record_file enc_Session dec_Session 24 session_ok zero_Session
  by unfold_locales (simp_all add: dec_Session_def zero_Session_def field_zeros dec_zeros)

interpretation feedback_dat: record_file enc_Feedback dec_Feedback 288 feedback_ok zero_Feedback
  by unfold_locales (simp_all add: dec_Feedback_def zero_Feedback_def field_zeros dec_zeros MAX_FEEDBACK_def)

interpretation disputes_dat: record_file enc_Dispute dec_Dispute 552 dispute_ok zero_Dispute
  by unfold_locales (simp_all add: dec_Dispute_def zero_Dispute_def field_zeros dec_zeros MAX_DESC_def)


record disk =
  users_dat :: "char list option"
  auctions_dat :: "char list option"
  bids_dat :: "char list option"
  sessions_dat :: "char list option"
  feedback_dat :: "char list option"
  disputes_dat :: "char list option"
  can_open :: "dbfile \<Rightarrow> bool"

definition contents :: "char list option \<Rightarrow> char list" where
  "contents f = (case f of None \<Rightarrow> [] | Some bs \<Rightarrow> bs)"

definition put_at :: "int \<Rightarrow> nat \<Rightarrow> char list \<Rightarrow> char list option \<Rightarrow> char list option" where
  \<comment> \<open>\<^verbatim>\<open>open\<close> with \<^verbatim>\<open>O_CREAT\<close>, \<^verbatim>\<open>lseek\<close> to \<open>off\<close>, a \<^verbatim>\<open>write\<close> whose result is \<open>n\<close>\<close>
  "put_at n off bs f = Some (pwrite off (take (nat n) bs) (contents f))"

definition put_end :: "int \<Rightarrow> char list \<Rightarrow> char list option \<Rightarrow> char list option" where
  \<comment> \<open>\<^verbatim>\<open>open\<close> with \<^verbatim>\<open>O_CREAT\<close> and \<^verbatim>\<open>O_APPEND\<close>, a \<^verbatim>\<open>write\<close> whose result is \<open>n\<close>\<close>
  "put_end n bs f = Some (contents f @ take (nat n) bs)"

definition get_at :: "nat \<Rightarrow> (char list \<Rightarrow> 'r) \<Rightarrow> nat \<Rightarrow> char list option \<Rightarrow> 'r option" where
  \<comment> \<open>\<^verbatim>\<open>open\<close>, \<^verbatim>\<open>lseek\<close> to record \<open>k\<close>, a \<^verbatim>\<open>read\<close> of one struct; \<open>None\<close> is the return of -1\<close>
  "get_at sz dec k f = (case f of
      None \<Rightarrow> None
    | Some bs \<Rightarrow>
        let b = take sz (drop (k * sz) bs) in if length b = sz then Some (dec b) else None)"

definition id_at_end :: "nat \<Rightarrow> char list option \<Rightarrow> u32" where
  \<comment> \<open>\<^verbatim>\<open>lseek(fd, 0, SEEK_END)\<close>, divided by the size of a struct\<close>
  "id_at_end sz f = (case f of
      None \<Rightarrow> 1
    | Some bs \<Rightarrow> if bs = [] then 1 else word_of_nat (length bs div sz) + 1)"

definition disk_write_user :: "int \<Rightarrow> User \<Rightarrow> disk \<Rightarrow> int \<times> disk" where
  "disk_write_user n u d =
     (if \<not> can_open d FILE_USERS then (-1, d)
      else (if n = 216 then 0 else -1,
            d\<lparr>users_dat := put_at n (slot_of (user_id u) * 216) (enc_User u) (users_dat d)\<rparr>))"

definition disk_write_auction :: "int \<Rightarrow> Auction \<Rightarrow> disk \<Rightarrow> int \<times> disk" where
  "disk_write_auction n a d =
     (if \<not> can_open d FILE_AUCTIONS then (-1, d)
      else (if n = 384 then 0 else -1,
            d\<lparr>auctions_dat := put_at n (slot_of (auction_id a) * 384) (enc_Auction a) (auctions_dat d)\<rparr>))"

definition disk_append_bid :: "int \<Rightarrow> Bid \<Rightarrow> disk \<Rightarrow> int \<times> disk" where
  "disk_append_bid n b d =
     (if \<not> can_open d FILE_BIDS then (-1, d)
      else (if n = 40 then 0 else -1, d\<lparr>bids_dat := put_end n (enc_Bid b) (bids_dat d)\<rparr>))"

definition disk_write_session :: "int \<Rightarrow> int \<Rightarrow> Session \<Rightarrow> disk \<Rightarrow> int \<times> disk" where
  \<comment> \<open>a \<^verbatim>\<open>lseek\<close> to a negative offset fails and leaves the position at 0\<close>
  "disk_write_session n slot s d =
     (if \<not> can_open d FILE_SESSIONS then (-1, d)
      else (if n = 24 then 0 else -1,
            d\<lparr>sessions_dat := put_at n (nat slot * 24) (enc_Session s) (sessions_dat d)\<rparr>))"

definition disk_append_feedback :: "int \<Rightarrow> Feedback \<Rightarrow> disk \<Rightarrow> int \<times> disk" where
  "disk_append_feedback n f d =
     (if \<not> can_open d FILE_FEEDBACK then (-1, d)
      else (if n = 288 then 0 else -1, d\<lparr>feedback_dat := put_end n (enc_Feedback f) (feedback_dat d)\<rparr>))"

definition disk_write_dispute :: "int \<Rightarrow> Dispute \<Rightarrow> disk \<Rightarrow> int \<times> disk" where
  "disk_write_dispute n x d =
     (if \<not> can_open d FILE_DISPUTES then (-1, d)
      else (if n = 552 then 0 else -1,
            d\<lparr>disputes_dat := put_at n (slot_of (dispute_id x) * 552) (enc_Dispute x) (disputes_dat d)\<rparr>))"

definition disk_read_user :: "u32 \<Rightarrow> disk \<Rightarrow> User option" where
  "disk_read_user i d = get_at 216 dec_User (slot_of i) (users_dat d)"

definition disk_read_auction :: "u32 \<Rightarrow> disk \<Rightarrow> Auction option" where
  "disk_read_auction i d = get_at 384 dec_Auction (slot_of i) (auctions_dat d)"

definition disk_read_dispute :: "u32 \<Rightarrow> disk \<Rightarrow> Dispute option" where
  "disk_read_dispute i d = get_at 552 dec_Dispute (slot_of i) (disputes_dat d)"

definition disk_next_user_id :: "disk \<Rightarrow> u32" where
  "disk_next_user_id d = id_at_end 216 (users_dat d)"

definition disk_next_auction_id :: "disk \<Rightarrow> u32" where
  "disk_next_auction_id d = id_at_end 384 (auctions_dat d)"

definition disk_next_bid_id :: "disk \<Rightarrow> u32" where
  "disk_next_bid_id d = id_at_end 40 (bids_dat d)"

definition disk_next_dispute_id :: "disk \<Rightarrow> u32" where
  "disk_next_dispute_id d = id_at_end 552 (disputes_dat d)"

function user_scan :: "char list \<Rightarrow> char list \<Rightarrow> User option" where
  \<comment> \<open>the loop of \<^verbatim>\<open>find_user_by_username\<close> on what is left of the file\<close>
  "user_scan name bs =
     (let b = take 216 bs; u = dec_User b
      in if length b \<noteq> 216 then None
         else if \<not> user_deleted u \<and> strncmp_eq (username u) name MAX_USERNAME then Some u
         else user_scan name (drop 216 bs))"
  by pat_completeness auto
termination by (relation "measure (\<lambda>(_, bs). length bs)") auto

function session_scan :: "u32 \<Rightarrow> int \<Rightarrow> char list \<Rightarrow> int" where
  \<comment> \<open>the loop of \<^verbatim>\<open>find_session_slot\<close>\<close>
  "session_scan uid slot bs =
     (let b = take 24 bs; s = dec_Session b
      in if length b \<noteq> 24 then -1
         else if is_active s \<and> session_user_id s = uid then slot
         else session_scan uid (slot + 1) (drop 24 bs))"
  by pat_completeness auto
termination by (relation "measure (\<lambda>(_, _, bs). length bs)") auto

function free_scan :: "int \<Rightarrow> char list \<Rightarrow> int \<times> int" where
  \<comment> \<open>the loop of \<^verbatim>\<open>find_free_slot\<close>: \<^verbatim>\<open>found\<close> and \<^verbatim>\<open>slot\<close> when it ends\<close>
  "free_scan slot bs =
     (if slot < int MAX_SESSIONS
      then (let b = take 24 bs
            in if length b \<noteq> 24 then (-1, slot)
               else if \<not> is_active (dec_Session b) then (slot, slot)
               else free_scan (slot + 1) (drop 24 bs))
      else (-1, slot))"
  by pat_completeness auto
termination by (relation "measure (\<lambda>(_, bs). length bs)") auto

declare user_scan.simps [simp del] session_scan.simps [simp del] free_scan.simps [simp del]

definition disk_find_user_by_username :: "char list \<Rightarrow> disk \<Rightarrow> User option" where
  "disk_find_user_by_username name d =
     (case users_dat d of None \<Rightarrow> None | Some bs \<Rightarrow> user_scan name bs)"

definition disk_find_session_slot :: "u32 \<Rightarrow> disk \<Rightarrow> int" where
  "disk_find_session_slot uid d =
     (case sessions_dat d of None \<Rightarrow> -1 | Some bs \<Rightarrow> session_scan uid 0 bs)"

definition disk_find_free_slot :: "disk \<Rightarrow> int \<times> disk" where
  "disk_find_free_slot d =
     (if \<not> can_open d FILE_SESSIONS then (0, d)
      else let (found, slot) = free_scan 0 (contents (sessions_dat d))
           in (if 0 \<le> found then found else if slot < int MAX_SESSIONS then slot else -1,
               d\<lparr>sessions_dat := Some (contents (sessions_dat d))\<rparr>))"

section \<open>The record model is what the bytes show\<close>

definition file_shows :: "nat \<Rightarrow> (char list \<Rightarrow> 'r) \<Rightarrow> char list option \<Rightarrow> 'r list option \<Rightarrow> bool" where
  \<comment> \<open>a file of whole records and the list of them\<close>
  "file_shows sz dec f xs \<longleftrightarrow> xs = map_option (read_records sz dec) f \<and> sz dvd length (contents f)"

definition on_disk :: "disk \<Rightarrow> world \<Rightarrow> bool" where
  "on_disk d w \<longleftrightarrow>
     file_shows 216 dec_User (users_dat d) (users_file w) \<and>
     file_shows 384 dec_Auction (auctions_dat d) (auctions_file w) \<and>
     file_shows 40 dec_Bid (bids_dat d) (bids_file w) \<and>
     file_shows 24 dec_Session (sessions_dat d) (sessions_file w) \<and>
     file_shows 288 dec_Feedback (feedback_dat d) (feedback_file w) \<and>
     file_shows 552 dec_Dispute (disputes_dat d) (disputes_file w) \<and>
     can_open d = writable w"

lemma shows_records: "file_shows sz dec f xs \<Longrightarrow> 0 < sz \<Longrightarrow> records xs = read_records sz dec (contents f)"
  by (cases f) (simp_all add: file_shows_def contents_def read_records_short)

context record_file
begin

lemma shows_put:
  assumes "file_shows size_of dec f xs" and "ok r"
  shows "file_shows size_of dec (put_at (int size_of) (k * size_of) (enc r) f) (rec_write zero k r xs)"
proof -
  have a: "size_of dvd length (contents f)" using assms(1) by (simp add: file_shows_def)
  have "rec_write zero k r xs = rec_write zero k r (Some (read_records size_of dec (contents f)))"
    using shows_records [OF assms(1) size_pos] by (simp add: rec_write_def)
  moreover have "\<exists>ys. rec_write zero k r (Some (read_records size_of dec (contents f))) = Some ys"
    by (simp add: rec_write_def Let_def)
  ultimately show ?thesis
    using put_record [OF a assms(2), of k] enc_length [OF assms(2)]
    by (auto simp: file_shows_def put_at_def contents_def)
qed

lemma shows_append:
  assumes "file_shows size_of dec f xs" and "ok r"
  shows "file_shows size_of dec (put_end (int size_of) (enc r) f) (rec_append r xs)"
proof -
  have a: "size_of dvd length (contents f)" using assms(1) by (simp add: file_shows_def)
  show ?thesis
    using append_record [OF a assms(2)] shows_records [OF assms(1) size_pos] enc_length [OF assms(2)]
    by (simp add: file_shows_def put_end_def contents_def rec_append_def)
qed

lemma shows_get:
  assumes "file_shows size_of dec f xs"
  shows "get_at size_of dec k f = rec_read k xs"
proof (cases f)
  case None
  with assms show ?thesis by (simp add: file_shows_def get_at_def rec_read_def)
next
  case (Some bs)
  with assms have a: "size_of dvd length bs" "xs = Some (read_records size_of dec bs)"
    by (simp_all add: file_shows_def contents_def)
  show ?thesis using get_record [OF a(1), of k]
    by (simp add: Some a(2) get_at_def rec_read_def Let_def)
qed

lemma shows_id:
  assumes "file_shows size_of dec f xs"
  shows "id_at_end size_of f = next_id xs"
proof (cases f)
  case None
  with assms show ?thesis by (simp add: file_shows_def id_at_end_def next_id_def)
next
  case (Some bs)
  with assms have xs: "xs = Some (read_records size_of dec bs)" and "size_of dvd length bs"
    by (simp_all add: file_shows_def contents_def)
  have len: "length (read_records size_of dec bs) = length bs div size_of"
    using size_pos by (rule length_read_records)
  have "read_records size_of dec [] = []" using size_pos by (simp add: read_records_short)
  moreover have "word_of_nat (length bs div size_of) + 1 = (1 :: u32)" if "read_records size_of dec bs = []"
    using that len by simp
  ultimately show ?thesis by (auto simp: Some xs id_at_end_def next_id_def len)
qed

end


lemma user_scan_records:
  "user_scan name bs =
     find (\<lambda>u. \<not> user_deleted u \<and> strncmp_eq (username u) name MAX_USERNAME) (read_records 216 dec_User bs)"
proof (induction name bs rule: user_scan.induct)
  case (1 name bs)
  then show ?case
    by (cases "length bs < 216")
      (simp_all add: user_scan.simps [of name bs] read_records.simps [of 216 dec_User bs] Let_def)
qed

lemma session_scan_records:
  "session_scan uid slot bs = session_slot_loop uid slot (read_records 24 dec_Session bs)"
proof (induction uid slot bs rule: session_scan.induct)
  case (1 uid slot bs)
  then show ?case
    by (cases "length bs < 24")
      (simp_all add: session_scan.simps [of uid slot bs] read_records.simps [of 24 dec_Session bs] Let_def)
qed

lemma free_scan_records: "free_scan slot bs = free_slot_loop slot (read_records 24 dec_Session bs)"
proof (induction slot bs rule: free_scan.induct)
  case (1 slot bs)
  then show ?case
    by (cases "length bs < 24")
      (simp_all add: free_scan.simps [of slot bs] read_records.simps [of 24 dec_Session bs] Let_def)
qed

lemmas on_disk_parts = on_disk_def [THEN iffD1, THEN conjunct1]
  on_disk_def [THEN iffD1, THEN conjunct2, THEN conjunct1]
  on_disk_def [THEN iffD1, THEN conjunct2, THEN conjunct2, THEN conjunct1]
  on_disk_def [THEN iffD1, THEN conjunct2, THEN conjunct2, THEN conjunct2, THEN conjunct1]
  on_disk_def [THEN iffD1, THEN conjunct2, THEN conjunct2, THEN conjunct2, THEN conjunct2, THEN conjunct1]
  on_disk_def [THEN iffD1, THEN conjunct2, THEN conjunct2, THEN conjunct2, THEN conjunct2, THEN conjunct2,
    THEN conjunct1]

datatype file_op =
    Write_User User | Write_Auction Auction | Append_Bid Bid | Write_Session int Session
  | Append_Feedback Feedback | Write_Dispute Dispute | Find_Free_Slot

primrec disk_op :: "file_op \<Rightarrow> disk \<Rightarrow> int \<times> disk" where
  \<comment> \<open>an operation whose \<^verbatim>\<open>write\<close> is complete\<close>
  "disk_op (Write_User u) = disk_write_user 216 u"
| "disk_op (Write_Auction a) = disk_write_auction 384 a"
| "disk_op (Append_Bid b) = disk_append_bid 40 b"
| "disk_op (Write_Session slot s) = disk_write_session 24 slot s"
| "disk_op (Append_Feedback f) = disk_append_feedback 288 f"
| "disk_op (Write_Dispute x) = disk_write_dispute 552 x"
| "disk_op Find_Free_Slot = disk_find_free_slot"

primrec record_op :: "file_op \<Rightarrow> world \<Rightarrow> int \<times> world" where
  "record_op (Write_User u) = write_user u"
| "record_op (Write_Auction a) = write_auction a"
| "record_op (Append_Bid b) = append_bid b"
| "record_op (Write_Session slot s) = write_session slot s"
| "record_op (Append_Feedback f) = append_feedback f"
| "record_op (Write_Dispute x) = write_dispute x"
| "record_op Find_Free_Slot = find_free_slot"

primrec op_ok :: "file_op \<Rightarrow> bool" where
  "op_ok (Write_User u) = user_ok u"
| "op_ok (Write_Auction a) = auction_ok a"
| "op_ok (Append_Bid b) = bid_ok b"
| "op_ok (Write_Session slot s) = session_ok s"
| "op_ok (Append_Feedback f) = feedback_ok f"
| "op_ok (Write_Dispute x) = dispute_ok x"
| "op_ok Find_Free_Slot = True"

fun run_ops :: "('o \<Rightarrow> 's \<Rightarrow> int \<times> 's) \<Rightarrow> 'o list \<Rightarrow> 's \<Rightarrow> int list \<times> 's" where
  \<comment> \<open>the results of the operations and the state after them\<close>
  "run_ops f [] s = ([], s)"
| "run_ops f (x # xs) s = (let (r, s) = f x s; (rs, s) = run_ops f xs s in (r # rs, s))"

lemma op_refines:
  assumes "on_disk d w" and "op_ok x"
  shows "fst (disk_op x d) = fst (record_op x w) \<and> on_disk (snd (disk_op x d)) (snd (record_op x w))"
proof (cases x)
  case (Write_User u)
  with assms users_dat.shows_put [of "users_dat d" "users_file w" u] show ?thesis
    by (auto simp: on_disk_def disk_write_user_def write_user_def)
next
  case (Write_Auction a)
  with assms auctions_dat.shows_put [of "auctions_dat d" "auctions_file w" a] show ?thesis
    by (auto simp: on_disk_def disk_write_auction_def write_auction_def)
next
  case (Append_Bid b)
  with assms bids_dat.shows_append [of "bids_dat d" "bids_file w" b] show ?thesis
    by (auto simp: on_disk_def disk_append_bid_def append_bid_def)
next
  case (Write_Session slot s)
  with assms sessions_dat.shows_put [of "sessions_dat d" "sessions_file w" s] show ?thesis
    by (auto simp: on_disk_def disk_write_session_def write_session_def)
next
  case (Append_Feedback f)
  with assms feedback_dat.shows_append [of "feedback_dat d" "feedback_file w" f] show ?thesis
    by (auto simp: on_disk_def disk_append_feedback_def append_feedback_def)
next
  case (Write_Dispute y)
  with assms disputes_dat.shows_put [of "disputes_dat d" "disputes_file w" y] show ?thesis
    by (auto simp: on_disk_def disk_write_dispute_def write_dispute_def)
next
  case Find_Free_Slot
  have "file_shows 24 dec_Session (sessions_dat d) (sessions_file w)" using assms(1) by (rule on_disk_parts)
  from shows_records [OF this] this
  have "records (sessions_file w) = read_records 24 dec_Session (contents (sessions_dat d))"
    "file_shows 24 dec_Session (Some (contents (sessions_dat d)))
      (Some (read_records 24 dec_Session (contents (sessions_dat d))))"
    by (simp_all add: file_shows_def contents_def)
  with assms(1) show ?thesis
    by (auto simp: Find_Free_Slot on_disk_def disk_find_free_slot_def find_free_slot_def free_scan_records
        case_prod_beta Let_def)
qed

lemma ops_refine:
  assumes "on_disk d w" and "\<forall>x \<in> set ops. op_ok x"
  shows "fst (run_ops disk_op ops d) = fst (run_ops record_op ops w) \<and>
    on_disk (snd (run_ops disk_op ops d)) (snd (run_ops record_op ops w))"
  using assms
proof (induction ops arbitrary: d w)
  case (Cons x ops)
  then have "fst (disk_op x d) = fst (record_op x w) \<and> on_disk (snd (disk_op x d)) (snd (record_op x w))"
    by (intro op_refines) simp_all
  with Cons.IH [of "snd (disk_op x d)" "snd (record_op x w)"] Cons.prems show ?case
    by (simp add: case_prod_beta Let_def)
qed simp

lemma scans_refine:
  assumes "on_disk d w"
  shows "disk_find_user_by_username name d = find_user_by_username name w"
    and "disk_find_session_slot uid d = find_session_slot uid w"
proof -
  show "disk_find_user_by_username name d = find_user_by_username name w"
    using on_disk_parts(1) [OF assms]
    by (auto simp: file_shows_def disk_find_user_by_username_def find_user_by_username_def user_scan_records
        split: option.split)
  show "disk_find_session_slot uid d = find_session_slot uid w"
    using on_disk_parts(4) [OF assms]
    by (auto simp: file_shows_def disk_find_session_slot_def find_session_slot_def session_scan_records
        split: option.split)
qed

lemma reads_refine:
  assumes "on_disk d w"
  shows "disk_read_user i d = read_user i w" "disk_read_auction i d = read_auction i w"
    "disk_read_dispute i d = read_dispute i w"
    "disk_next_user_id d = next_user_id w" "disk_next_auction_id d = next_auction_id w"
    "disk_next_bid_id d = next_bid_id w" "disk_next_dispute_id d = next_dispute_id w"
  using on_disk_parts [OF assms] users_dat.shows_get auctions_dat.shows_get disputes_dat.shows_get
    users_dat.shows_id auctions_dat.shows_id bids_dat.shows_id disputes_dat.shows_id
  by (simp_all add: disk_read_user_def read_user_def disk_read_auction_def read_auction_def
      disk_read_dispute_def read_dispute_def disk_next_user_id_def next_user_id_def
      disk_next_auction_id_def next_auction_id_def disk_next_bid_id_def next_bid_id_def
      disk_next_dispute_id_def next_dispute_id_def)

lemma torn_bid:
  fixes k :: nat
  assumes "40 dvd length bs" and "k < 40" and "bid_ok b" and "\<forall>c \<in> set (c # cs). bid_ok c"
  shows "read_records 40 dec_Bid (bs @ take k (enc_Bid b) @ concat (map enc_Bid (c # cs))) =
    read_records 40 dec_Bid bs @ dec_Bid (take k (enc_Bid b) @ take (40 - k) (enc_Bid c)) #
    read_records 40 dec_Bid (drop (40 - k) (enc_Bid c) @ concat (map enc_Bid cs))"
proof -
  obtain n where n: "length bs = n * 40" using assms(1) by (auto simp: dvd_def mult.commute)
  have "length (enc_Bid b) = 40" "length (enc_Bid c) = 40" using assms by (simp_all add: Bid_codec.enc_length)
  then have l: "length (take k (enc_Bid b) @ take (40 - k) (enc_Bid c)) = 40" using assms(2) by simp
  have "take k (enc_Bid b) @ concat (map enc_Bid (c # cs)) =
      (take k (enc_Bid b) @ take (40 - k) (enc_Bid c)) @ drop (40 - k) (enc_Bid c) @ concat (map enc_Bid cs)"
    by simp
  with read_records_append [OF n, of dec_Bid] read_records_Cons [OF l, of dec_Bid] show ?thesis
    by (metis zero_less_numeral)
qed


lemma field_torn: "off + n \<le> k \<Longrightarrow> k \<le> length x \<Longrightarrow> field off n (take k x @ y) = field off n x"
  by (simp add: field_def take_drop add.commute min_def)

lemma dec_torn_bid:
  assumes "bid_ok b" and "24 \<le> k" and "k \<le> 40"
  shows "bid_id (dec_Bid (take k (enc_Bid b) @ y)) = bid_id b"
    "bid_auction_id (dec_Bid (take k (enc_Bid b) @ y)) = bid_auction_id b"
    "bidder_id (dec_Bid (take k (enc_Bid b) @ y)) = bidder_id b"
    "bid_amount (dec_Bid (take k (enc_Bid b) @ y)) = bid_amount b"
proof -
  have l: "k \<le> length (enc_Bid b)" using assms by (simp add: Bid_codec.enc_length)
  have "dec_Bid (enc_Bid b) = b" using assms(1) by (rule Bid_codec.dec_enc)
  then have "bid_id (dec_Bid (enc_Bid b)) = bid_id b" "bid_auction_id (dec_Bid (enc_Bid b)) = bid_auction_id b"
    "bidder_id (dec_Bid (enc_Bid b)) = bidder_id b" "bid_amount (dec_Bid (enc_Bid b)) = bid_amount b"
    by simp_all
  then show "bid_id (dec_Bid (take k (enc_Bid b) @ y)) = bid_id b"
    "bid_auction_id (dec_Bid (take k (enc_Bid b) @ y)) = bid_auction_id b"
    "bidder_id (dec_Bid (take k (enc_Bid b) @ y)) = bidder_id b"
    "bid_amount (dec_Bid (take k (enc_Bid b) @ y)) = bid_amount b"
    using assms l by (simp_all add: dec_Bid_def field_torn)
qed

lemma append_bids:
  assumes "can_open d FILE_BIDS" and "\<forall>c \<in> set cs. bid_ok c"
  shows "fst (run_ops disk_op (map Append_Bid cs) d) = replicate (length cs) 0 \<and>
    contents (bids_dat (snd (run_ops disk_op (map Append_Bid cs) d))) =
      contents (bids_dat d) @ concat (map enc_Bid cs)"
  using assms
proof (induction cs arbitrary: d)
  case (Cons c cs)
  let ?d = "snd (disk_append_bid 40 c d)"
  have "can_open ?d FILE_BIDS" and "contents (bids_dat ?d) = contents (bids_dat d) @ enc_Bid c"
    using Cons.prems by (simp_all add: disk_append_bid_def put_end_def contents_def Bid_codec.enc_length)
  with Cons.IH [of ?d] Cons.prems show ?case
    by (simp add: case_prod_beta Let_def) (simp add: disk_append_bid_def)
qed simp

lemma length_bids: "\<forall>x \<in> set xs. bid_ok x \<Longrightarrow> length (concat (map enc_Bid xs)) = 40 * length xs"
  by (induction xs) (simp_all add: Bid_codec.enc_length)

lemma torn_log:
  assumes "40 dvd length bs" and "24 \<le> k" and "k < 40" and "bid_ok b" and "\<forall>x \<in> set (c # cs). bid_ok x"
    and bs': "bs' = bs @ take k (enc_Bid b) @ concat (map enc_Bid (c # cs))"
  shows "\<exists>torn garbled. read_records 40 dec_Bid bs' = read_records 40 dec_Bid bs @ torn # garbled \<and>
      length garbled = length cs \<and> bid_id torn = bid_id b \<and> bid_auction_id torn = bid_auction_id b \<and>
      bidder_id torn = bidder_id b \<and> bid_amount torn = bid_amount b"
    and "\<not> 40 dvd length bs'"
proof -
  have l: "length (enc_Bid b) = 40" "length (enc_Bid c) = 40" "length (concat (map enc_Bid cs)) = 40 * length cs"
    using assms(4,5) by (simp_all add: Bid_codec.enc_length length_bids)
  let ?rest = "drop (40 - k) (enc_Bid c) @ concat (map enc_Bid cs)"
  have "length ?rest = k + 40 * length cs" using assms(3) l by simp
  then have "length (read_records 40 dec_Bid ?rest) = length cs"
    using assms(3) by (simp add: length_read_records)
  with torn_bid [OF assms(1,3,4,5)] dec_torn_bid [OF assms(4,2) less_imp_le [OF assms(3)]]
  show "\<exists>torn garbled. read_records 40 dec_Bid bs' = read_records 40 dec_Bid bs @ torn # garbled \<and>
      length garbled = length cs \<and> bid_id torn = bid_id b \<and> bid_auction_id torn = bid_auction_id b \<and>
      bidder_id torn = bidder_id b \<and> bid_amount torn = bid_amount b"
    unfolding bs' by (intro exI conjI)
  have "length bs' = length bs + 40 * Suc (length cs) + k" using assms(3) l by (simp add: bs')
  moreover have "40 dvd length bs + 40 * Suc (length cs)" using assms(1) by simp
  ultimately have "40 dvd length bs' \<longleftrightarrow> 40 dvd k" by (simp only: dvd_add_right_iff)
  then show "\<not> 40 dvd length bs'" using assms(2,3) by (auto dest: dvd_imp_le)
qed

section \<open>Properties\<close>

text \<open>C30: The record model of the data files is what the bytes show: start with files of whole records
  and run any sequence of the writing operations of \<^verbatim>\<open>file_io.h\<close>, each with its \<^verbatim>\<open>lseek\<close> and a
  complete \<^verbatim>\<open>write\<close> of a struct, also past the end of a file or into one that does not exist. They return
  what the operations on records return, the files are again whole records and those of the model,
  and every lookup by identifier, search by name, search for a session and next identifier on
  the bytes gives what it gives on the records.\<close>

theorem files_refine_records:
  assumes "on_disk d w" and "\<forall>x \<in> set ops. op_ok x"
    and "run_ops disk_op ops d = (results, d')" and "run_ops record_op ops w = (results', w')"
  shows "results = results' \<and> on_disk d' w' \<and>
    disk_read_user i d' = read_user i w' \<and> disk_read_auction i d' = read_auction i w' \<and>
    disk_read_dispute i d' = read_dispute i w' \<and>
    disk_find_user_by_username name d' = find_user_by_username name w' \<and>
    disk_find_session_slot i d' = find_session_slot i w' \<and>
    disk_next_user_id d' = next_user_id w' \<and> disk_next_auction_id d' = next_auction_id w' \<and>
    disk_next_bid_id d' = next_bid_id w' \<and> disk_next_dispute_id d' = next_dispute_id w'"
proof -
  from ops_refine [OF assms(1,2)] assms(3,4) have r: "results = results'" and d: "on_disk d' w'" by simp_all
  then show ?thesis by (simp add: reads_refine [OF d] scans_refine [OF d])
qed

definition empty_disk :: disk where
  "empty_disk = \<lparr>users_dat = None, auctions_dat = None, bids_dat = None, sessions_dat = None,
     feedback_dat = None, disputes_dat = None, can_open = (\<lambda>_. True)\<rparr>"

definition empty_world :: world where
  "empty_world = \<lparr>users_file = None, auctions_file = None, bids_file = None, sessions_file = None,
     feedback_file = None, disputes_file = None, txn_log = [], writable = (\<lambda>_. True), registry = [],
     sent = [], now = 0\<rparr>"

definition sample_op_bid :: "u32 \<Rightarrow> Bid" where
  "sample_op_bid i = \<lparr>bid_id = i, bid_auction_id = 7, bidder_id = 9, bid_amount = rs 50, placed_at = 1000,
     is_winning = False\<rparr>"

theorem files_refine_records_witness:
  "disk_next_bid_id (snd (run_ops disk_op
      [Append_Bid (sample_op_bid 1), Write_User (zero_User\<lparr>user_id := 3\<rparr>), Append_Bid (sample_op_bid 2)] empty_disk)) =
   next_bid_id (snd (run_ops record_op
      [Append_Bid (sample_op_bid 1), Write_User (zero_User\<lparr>user_id := 3\<rparr>), Append_Bid (sample_op_bid 2)] empty_world))"
proof -
  have "on_disk empty_disk empty_world"
    by (simp add: on_disk_def empty_disk_def file_shows_def contents_def empty_world_def)
  moreover have "\<forall>x \<in> set [Append_Bid (sample_op_bid 1), Write_User (zero_User\<lparr>user_id := 3\<rparr>),
      Append_Bid (sample_op_bid 2)]. op_ok x"
    by (simp add: sample_op_bid_def bid_ok_def user_ok_def zero_User_def dbl_ok_rs fits_def MAX_USERNAME_def
        MAX_PASSWORD_def MAX_NAME_def)
  ultimately show ?thesis
    using files_refine_records [OF _ _ prod.collapse [symmetric] prod.collapse [symmetric]] by blast
qed

text \<open>C37: A \<^verbatim>\<open>write\<close> that is cut short leaves the log of bids misaligned for good, and turns a failure
  into a bid. When the disk takes \<open>k\<close> of the 40 bytes, \<open>24 \<le> k\<close>, \<^verbatim>\<open>append_bid\<close> returns -1. Every later
  append returns 0, but the next bid completes the torn record: the file then holds a bid with the
  identifier, auction, bidder and amount of the one that failed, and the next bid is nowhere.\<close>

theorem short_append_misaligns:
  assumes "40 dvd length (contents (bids_dat d))" and "can_open d FILE_BIDS"
    and "24 \<le> k" and "k < 40" and "\<forall>x \<in> set (b # c # cs). bid_ok x"
    and "disk_append_bid (int k) b d = (r, d1)"
    and "run_ops disk_op (map Append_Bid (c # cs)) d1 = (results, d2)"
  shows "r = -1 \<and> results = replicate (Suc (length cs)) 0 \<and>
    (\<exists>torn garbled. read_records 40 dec_Bid (contents (bids_dat d2)) =
       read_records 40 dec_Bid (contents (bids_dat d)) @ torn # garbled \<and>
       length garbled = length cs \<and> bid_id torn = bid_id b \<and> bid_auction_id torn = bid_auction_id b \<and>
       bidder_id torn = bidder_id b \<and> bid_amount torn = bid_amount b) \<and>
    \<not> 40 dvd length (contents (bids_dat d2))"
proof -
  from assms(2,4,6) have r: "r = -1" and "can_open d1 FILE_BIDS"
    and d1: "contents (bids_dat d1) = contents (bids_dat d) @ take k (enc_Bid b)"
    by (auto simp: disk_append_bid_def put_end_def contents_def)
  with append_bids [of d1 "c # cs"] assms(5,7) have res: "results = replicate (Suc (length cs)) 0"
    and d2: "contents (bids_dat d2) = contents (bids_dat d) @ take k (enc_Bid b) @ concat (map enc_Bid (c # cs))"
    by simp_all
  have b: "bid_ok b" "\<forall>x \<in> set (c # cs). bid_ok x" using assms(5) by simp_all
  note torn_log [OF assms(1,3,4) b d2]
  with r res show ?thesis by (intro conjI)
qed

theorem short_append_misaligns_witness:
  "fst (disk_append_bid 24 (sample_op_bid 1) empty_disk) = -1 \<and>
   (\<exists>torn garbled. read_records 40 dec_Bid (contents (bids_dat
        (snd (run_ops disk_op (map Append_Bid [sample_op_bid 2])
          (snd (disk_append_bid 24 (sample_op_bid 1) empty_disk)))))) = torn # garbled \<and> bid_id torn = 1)"
proof -
  have ok: "\<forall>x \<in> set [sample_op_bid 1, sample_op_bid 2]. bid_ok x"
    by (simp add: sample_op_bid_def bid_ok_def dbl_ok_rs fits_def)
  have e: "40 dvd length (contents (bids_dat empty_disk))" "can_open empty_disk FILE_BIDS"
    "contents (bids_dat empty_disk) = []" "bid_id (sample_op_bid 1) = 1"
    by (simp_all add: empty_disk_def contents_def sample_op_bid_def)
  from short_append_misaligns [OF e(1,2) _ _ ok, of 24 "fst (disk_append_bid 24 (sample_op_bid 1) empty_disk)"]
  show ?thesis using e by (simp add: read_records_short prod_eq_iff) blast
qed

end
