(* ===== verification/Socket_Writers.thy ===== *)
theory Socket_Writers
  imports Wire
begin

text \<open>
  The threads that write to the sockets of the clients: \<^verbatim>\<open>send_msg\<close> of \<^verbatim>\<open>server/server.c\<close> on the
  worker's own connection, and \<^verbatim>\<open>push_notification\<close> of \<^verbatim>\<open>server/notify.c\<close> on the connection that the
  registry gives for a user. A message takes one \<^verbatim>\<open>write\<close> for its header and one or more for its
  payload, each a single step whose result is chosen by the step; the lookup in the registry is a step of
  its own, since \<^verbatim>\<open>registry_lock\<close> is released before the first \<^verbatim>\<open>write\<close>. No mutex belongs to a socket.

  The theory shows when the bytes of a socket are the whole messages of the list \<open>sent\<close> of the other
  theories, and what happens to a client when two writers meet on its socket or when a descriptor
  changes its owner between the lookup and the \<^verbatim>\<open>write\<close>. The bytes of connections that have the
  same descriptor one after the other follow one another in the model.
\<close>

section \<open>A message in steps\<close>

datatype writer = Sender int message | Pusher u32 message

primrec writer_message :: "writer \<Rightarrow> message" where
  "writer_message (Sender fd m) = m"
| "writer_message (Pusher uid m) = m"

datatype write_phase =
    PW_lookup \<comment> \<open>about to look the user up\<close>
  | PW_header int \<comment> \<open>about to write the header to the descriptor\<close>
  | PW_payload int "char list" \<comment> \<open>about to write what is left of the payload\<close>
  | PW_done

definition message_payload :: "message \<Rightarrow> char list" where
  "message_payload m = payload_bytes (msg_payload m)"

definition after_header :: "int \<Rightarrow> message \<Rightarrow> write_phase" where
  \<comment> \<open>the payload follows if there is any\<close>
  "after_header fd m = (if message_payload m = [] then PW_done else PW_payload fd (message_payload m))"

primrec first_write :: "writer \<Rightarrow> write_phase" where
  "first_write (Sender fd m) = PW_header fd"
| "first_write (Pusher uid m) = PW_lookup"

fun push_act :: "RegistryEntry list \<Rightarrow> int \<Rightarrow> u32 \<Rightarrow> message \<Rightarrow> write_phase \<Rightarrow> write_phase" where
  \<comment> \<open>the next phase of \<^verbatim>\<open>push_notification\<close>, when its \<^verbatim>\<open>write\<close> returns \<open>n\<close>\<close>
  "push_act reg n uid m PW_lookup = (let fd = lookup_fd uid reg in if fd < 0 then PW_done else PW_header fd)"
| "push_act reg n uid m (PW_header fd) = (if n < 0 then PW_done else after_header fd m)"
| "push_act reg n uid m (PW_payload fd bs) = PW_done"
| "push_act reg n uid m PW_done = PW_done"

fun send_act :: "int \<Rightarrow> message \<Rightarrow> write_phase \<Rightarrow> write_phase" where
  \<comment> \<open>the next phase of \<^verbatim>\<open>send_msg\<close>\<close>
  "send_act n m (PW_header fd) = (if n \<noteq> 12 then PW_done else after_header fd m)"
| "send_act n m (PW_payload fd bs) =
     (if n \<le> 0 then PW_done
      else let bs = drop (nat n) bs in if bs = [] then PW_done else PW_payload fd bs)"
| "send_act n m p = p"

primrec write_act :: "RegistryEntry list \<Rightarrow> int \<Rightarrow> writer \<Rightarrow> write_phase \<Rightarrow> write_phase" where
  "write_act reg n (Sender fd m) = send_act n m"
| "write_act reg n (Pusher uid m) = push_act reg n uid m"

fun written :: "int \<Rightarrow> message \<Rightarrow> write_phase \<Rightarrow> (int \<times> char list) option" where
  \<comment> \<open>the descriptor and the bytes that go out\<close>
  "written n m (PW_header fd) = Some (fd, take (nat n) (enc_header (message_header m)))"
| "written n m (PW_payload fd bs) = Some (fd, take (nat n) bs)"
| "written n m _ = None"

section \<open>The sockets\<close>

record sockets =
  so_registry :: "RegistryEntry list"
  so_bytes :: "int \<Rightarrow> char list" \<comment> \<open>what the peer of a descriptor has been sent\<close>
  so_sent :: "(int \<times> message) list" \<comment> \<open>the messages in the order of their headers\<close>
  so_writers :: "nat \<Rightarrow> (writer \<times> write_phase) option"

definition put_out :: "(int \<times> char list) option \<Rightarrow> (int \<Rightarrow> char list) \<Rightarrow> int \<Rightarrow> char list" where
  "put_out x f = (case x of None \<Rightarrow> f | Some (fd, bs) \<Rightarrow> f(fd := f fd @ bs))"

definition note_sent :: "message \<Rightarrow> write_phase \<Rightarrow> (int \<times> message) list \<Rightarrow> (int \<times> message) list" where
  "note_sent m p xs = (case p of PW_header fd \<Rightarrow> xs @ [(fd, m)] | _ \<Rightarrow> xs)"

inductive sock_step :: "(sockets \<Rightarrow> nat \<Rightarrow> int \<Rightarrow> bool) \<Rightarrow> sockets \<Rightarrow> sockets \<Rightarrow> bool"
  for may :: "sockets \<Rightarrow> nat \<Rightarrow> int \<Rightarrow> bool" where
  start: "so_writers s t = None \<or> so_writers s t = Some (y, PW_done) \<Longrightarrow>
     sock_step may s (s\<lparr>so_writers := (so_writers s)(t \<mapsto> (x, first_write x))\<rparr>)"
| act: "so_writers s t = Some (x, p) \<Longrightarrow> may s t n \<Longrightarrow>
     sock_step may s
       (s\<lparr>so_bytes := put_out (written n (writer_message x) p) (so_bytes s),
          so_sent := note_sent (writer_message x) p (so_sent s),
          so_writers := (so_writers s)(t \<mapsto> (x, write_act (so_registry s) n x p))\<rparr>)"
| login: "sock_step may s (s\<lparr>so_registry := register_loop uid fd (so_registry s)\<rparr>)"
| logout: "sock_step may s (s\<lparr>so_registry := unregister_loop uid (so_registry s)\<rparr>)"

inductive sock_reach :: "(sockets \<Rightarrow> nat \<Rightarrow> int \<Rightarrow> bool) \<Rightarrow> sockets \<Rightarrow> sockets \<Rightarrow> bool"
  for may :: "sockets \<Rightarrow> nat \<Rightarrow> int \<Rightarrow> bool" and start :: sockets where
  here: "sock_reach may start start"
| further: "sock_reach may start s \<Longrightarrow> sock_step may s s' \<Longrightarrow> sock_reach may start s'"

definition no_writers :: "RegistryEntry list \<Rightarrow> sockets" where
  "no_writers reg = \<lparr>so_registry = reg, so_bytes = (\<lambda>_. []), so_sent = [], so_writers = (\<lambda>_. None)\<rparr>"

fun left_to_write :: "int \<Rightarrow> write_phase \<Rightarrow> char list" where
  "left_to_write fd (PW_payload fd' bs) = (if fd = fd' then bs else [])"
| "left_to_write fd _ = []"

definition busy :: "sockets \<Rightarrow> int \<Rightarrow> nat \<Rightarrow> bool" where
  \<comment> \<open>the thread is in the middle of a message on the descriptor\<close>
  "busy s fd t \<longleftrightarrow> (\<exists>x p. so_writers s t = Some (x, p) \<and> left_to_write fd p \<noteq> [])"

definition one_at_a_time :: "int \<Rightarrow> sockets \<Rightarrow> nat \<Rightarrow> int \<Rightarrow> bool" where
  \<comment> \<open>nobody begins a message on the descriptor inside another one, and no message is cut off\<close>
  "one_at_a_time fd s t n =
     (case so_writers s t of
        Some (x, PW_header fd') \<Rightarrow> fd' = fd \<longrightarrow> n = 12 \<and> (\<nexists>t'. busy s fd t')
      | Some (Pusher uid m, PW_payload fd' bs) \<Rightarrow> fd' = fd \<longrightarrow> n = int (length bs)
      | Some (Sender to m, PW_payload fd' bs) \<Rightarrow> fd' = fd \<longrightarrow> 0 < n
      | _ \<Rightarrow> True)"

definition stream_of :: "int \<Rightarrow> (int \<times> message) list \<Rightarrow> char list" where
  \<comment> \<open>the bytes of the messages to a descriptor\<close>
  "stream_of fd xs = concat (map (\<lambda>x. message_bytes (snd x)) (filter (\<lambda>x. fst x = fd) xs))"


section \<open>Whole messages\<close>

lemma header_bytes_length: "length (enc_header (message_header m)) = 12"
proof (rule header_codec.enc_length)
  show "header_ok (message_header m)"
    by (cases "msg_status m") (simp_all add: header_ok_def message_header_def fits_def)
qed

lemma after_header_left [simp]:
  "left_to_write fd (after_header fd' m) = (if fd = fd' then message_payload m else [])"
  by (simp add: after_header_def)

definition whole :: "int \<Rightarrow> sockets \<Rightarrow> bool" where
  \<comment> \<open>\<open>bs\<close> is what the one thread inside a message still has to write\<close>
  "whole fd s \<longleftrightarrow>
     (\<exists>bs. so_bytes s fd @ bs = stream_of fd (so_sent s) \<and>
       (\<forall>t x p. so_writers s t = Some (x, p) \<longrightarrow> left_to_write fd p = [] \<or> left_to_write fd p = bs) \<and>
       (\<forall>t t'. busy s fd t \<and> busy s fd t' \<longrightarrow> t = t') \<and>
       (bs \<noteq> [] \<longrightarrow> (\<exists>t. busy s fd t)))"

definition went_out :: "int \<Rightarrow> int \<Rightarrow> message \<Rightarrow> write_phase \<Rightarrow> char list" where
  \<comment> \<open>what a step adds to the bytes of the descriptor\<close>
  "went_out fd n m p = (case written n m p of Some (fd', bs) \<Rightarrow> if fd' = fd then bs else [] | None \<Rightarrow> [])"

lemma put_out_went_out: "put_out (written n m p) f fd = f fd @ went_out fd n m p"
  by (simp add: put_out_def went_out_def split: option.split)

lemma stream_of_note:
  "stream_of fd (note_sent m p xs) = stream_of fd xs @ (if p = PW_header fd then message_bytes m else [])"
  by (cases p) (simp_all add: note_sent_def stream_of_def)

lemma header_goes_out:
  assumes "one_at_a_time fd s t n" and "so_writers s t = Some (x, PW_header fd)"
  shows "went_out fd n (writer_message x) (PW_header fd) @
      left_to_write fd (write_act (so_registry s) n x (PW_header fd)) = message_bytes (writer_message x)"
    and "\<nexists>t'. busy s fd t'"
  using assms header_bytes_length [of "writer_message x"]
  by (cases x; simp add: one_at_a_time_def went_out_def message_bytes_def message_payload_def)+

lemma rest_goes_out:
  assumes "one_at_a_time fd s t n" and "so_writers s t = Some (x, p)" and "p \<noteq> PW_header fd"
  shows "went_out fd n (writer_message x) p @ left_to_write fd (write_act (so_registry s) n x p) = left_to_write fd p"
  using assms by (cases x; cases p) (auto simp: one_at_a_time_def went_out_def Let_def)

lemma whole_act:
  assumes w: "whole fd s" and t: "so_writers s t = Some (x, p)" and may: "one_at_a_time fd s t n"
  shows "whole fd (s\<lparr>so_bytes := put_out (written n (writer_message x) p) (so_bytes s),
    so_sent := note_sent (writer_message x) p (so_sent s),
    so_writers := (so_writers s)(t \<mapsto> (x, write_act (so_registry s) n x p))\<rparr>)" (is "whole fd ?s")
proof -
  let ?out = "went_out fd n (writer_message x) p" and ?left = "left_to_write fd (write_act (so_registry s) n x p)"
  have busy: "busy ?s fd t' \<longleftrightarrow> (if t' = t then ?left \<noteq> [] else busy s fd t')" for t'
    by (simp add: busy_def)
  have bytes: "so_bytes ?s fd = so_bytes s fd @ ?out" by (simp add: put_out_went_out)
  obtain bs where bs: "so_bytes s fd @ bs = stream_of fd (so_sent s)"
    "\<forall>t x p. so_writers s t = Some (x, p) \<longrightarrow> left_to_write fd p = [] \<or> left_to_write fd p = bs"
    "\<forall>t t'. busy s fd t \<and> busy s fd t' \<longrightarrow> t = t'" "bs \<noteq> [] \<longrightarrow> (\<exists>t. busy s fd t)"
    using w by (auto simp: whole_def)
  have alone: "left_to_write fd q = []" if "\<not> busy s fd t'" "so_writers s t' = Some (y, q)" for t' y q
    using that by (auto simp: busy_def)
  consider (header) "p = PW_header fd" | (idle) "p \<noteq> PW_header fd" "left_to_write fd p = []"
    | (payload) "p \<noteq> PW_header fd" "left_to_write fd p = bs" "bs \<noteq> []"
    using bs(2) t by blast
  then show ?thesis
  proof cases
    case header
    with header_goes_out [OF may] t have out: "?out @ ?left = message_bytes (writer_message x)"
      and none: "\<nexists>t'. busy s fd t'" by simp_all
    have "so_bytes ?s fd @ ?left = so_bytes s fd @ message_bytes (writer_message x)"
      unfolding bytes append_assoc out ..
    then have "so_bytes ?s fd @ ?left = stream_of fd (so_sent ?s)"
      using bs(1,4) none header by (simp add: stream_of_note)
    then show ?thesis unfolding whole_def
      using none alone by (intro exI [of _ ?left]) (auto simp: busy)
  next
    case idle
    with rest_goes_out [OF may t] have "?out = []" "?left = []" by simp_all
    moreover have "\<not> busy s fd t" using idle t by (simp add: busy_def)
    ultimately show ?thesis unfolding whole_def
      using bs idle by (intro exI [of _ bs]) (auto simp: busy put_out_went_out stream_of_note split: if_splits)
  next
    case payload
    with rest_goes_out [OF may t] have out: "?out @ ?left = bs" by simp
    have "busy s fd t" using payload t by (simp add: busy_def)
    with bs(3) have others: "\<not> busy s fd t'" if "t' \<noteq> t" for t' using that by blast
    have "so_bytes ?s fd @ ?left = stream_of fd (so_sent ?s)"
      using bs(1) out payload(1) by (simp add: put_out_went_out stream_of_note)
    then show ?thesis unfolding whole_def
      using others alone by (intro exI [of _ ?left]) (auto simp: busy)
  qed
qed

lemma whole_start:
  assumes w: "whole fd s" and t: "so_writers s t = None \<or> so_writers s t = Some (y, PW_done)"
  shows "whole fd (s\<lparr>so_writers := (so_writers s)(t \<mapsto> (x, first_write x))\<rparr>)" (is "whole fd ?s")
proof -
  have l: "left_to_write fd (first_write x) = []" by (cases x) simp_all
  have "\<not> busy s fd t" using t by (auto simp: busy_def)
  then have busy: "busy ?s fd = busy s fd" by (auto simp: busy_def fun_eq_iff l)
  from w show ?thesis by (auto simp: whole_def busy l)
qed

lemma reach_whole: "sock_reach (one_at_a_time fd) (no_writers reg) s \<Longrightarrow> whole fd s"
proof (induction rule: sock_reach.induct)
  case here
  then show ?case by (simp add: whole_def no_writers_def busy_def stream_of_def)
next
  case (further s s')
  from further.hyps(2) show ?case
  proof cases
    case (start t y x)
    with further.IH show ?thesis by (simp add: whole_start)
  next
    case (act t x p n)
    with further.IH show ?thesis by (simp add: whole_act)
  next
    case (login uid fd')
    with further.IH show ?thesis by (simp add: whole_def busy_def)
  next
    case (logout uid)
    with further.IH show ?thesis by (simp add: whole_def busy_def)
  qed
qed


section \<open>Single steps\<close>

abbreviation unguarded :: "sockets \<Rightarrow> nat \<Rightarrow> int \<Rightarrow> bool" where
  \<comment> \<open>the code: nothing keeps a thread from its next \<^verbatim>\<open>write\<close>\<close>
  "unguarded \<equiv> \<lambda>_ _ _. True"

definition at_write :: "sockets \<Rightarrow> (int \<Rightarrow> char list) \<Rightarrow> (int \<times> message) list \<Rightarrow>
    (nat \<Rightarrow> (writer \<times> write_phase) option) \<Rightarrow> sockets" where
  "at_write s f xs ths = s\<lparr>so_bytes := f, so_sent := xs, so_writers := ths\<rparr>"

lemma at_write_simps [simp]:
  "so_registry (at_write s f xs ths) = so_registry s" "so_bytes (at_write s f xs ths) = f"
  "so_sent (at_write s f xs ths) = xs" "so_writers (at_write s f xs ths) = ths"
  "at_write (at_write s f xs ths) f' xs' ths' = at_write s f' xs' ths'"
  by (simp_all add: at_write_def)

lemma at_write_self: "at_write s (so_bytes s) (so_sent s) (so_writers s) = s"
  by (simp add: at_write_def)

lemma reach_write:
  assumes "sock_reach unguarded start s" and "so_writers s t = Some (x, p)"
  shows "sock_reach unguarded start (at_write s (put_out (written n (writer_message x) p) (so_bytes s))
    (note_sent (writer_message x) p (so_sent s)) ((so_writers s)(t \<mapsto> (x, write_act (so_registry s) n x p))))"
  using sock_reach.further [OF assms(1) sock_step.act [OF assms(2), of unguarded n]] by (simp add: at_write_def)

lemma write_whole_header:
  "written 12 m (PW_header fd) = Some (fd, enc_header (message_header m))"
  by (simp add: header_bytes_length)

lemma reach_push:
  assumes "sock_reach unguarded start s" and "so_writers s t = Some (Pusher uid m, PW_header fd)"
    and "message_payload m \<noteq> []"
  shows "sock_reach unguarded start (at_write s ((so_bytes s)(fd := so_bytes s fd @ message_bytes m))
    (so_sent s @ [(fd, m)]) ((so_writers s)(t \<mapsto> (Pusher uid m, PW_done))))"
proof -
  let ?n = "int (length (message_payload m))"
  have "sock_reach unguarded start (at_write s ((so_bytes s)(fd := so_bytes s fd @ enc_header (message_header m)))
    (so_sent s @ [(fd, m)]) ((so_writers s)(t \<mapsto> (Pusher uid m, PW_payload fd (message_payload m)))))"
    using reach_write [OF assms(1,2), of 12] assms(3)
    by (simp add: write_whole_header put_out_def note_sent_def after_header_def del: written.simps)
  from reach_write [OF this, of t "Pusher uid m" "PW_payload fd (message_payload m)" ?n] show ?thesis
    by (simp add: put_out_def note_sent_def message_bytes_def message_payload_def)
qed

lemma unregister_room: "0 \<le> lookup_fd uid es \<Longrightarrow> \<exists>e \<in> set (unregister_loop uid es). \<not> reg_active e"
  by (induction es) (auto split: if_splits)

lemma torn_notice:
  assumes "notice = \<lparr>msg_type = MSG_NOTIFY_OUTBID, msg_status = ERR_OK, msg_payload = P_Outbid aid x\<rparr>"
    and "length (message_payload notice) = 16" and "16 \<le> length buf"
    and bs: "bs = enc_header (message_header notice) @ enc_header (message_header m) @ message_payload m @ message_payload notice"
  shows "\<exists>buf' rest. recv_msg (length buf) buf [bs] = Some (message_header notice, buf', rest) \<and>
    dec_u32 (field 0 4 buf') = msg_code (msg_type m) \<and>
    concat rest = drop 4 (message_payload m @ message_payload notice)"
proof -
  let ?body = "message_payload m @ message_payload notice"
  define pl where "pl = enc_header (message_header m) @ take 4 ?body"
  have cat_eq: "concat [bs] = enc_header (message_header notice) @ pl @ drop 4 ?body"
    unfolding bs pl_def by (simp del: take_append drop_append)
  have hdr: "header_ok (message_header notice)" "unat (hdr_length (message_header notice)) = 16"
    using assms(2) by (simp_all add: assms(1) header_ok_def message_header_def fits_def message_payload_def)
  have plen: "length pl = 16" using assms(2) by (simp add: pl_def header_bytes_length)
  have pieces: "\<forall>c \<in> set [bs]. c \<noteq> []" "12 \<le> length (hd [bs])"
    using header_bytes_length [of notice] by (auto simp: bs)
  from recv_msg_ok [OF pieces _ cat_eq hdr(1) _ refl, of buf] plen hdr(2) obtain rest where
    r: "recv_msg (length buf) buf [bs] = Some (message_header notice, take (length buf) pl @ drop 16 buf, rest)"
    "concat rest = drop (length buf) pl @ drop 4 ?body" by fastforce
  have "dec_u32 (field 0 4 (pl @ drop 16 buf)) = msg_code (msg_type m)"
    by (simp add: pl_def enc_header_def message_header_def codec_simps)
  with r plen assms(3) show ?thesis by (intro exI [of _ "pl @ drop 16 buf"] exI [of _ rest]) simp
qed

section \<open>Properties\<close>

text \<open>C38: The list \<open>sent\<close> of the other theories is what the clients receive: in
  every interleaving of responses and notifications, with any \<^verbatim>\<open>write\<close> of a
  response payload cut short (but none failing, and those of a header or of a notification, which
  the code does not repeat, complete) and any logins and logouts in between, as long as no thread
  begins a message on a socket while another is inside one there, the bytes of the socket are the
  whole messages sent to it, in the order of their headers; while a thread is inside a message, all
  but the bytes it still has to write are there.\<close>

theorem sockets_carry_sent:
  assumes "sock_reach (one_at_a_time fd) (no_writers reg) s"
  shows "((\<nexists>t. busy s fd t) \<longrightarrow> so_bytes s fd = stream_of fd (so_sent s)) \<and>
    (\<forall>t x bs. so_writers s t = Some (x, PW_payload fd bs) \<and> bs \<noteq> [] \<longrightarrow>
      so_bytes s fd @ bs = stream_of fd (so_sent s))"
proof -
  from reach_whole [OF assms] obtain bs where bs: "so_bytes s fd @ bs = stream_of fd (so_sent s)"
    "\<forall>t x p. so_writers s t = Some (x, p) \<longrightarrow> left_to_write fd p = [] \<or> left_to_write fd p = bs"
    "bs \<noteq> [] \<longrightarrow> (\<exists>t. busy s fd t)" by (auto simp: whole_def)
  have "bs' = bs" if "so_writers s t = Some (x, PW_payload fd bs')" "bs' \<noteq> []" for t x bs'
    using bs(2) that by fastforce
  with bs show ?thesis by auto
qed

definition sample_notice :: message where
  "sample_notice = \<lparr>msg_type = MSG_NOTIFY_AUCTION_CLOSED, msg_status = ERR_OK, msg_payload = P_AuctionClosed 7\<rparr>"

lemma sample_notice_payload: "message_payload sample_notice = enc_u32 7" "length (enc_u32 7) = 4"
  by (simp_all add: message_payload_def sample_notice_def u32_codec.enc_length)

theorem sockets_carry_sent_witness:
  "\<exists>s. sock_reach (one_at_a_time 5) (no_writers empty_registry) s \<and> so_sent s = [(5, sample_notice)] \<and>
     so_bytes s 5 = message_bytes sample_notice"
proof -
  let ?x = "Sender 5 sample_notice" and ?s = "no_writers empty_registry"
  let ?pl = "message_payload sample_notice"
  let ?at = "\<lambda>p f xs. at_write ?s f xs ((\<lambda>_. None)(0 \<mapsto> (?x, p)))"
  have e: "?pl \<noteq> []" "length ?pl = 4" using sample_notice_payload by auto
  have "sock_reach (one_at_a_time 5) ?s (?at (PW_header 5) (\<lambda>_. []) [])"
    using sock_reach.further [OF sock_reach.here sock_step.start [of ?s 0 ?x "one_at_a_time 5" ?x]]
    by (simp add: no_writers_def at_write_def)
  moreover have "one_at_a_time 5 (?at (PW_header 5) (\<lambda>_. []) []) 0 12" by (simp add: one_at_a_time_def busy_def)
  ultimately have 1: "sock_reach (one_at_a_time 5) ?s
      (?at (PW_payload 5 ?pl) ((\<lambda>_. [])(5 := enc_header (message_header sample_notice))) [(5, sample_notice)])"
    using sock_reach.further [OF _ sock_step.act [of "?at (PW_header 5) (\<lambda>_. []) []" 0 ?x "PW_header 5" "one_at_a_time 5" 12]] e
    by (simp add: at_write_def put_out_def note_sent_def after_header_def header_bytes_length)
  let ?s1 = "?at (PW_payload 5 ?pl) ((\<lambda>_. [])(5 := enc_header (message_header sample_notice))) [(5, sample_notice)]"
  have "one_at_a_time 5 ?s1 0 4" by (simp add: one_at_a_time_def)
  with sock_reach.further [OF 1 sock_step.act [of ?s1 0 ?x "PW_payload 5 ?pl" "one_at_a_time 5" 4]] e
  have 2: "sock_reach (one_at_a_time 5) ?s (?at PW_done
      ((\<lambda>_. [])(5 := enc_header (message_header sample_notice) @ ?pl)) [(5, sample_notice)])" (is "sock_reach _ _ ?s2")
    by (simp add: at_write_def put_out_def note_sent_def)
  have "\<nexists>t. busy ?s2 5 t" by (auto simp: busy_def split: if_splits)
  with sockets_carry_sent [OF 2] have "so_bytes ?s2 5 = stream_of 5 (so_sent ?s2)" by blast
  with 2 show ?thesis by (intro exI [of _ ?s2]) (simp add: stream_of_def)
qed

text \<open>Two threads that write to one socket at once tear their messages apart. A thread that pushes an
  outbid notice and the worker of that user who sends a response can write both headers first. The
  user's client then reads a notice whose auction number is the type code of the response, and takes
  the inside of the response for the next header.\<close>

lemma writers_tear_messages:
  assumes "so_writers s t1 = Some (Pusher uid notice, PW_lookup)" and "so_writers s t2 = Some (Sender fd m, PW_header fd)"
    and "lookup_fd uid (so_registry s) = fd" and "0 \<le> fd" and "so_bytes s fd = []"
    and "notice = \<lparr>msg_type = MSG_NOTIFY_OUTBID, msg_status = ERR_OK, msg_payload = P_Outbid aid x\<rparr>" and "dbl_ok x"
    and "message_payload m \<noteq> []" and "16 \<le> length buf"
  shows "\<exists>s' buf' rest. sock_reach (\<lambda>_ _ _. True) s s' \<and>
    so_writers s' = (so_writers s)(t1 \<mapsto> (Pusher uid notice, PW_done), t2 \<mapsto> (Sender fd m, PW_done)) \<and>
    recv_msg (length buf) buf [so_bytes s' fd] = Some (message_header notice, buf', rest) \<and>
    dec_u32 (field 0 4 buf') = msg_code (msg_type m) \<and>
    concat rest = drop 4 (message_payload m @ message_payload notice)"
proof -
  let ?hn = "enc_header (message_header notice)" and ?hm = "enc_header (message_header m)"
  let ?pn = "message_payload notice" and ?pm = "message_payload m"
  have ne: "t1 \<noteq> t2" using assms(1,2) by auto
  have len: "length ?pn = 16" using assms(7) by (simp add: assms(6) message_payload_def codec_simps)
  then have pn: "?pn \<noteq> []" by auto
  let ?ths = "\<lambda>p q. (so_writers s)(t1 \<mapsto> (Pusher uid notice, p), t2 \<mapsto> (Sender fd m, q))"
  let ?f = "\<lambda>bs. (so_bytes s)(fd := bs)"
  have s: "at_write s (?f []) (so_sent s) (?ths PW_lookup (PW_header fd)) = s"
    using assms(1,2,5) at_write_self [of s] by (simp add: fun_upd_idem)
  have "sock_reach unguarded s (at_write s (?f []) (so_sent s) (?ths PW_lookup (PW_header fd)))"
    unfolding s by (rule sock_reach.here)
  from reach_write [OF this, of t1 _ _ 0] ne assms(3,4)
  have "sock_reach unguarded s (at_write s (?f []) (so_sent s) (?ths (PW_header fd) (PW_header fd)))"
    by (simp add: put_out_def note_sent_def Let_def fun_upd_twist)
  from reach_write [OF this, of t1 _ _ 12] ne pn
  have "sock_reach unguarded s (at_write s (?f ?hn) (so_sent s @ [(fd, notice)]) (?ths (PW_payload fd ?pn) (PW_header fd)))"
    by (simp add: write_whole_header put_out_def note_sent_def after_header_def fun_upd_twist del: written.simps)
  from reach_write [OF this, of t2 _ _ 12] ne assms(8)
  have "sock_reach unguarded s (at_write s (?f (?hn @ ?hm)) (so_sent s @ [(fd, notice), (fd, m)])
      (?ths (PW_payload fd ?pn) (PW_payload fd ?pm)))"
    by (simp add: write_whole_header put_out_def note_sent_def after_header_def fun_upd_twist del: written.simps)
  from reach_write [OF this, of t2 _ _ "int (length ?pm)"] ne assms(8)
  have "sock_reach unguarded s (at_write s (?f (?hn @ ?hm @ ?pm)) (so_sent s @ [(fd, notice), (fd, m)])
      (?ths (PW_payload fd ?pn) PW_done))"
    by (simp add: put_out_def note_sent_def fun_upd_twist)
  from reach_write [OF this, of t1 _ _ 16] ne
  have r: "sock_reach unguarded s (at_write s (?f (?hn @ ?hm @ ?pm @ ?pn)) (so_sent s @ [(fd, notice), (fd, m)])
      (?ths PW_done PW_done))"
    by (simp add: put_out_def note_sent_def fun_upd_twist len)
  let ?s2 = "at_write s (?f (?hn @ ?hm @ ?pm @ ?pn)) (so_sent s @ [(fd, notice), (fd, m)]) (?ths PW_done PW_done)"
  have "so_bytes ?s2 fd = ?hn @ ?hm @ ?pm @ ?pn" by simp
  from torn_notice [OF assms(6) len assms(9) this] r show ?thesis by (metis at_write_simps(4))
qed

text \<open>A notification can reach the wrong client. When a user logs out after a thread has looked up
  that user's descriptor, and the next client to log in is given the same descriptor, the notice is
  written to that client's connection as a whole message; no \<^verbatim>\<open>write\<close> fails.\<close>

lemma notice_to_wrong_client:
  assumes "so_writers s t = Some (Pusher uid m, PW_lookup)" and "registry_inv (so_registry s)"
    and "lookup_fd uid (so_registry s) = fd" and "0 \<le> fd" and "lookup_fd v (so_registry s) < 0" and "v \<noteq> uid"
    and "message_payload m \<noteq> []"
  shows "\<exists>s'. sock_reach (\<lambda>_ _ _. True) s s' \<and> so_writers s' = (so_writers s)(t \<mapsto> (Pusher uid m, PW_done)) \<and>
    lookup_fd uid (so_registry s') < 0 \<and> lookup_fd v (so_registry s') = fd \<and>
    so_bytes s' fd = so_bytes s fd @ message_bytes m"
proof -
  let ?reg = "register_loop v fd (unregister_loop uid (so_registry s))"
  let ?s1 = "at_write s (so_bytes s) (so_sent s) ((so_writers s)(t \<mapsto> (Pusher uid m, PW_header fd)))"
  have "sock_reach unguarded s ?s1"
    using reach_write [OF sock_reach.here assms(1), of 0] assms(3,4)
    by (simp add: put_out_def note_sent_def Let_def)
  from sock_reach.further [OF sock_reach.further [OF this sock_step.logout [of unguarded _ uid]] sock_step.login [of unguarded _ v fd]]
  have "sock_reach unguarded s (?s1\<lparr>so_registry := ?reg\<rparr>)" by simp
  from reach_push [OF this _ assms(7), of t uid fd]
  have r: "sock_reach unguarded s (at_write (?s1\<lparr>so_registry := ?reg\<rparr>) ((so_bytes s)(fd := so_bytes s fd @ message_bytes m))
      (so_sent s @ [(fd, m)]) ((so_writers s)(t \<mapsto> (Pusher uid m, PW_done))))" (is "sock_reach _ _ ?s2") by simp
  have inv: "registry_inv (unregister_loop uid (so_registry s))" using assms(2) by (rule rg.inv_unreg)
  have off: "lookup_fd v (unregister_loop uid (so_registry s)) < 0" using assms by (simp add: rg.look_unreg)
  have "\<exists>e \<in> set (unregister_loop uid (so_registry s)). \<not> reg_active e"
    using assms(3,4) by (intro unregister_room) simp
  from rg.look_reg [OF inv off this] assms(2,6)
  have "lookup_fd v ?reg = fd" "lookup_fd uid ?reg < 0" by (simp_all add: rg.look_unreg)
  with r show ?thesis by (intro exI [of _ ?s2]) simp
qed

end
