(* ===== verification/Trading.thy ===== *)
theory Trading
  imports System Escrow
begin

text \<open>
  The money of the whole server: \<open>System\<close> and \<open>Escrow\<close> put together. A run of the server in which
  users pay, bid, create, close, file disputes and administer, in any order and on any number of
  connections, keeps an account of what has been deposited. The theory shows that in every state of
  such a run the balances of all users on file add up to the deposits, every hold is backed by open
  auctions, and the leader of every open auction can pay.

  Two kinds of request are left out because they do not have this property: a change of password
  writes back a stale wallet (\<open>change_password_reverts_record\<close>), and a refund can create or destroy
  money (\<open>refund_moves_money\<close>). The amounts are whole rupees and the deposits stay below \<open>2 ^ 52\<close>.
\<close>

section \<open>Runs\<close>

definition whole :: "dbl \<Rightarrow> bool" where
  "whole x \<longleftrightarrow> x = rs (rupees x)"

fun ordinary :: "request \<Rightarrow> bool" where
  \<comment> \<open>whole amounts, no deposit (it is counted), no change of password, no refund\<close>
  "ordinary (RQ_PLACE_BID q) = whole (bid_req_amount q)"
| "ordinary (RQ_CREATE_AUCTION q) = whole (create_start_price q)"
| "ordinary (RQ_RESOLVE_DISPUTE q) = (resolve_new_status q \<noteq> DISPUTE_RESOLVED)"
| "ordinary (RQ_DEPOSIT q) = False"
| "ordinary (RQ_CHANGE_PASS q) = False"
| "ordinary _ = True"

definition paid_in :: "conn \<Rightarrow> DepositPayload \<Rightarrow> int" where
  \<comment> \<open>what a deposit adds: nothing before a login or for an amount that is not positive\<close>
  "paid_in c q = (if authenticated c then max 0 (rupees (deposit_amount q)) else 0)"

inductive trading :: "shell \<Rightarrow> world \<Rightarrow> int \<Rightarrow> system \<Rightarrow> bool"
  for popen :: shell and w0 :: world where
  nothing: "trading popen w0 0 \<lparr>sys_world = w0, sys_conns = Map.empty\<rparr>"
| step: "trading popen w0 n s \<Longrightarrow> sys_step popen (\<lambda>c. ordinary) s s' \<Longrightarrow> trading popen w0 n s'"
| deposit:
    "trading popen w0 n s \<Longrightarrow> sys_conns s fd = Some c \<Longrightarrow> running c \<Longrightarrow> whole (deposit_amount q) \<Longrightarrow>
     n + paid_in c q < exact_limit \<Longrightarrow> serve_request popen (RQ_DEPOSIT q) c (sys_world s) = (c', w') \<Longrightarrow> room w' \<Longrightarrow>
     trading popen w0 (n + paid_in c q) \<lparr>sys_world = w', sys_conns = (sys_conns s)(fd \<mapsto> c')\<rparr>"

lemma whole_finite: "whole x \<Longrightarrow> is_finite x"
  unfolding whole_def by (metis rs_finite)

lemma ordinary_finite: "ordinary rq \<Longrightarrow> finite_request rq"
  by (cases rq) (simp_all add: whole_finite)

section \<open>What leaves the escrow alone\<close>

definition wallet_of :: "u32 \<Rightarrow> world \<Rightarrow> (dbl \<times> dbl) option" where
  "wallet_of i w = map_option (\<lambda>u. (wallet_balance u, wallet_hold u)) (read_user i w)"

lemma ledger_rel_wallets:
  "ledger_rel w L \<longleftrightarrow>
     (\<forall>i. L i = None \<longrightarrow> wallet_of i w = None) \<and>
     (\<forall>i b h. L i = Some (b, h) \<longrightarrow> wallet_of i w = Some (rs b, rs h) \<and> 0 \<le> h \<and> h \<le> b \<and> b < exact_limit)"
  unfolding ledger_rel_def wallet_of_def exact_wallet_def by (intro conj_cong iff_allI imp_cong) auto

lemma escrow_wallets:
  assumes "\<And>i. wallet_of i w' = wallet_of i w" and "auctions w' = auctions w"
  shows "escrow w' L = escrow w L"
  using assms by (simp add: escrow_def ledger_rel_wallets)

lemma wallet_of_cong: "users_file w' = users_file w \<Longrightarrow> wallet_of i w' = wallet_of i w"
  by (simp add: wallet_of_def read_user_def)

lemma wallet_of_write:
  assumes "read_user i w = Some r" and "user_id v = i" and "writable w FILE_USERS"
    and "wallet_balance v = wallet_balance r" "wallet_hold v = wallet_hold r"
  shows "wallet_of j (snd (write_user v w)) = wallet_of j w"
  using assms by (simp add: wallet_of_def ut.rd_update [OF assms(1,2)])

lemma toggle_wallets:
  assumes "world_inv w"
  shows "wallet_of i (handle_toggle_account fd q m w) = wallet_of i w"
proof -
  note P = world_inv_parts [OF assms]
  show ?thesis
    using reads_id [OF P(1)] P(8)
    by (auto simp: handle_toggle_account_def Let_def case_prod_beta wallet_of_write
        wallet_of_cong [of "send_msg _ _ _ _ _"] wallet_of_cong [of "log_txn _ _"] split: option.split)
qed

lemma change_role_wallets:
  assumes "world_inv w"
  shows "wallet_of i (handle_change_role fd q w) = wallet_of i w"
proof -
  note P = world_inv_parts [OF assms]
  show ?thesis
    using reads_id [OF P(1)] P(8)
    by (auto simp: handle_change_role_def Let_def case_prod_beta wallet_of_write
        wallet_of_cong [of "send_msg _ _ _ _ _"] wallet_of_cong [of "log_txn _ _"] split: option.split)
qed

lemma login_wallets:
  assumes "world_inv w"
  shows "wallet_of i (snd (snd (handle_login popen fd q out w))) = wallet_of i w"
proof (cases "\<exists>u. login_accepts popen q w u")
  case False
  then obtain e w1 where l: "handle_login popen fd q out w = (False, out, send_msg fd MSG_LOGIN_RESP e P_None w1)"
    "w1 = w \<or> w1 = snd (find_free_slot w)" using login_failure [OF False, of fd out] by blast
  then have "users_file (snd (snd (handle_login popen fd q out w))) = users_file w" by auto
  then show ?thesis by (rule wallet_of_cong)
next
  case True
  then obtain u where u: "login_accepts popen q w u" ..
  note P = world_inv_parts [OF assms]
  have "read_user (user_id u) w = Some u" using u P(9) by (auto simp: login_accepts_def intro: find_user_read)
  from wallet_of_write [OF this, of "u\<lparr>last_login := now w\<rparr>"] P(8)
  have "wallet_of i (snd (write_user (u\<lparr>last_login := now w\<rparr>) w)) = wallet_of i w" by simp
  then show ?thesis by (simp add: login_success [OF u] wallet_of_cong [OF logged_in_users])
qed

text \<open>A new account has an empty wallet; the ledger gets an entry for it.\<close>

lemma escrow_add_user:
  assumes es: "escrow w L" and inv: "world_inv w" and room: "room w"
  shows "\<exists>L'. escrow (handle_add_user popen fd q w) L' \<and> ledger_total L' = ledger_total L"
proof -
  note P = world_inv_parts [OF inv] and E = escrowD [OF es]
  let ?u = "new_user popen q w" and ?i = "next_user_id w" and ?w = "snd (write_user (new_user popen q w) w)"
  have len: "length (users w) + 1 < 2 ^ 32" using room by (simp add: room_def)
  have rows: "users ?w = users w @ [?u]" using ut.rows_create [of ?u w] len P(8) by simp
  have new: "?i = word_of_nat (length (users w)) + 1" by (rule ut.fresh_def)
  have slot: "slot_of ?i = length (users w)" using len by (simp add: new slot_of_Suc)
  have rd: "read_user j ?w = (if j = ?i then Some ?u else read_user j w)" for j
  proof (cases "j = ?i")
    case True
    then show ?thesis by (simp add: ut.rd_rows rows slot)
  next
    case False
    then have "slot_of j \<noteq> length (users w)" using slot_of_inj [of j ?i] slot by simp
    then show ?thesis using False by (simp add: ut.rd_rows rows nth_append less_Suc_eq)
  qed
  have none: "L ?i = None"
  proof (rule ccontr)
    assume "L ?i \<noteq> None"
    then obtain b h where "L ?i = Some (b, h)" by auto
    from ledger_rel_Some [OF E(1) this] show False by (auto simp: ut.rd_rows slot)
  qed
  have nz: "?i \<noteq> 0"
  proof
    assume "?i = 0"
    then have "slot_of (0 :: u32) = length (users w)" using slot by simp
    then show False using len by (simp add: slot_of_0)
  qed
  let ?L = "L(?i \<mapsto> (0, 0))"
  have "led ?i a = 0" if "a \<in> set (auctions w)" for a
    using E(4) [OF that] none nz by (auto simp: led_def priced_def)
  then have zero: "held ?i (auctions w) = 0"
    unfolding held_def by (metis (no_types, lifting) map_eq_conv sum_list_0)
  have "ledger_rel ?w ?L"
    using E(1) by (auto simp: ledger_rel_def rd exact_wallet_def zero_rs exact_limit_def)
  then have "escrow ?w ?L \<and> ledger_total ?L = ledger_total L"
  proof -
    assume rel: "ledger_rel ?w ?L"
    have "(\<Sum>j \<in> dom L. fst (the (?L j))) = (\<Sum>j \<in> dom L. fst (the (L j)))"
      using none by (intro sum.cong) auto
    then have "ledger_total ?L = ledger_total L"
      using none by (simp add: ledger_total_def domIff)
    then show ?thesis using rel es E(3) zero nz by (auto simp: escrow_def intro: priced_upd)
  qed
  moreover have "escrow (handle_add_user popen fd q w) L \<or>
      users_file (handle_add_user popen fd q w) = users_file ?w"
    using es by (simp add: add_user_world)
  ultimately show ?thesis using escrow_cong [of "handle_add_user popen fd q w" ?w ?L] by auto
qed


section \<open>Disputes\<close>

lemma escrow_status:
  assumes es: "escrow w L" and a: "read_auction i w = Some a" and "auction_status a \<noteq> AUCTION_OPEN" "st \<noteq> AUCTION_OPEN"
    and U: "users_file w' = users_file w" and A: "auctions w' = (auctions w)[slot_of i := a\<lparr>auction_status := st\<rparr>]"
  shows "escrow w' L"
proof -
  note E = escrowD [OF es]
  have slot: "slot_of i < length (auctions w)" "auctions w ! slot_of i = a" using a by (simp_all add: at.rd_Some)
  have held: "held j (auctions w') = held j (auctions w)" for j
    using slot assms(3,4) by (simp add: A held_update led_def)
  have "priced L x" if "x \<in> set (auctions w')" for x
    using that E(4) assms(4) set_update_subset_insert [of "auctions w"] unfolding A
    by (fastforce simp: priced_def)
  with es show ?thesis by (simp add: escrow_def held ledger_rel_cong [OF U])
qed

lemma escrow_file_dispute:
  assumes es: "escrow w L" and inv: "world_inv w"
  shows "escrow (handle_file_dispute fd q u w) L"
proof (cases "\<exists>a. read_auction (file_auction_id q) w = Some a \<and> auction_status a = AUCTION_CLOSED")
  case False
  then have "\<exists>e. handle_file_dispute fd q u w = send_msg fd MSG_RESOLVE_DISPUTE_RESP e P_None w"
    by (auto simp: handle_file_dispute_def split: option.split)
  with es show ?thesis by auto
next
  case True
  note P = world_inv_parts [OF inv]
  from True obtain a where a: "read_auction (file_auction_id q) w = Some a" "auction_status a = AUCTION_CLOSED" by blast
  let ?a = "a\<lparr>auction_status := AUCTION_DISPUTED\<rparr>" and ?w1 = "snd (write_dispute (new_dispute q u w) w)"
  have id: "auction_id ?a = file_auction_id q" using at.rd_ident [OF P(2) a(1)] by simp
  have "auctions (handle_file_dispute fd q u w) = auctions (snd (write_auction ?a ?w1))"
    using a dt.wr_status [of "new_dispute q u w" w] P(8)
    by (simp add: handle_file_dispute_def Let_def case_prod_beta)
  also have "\<dots> = (auctions w)[slot_of (file_auction_id q) := ?a]"
    using at.rows_update [of "file_auction_id q" ?w1 a ?a] a(1) id P(8) by simp
  finally show ?thesis using a(2) by (intro escrow_status [OF es a(1)]) simp_all
qed

lemma escrow_reject:
  assumes es: "escrow w L" and inv: "world_inv w" and st: "resolve_new_status q \<noteq> DISPUTE_RESOLVED"
  shows "escrow (handle_resolve_dispute fd q u w) L"
proof (cases "resolve_new_status q = DISPUTE_REJECTED \<and>
    (\<exists>d. read_dispute (resolve_dispute_id q) w = Some d \<and> dispute_status d = DISPUTE_OPEN)")
  case False
  with st have "\<exists>e. handle_resolve_dispute fd q u w = send_msg fd MSG_RESOLVE_DISPUTE_RESP e P_None w"
    by (auto simp: handle_resolve_dispute_def split: option.split)
  with es show ?thesis by auto
next
  case True
  note P = world_inv_parts [OF inv]
  from True obtain d where d: "read_dispute (resolve_dispute_id q) w = Some d" "dispute_status d = DISPUTE_OPEN" by blast
  then have "standing d" by (simp add: standing_def)
  then obtain a where a: "read_auction (dispute_auction_id d) w = Some a" "auction_status a = AUCTION_DISPUTED"
    using P(3) dt.rd_mem [OF d(1)] by (auto simp: disputes_inv_def)
  let ?a = "a\<lparr>auction_status := AUCTION_CLOSED\<rparr>" and ?w1 = "snd (write_dispute (decided q u (now w) d) w)"
  have id: "auction_id ?a = dispute_auction_id d" using at.rd_ident [OF P(2) a(1)] by simp
  have aid: "dispute_auction_id (decided q u (now w) d) = dispute_auction_id d" by (simp add: decided_def)
  have "auctions (handle_resolve_dispute fd q u w) = auctions (snd (write_auction ?a ?w1))"
    using True st d a aid by (auto simp: handle_resolve_dispute_def Let_def)
  also have "\<dots> = (auctions w)[slot_of (dispute_auction_id d) := ?a]"
    using at.rows_update [of "dispute_auction_id d" ?w1 a ?a] a(1) id P(8) by simp
  finally have A: "auctions (handle_resolve_dispute fd q u w) = (auctions w)[slot_of (dispute_auction_id d) := ?a]" .
  have U: "users_file (handle_resolve_dispute fd q u w) = users_file w"
    using True st d a aid by (auto simp: handle_resolve_dispute_def Let_def)
  show ?thesis using a(2) by (intro escrow_status [OF es a(1) _ _ U A]) simp_all
qed

section \<open>Every step\<close>

lemma tables_inv: "world_inv w \<Longrightarrow> tables_ok w"
  by (simp add: tables_ok_def world_inv_parts)

lemma escrow_serve:
  assumes es: "escrow w L" and inv: "world_inv w" and room: "room w" and c: "conn_ok w c" and rq: "ordinary rq"
  shows "\<exists>L'. escrow (snd (serve_request popen rq c w)) L' \<and> ledger_total L' = ledger_total L"
proof (cases "\<not> authenticated c \<and> \<not> is_login rq")
  case True
  with es show ?thesis by (auto simp: serve_request_def)
next
  case False
  note T = tables_inv [OF inv] and E = escrowD [OF es]
  have same: "\<exists>L'. escrow w' L' \<and> ledger_total L' = ledger_total L" if "escrow w' L" for w' using that by blast
  have sv: "serve_request popen rq c w = dispatch popen rq c w" using False by (auto simp: serve_request_def)
  have den: "escrow (denied c w) L" using es by simp
  have known: "L (user_id (current_user c)) \<noteq> None" if "authenticated c"
    using that c ledger_rel_None [OF E(1)] by (fastforce simp: conn_ok_def)
  have quiet: "escrow w' L" if "users_file w' = users_file w" "auctions_file w' = auctions_file w" for w'
    using that es escrow_cong [of w' w] by simp
  show ?thesis
  proof (cases rq)
    case (RQ_LOGIN q)
    have "escrow (snd (snd (handle_login popen (conn_fd c) q (current_user c) w))) L"
      using es escrow_wallets [OF login_wallets [OF inv]] by simp
    with same show ?thesis unfolding RQ_LOGIN sv [unfolded RQ_LOGIN] by simp
  next
    case (RQ_PLACE_BID q)
    with rq have "bid_req_amount q = rs (rupees (bid_req_amount q))" by (simp add: whole_def)
    from escrow_bid [OF es T this] same [OF den] show ?thesis unfolding RQ_PLACE_BID sv [unfolded RQ_PLACE_BID] by simp
  next
    case (RQ_CREATE_AUCTION q)
    with rq have "create_start_price q = rs (rupees (create_start_price q))" by (simp add: whole_def)
    moreover have "authenticated c" using False RQ_CREATE_AUCTION by simp
    ultimately have "escrow (handle_create_auction (conn_fd c) q (current_user c) w) L"
      using escrow_create [OF es T known] room by (simp add: room_def)
    with den same show ?thesis unfolding RQ_CREATE_AUCTION sv [unfolded RQ_CREATE_AUCTION] by simp
  next
    case (RQ_CLOSE_AUCTION q)
    from escrow_close [OF es T] same [OF den] show ?thesis unfolding RQ_CLOSE_AUCTION sv [unfolded RQ_CLOSE_AUCTION] by simp
  next
    case (RQ_FILE_DISPUTE q)
    from escrow_file_dispute [OF es inv] den same show ?thesis unfolding RQ_FILE_DISPUTE sv [unfolded RQ_FILE_DISPUTE] by simp
  next
    case (RQ_RESOLVE_DISPUTE q)
    from escrow_reject [OF es inv] rq den same show ?thesis unfolding RQ_RESOLVE_DISPUTE sv [unfolded RQ_RESOLVE_DISPUTE] by simp
  next
    case (RQ_TOGGLE_ACCOUNT q)
    have "escrow (handle_toggle_account (conn_fd c) q (current_user c) w) L"
      using es escrow_wallets [OF toggle_wallets [OF inv]] by simp
    with den same show ?thesis unfolding RQ_TOGGLE_ACCOUNT sv [unfolded RQ_TOGGLE_ACCOUNT] by simp
  next
    case (RQ_CHANGE_ROLE q)
    have "escrow (handle_change_role (conn_fd c) q w) L"
      using es escrow_wallets [OF change_role_wallets [OF inv]] by simp
    with den same show ?thesis unfolding RQ_CHANGE_ROLE sv [unfolded RQ_CHANGE_ROLE] by simp
  next
    case (RQ_ADD_USER q)
    from escrow_add_user [OF es inv room] same [OF den] show ?thesis unfolding RQ_ADD_USER sv [unfolded RQ_ADD_USER] by simp
  next
    case RQ_LOGOUT
    show ?thesis unfolding RQ_LOGOUT sv [unfolded RQ_LOGOUT] by (rule same, rule quiet) simp_all
  next
    case RQ_VIEW_AUCTIONS
    show ?thesis unfolding RQ_VIEW_AUCTIONS sv [unfolded RQ_VIEW_AUCTIONS] by (rule same, rule quiet) simp_all
  next
    case RQ_VIEW_BALANCE
    show ?thesis unfolding RQ_VIEW_BALANCE sv [unfolded RQ_VIEW_BALANCE] by (rule same, rule quiet) simp_all
  next
    case RQ_VIEW_MY_BIDS
    show ?thesis unfolding RQ_VIEW_MY_BIDS sv [unfolded RQ_VIEW_MY_BIDS] by (rule same, rule quiet) simp_all
  next
    case (RQ_SUBMIT_FEEDBACK q)
    show ?thesis unfolding RQ_SUBMIT_FEEDBACK sv [unfolded RQ_SUBMIT_FEEDBACK] by (rule same, rule quiet) simp_all
  next
    case RQ_VIEW_DISPUTES
    show ?thesis unfolding RQ_VIEW_DISPUTES sv [unfolded RQ_VIEW_DISPUTES] by (rule same, rule quiet) simp_all
  next
    case RQ_VIEW_FEEDBACK
    show ?thesis unfolding RQ_VIEW_FEEDBACK sv [unfolded RQ_VIEW_FEEDBACK] by (rule same, rule quiet) simp_all
  next
    case RQ_LIST_USERS
    show ?thesis unfolding RQ_LIST_USERS sv [unfolded RQ_LIST_USERS] by (rule same, rule quiet) simp_all
  next
    case RQ_OTHER
    show ?thesis unfolding RQ_OTHER sv [unfolded RQ_OTHER] by (rule same, rule quiet) simp_all
  qed (use rq in simp_all)
qed


lemma escrow_paid_in:
  assumes es: "escrow w L" and inv: "world_inv w" and c: "conn_ok w c" and q: "whole (deposit_amount q)"
    and lim: "ledger_total L + paid_in c q < exact_limit"
  shows "\<exists>L'. escrow (snd (serve_request popen (RQ_DEPOSIT q) c w)) L' \<and> ledger_total L' = ledger_total L + paid_in c q"
proof (cases "authenticated c")
  case False
  with es show ?thesis by (auto simp: serve_request_def paid_in_def)
next
  case True
  then obtain r where "read_user (user_id (current_user c)) w = Some r" using c by (auto simp: conn_ok_def)
  then obtain b h where L: "L (user_id (current_user c)) = Some (b, h)"
    using ledger_rel_None [OF escrowD(1) [OF es]] by (cases "L (user_id (current_user c))") auto
  have x: "deposit_amount q = rs (rupees (deposit_amount q))" using q by (simp add: whole_def)
  from escrow_deposit [OF es tables_inv [OF inv] L x, of "conn_fd c"] lim True show ?thesis
    by (simp add: serve_request_def paid_in_def)
qed

definition accounted :: "int \<Rightarrow> system \<Rightarrow> bool" where
  "accounted n s \<longleftrightarrow> sys_inv s \<and> (\<exists>L. escrow (sys_world s) L \<and> ledger_total L = n)"

lemma accounted_step:
  assumes acc: "accounted n s" and st: "sys_step popen (\<lambda>c. ordinary) s s'"
  shows "accounted n s'"
proof -
  from acc have inv: "sys_inv s" and "\<exists>L. escrow (sys_world s) L \<and> ledger_total L = n" by (simp_all add: accounted_def)
  then obtain L where es: "escrow (sys_world s) L" "ledger_total L = n" by blast
  have W: "world_inv (sys_world s)" "room (sys_world s)" using inv by (simp_all add: sys_inv_def)
  have "sys_inv s'" using step_inv [OF inv _ st] ordinary_finite by blast
  moreover have "\<exists>L. escrow (sys_world s') L \<and> ledger_total L = n"
    using st
  proof (cases rule: sys_stepE [consumes 1, case_names connect request hangup timer clock])
    case (connect fd)
    with es show ?thesis by auto
  next
    case (request fd c rq c' w')
    have "conn_ok (sys_world s) c" using inv request(2) by (auto simp: sys_inv_def)
    from escrow_serve [OF es(1) W this request(4), of popen] es(2) request show ?thesis by auto
  next
    case (hangup fd c)
    with es escrow_cong [of "cleanup c (sys_world s)" "sys_world s" L] show ?thesis by auto
  next
    case timer
    from escrow_timer [OF es(1) tables_inv [OF W(1)]] es(2) timer show ?thesis by auto
  next
    case (clock t)
    with es escrow_cong [of "(sys_world s)\<lparr>now := t\<rparr>" "sys_world s" L] show ?thesis by auto
  qed
  ultimately show ?thesis by (simp add: accounted_def)
qed

lemma accounted_deposit:
  assumes acc: "accounted n s" and fd: "sys_conns s fd = Some c" "running c" and q: "whole (deposit_amount q)"
    and lim: "n + paid_in c q < exact_limit"
    and sv: "serve_request popen (RQ_DEPOSIT q) c (sys_world s) = (c', w')" and room: "room w'"
  shows "accounted (n + paid_in c q) \<lparr>sys_world = w', sys_conns = (sys_conns s)(fd \<mapsto> c')\<rparr>"
proof -
  from acc have inv: "sys_inv s" and "\<exists>L. escrow (sys_world s) L \<and> ledger_total L = n" by (simp_all add: accounted_def)
  then obtain L where es: "escrow (sys_world s) L" "ledger_total L = n" by blast
  have "sys_step popen (\<lambda>c. finite_request) s \<lparr>sys_world = w', sys_conns = (sys_conns s)(fd \<mapsto> c')\<rparr>"
    by (rule sys_step.request [OF fd _ sv room]) (simp add: whole_finite [OF q])
  from step_inv [OF inv _ this] have "sys_inv \<lparr>sys_world = w', sys_conns = (sys_conns s)(fd \<mapsto> c')\<rparr>" by blast
  moreover have "world_inv (sys_world s)" "conn_ok (sys_world s) c" using inv fd(1) by (auto simp: sys_inv_def)
  ultimately show ?thesis
    using escrow_paid_in [OF es(1) _ _ q, of c popen] lim es(2) by (simp add: accounted_def sv)
qed

lemma trading_accounted:
  assumes "trading popen w0 n s" and "accounted 0 \<lparr>sys_world = w0, sys_conns = Map.empty\<rparr>"
  shows "accounted n s"
  using assms by (induction rule: trading.induct) (auto intro: accounted_step accounted_deposit)

lemma start_accounted: "accounted 0 \<lparr>sys_world = start_world popen (\<lambda>_. True) t, sys_conns = Map.empty\<rparr>"
proof -
  let ?w = "start_world popen (\<lambda>_. True) t" and ?L = "[1 \<mapsto> (0, 0)] :: ledger"
  have U: "users ?w = [seed_admin popen t]" "auctions ?w = []" by (simp_all add: start_world_def seed_main_def)
  have "wallet_balance (seed_admin popen t) = 0" "wallet_hold (seed_admin popen t) = 0"
    by (simp_all add: seed_admin_def Let_def zero_User_def)
  moreover have "read_user i ?w = (if i = 1 then Some (seed_admin popen t) else None)" for i
    using slot_of_inj [of i 1] by (auto simp: ut.rd_rows U slot_of_def)
  ultimately have "ledger_rel ?w ?L"
    by (simp add: ledger_rel_def exact_wallet_def zero_rs exact_limit_def)
  then have "escrow ?w ?L \<and> ledger_total ?L = 0"
    by (simp add: escrow_def U held_def ledger_total_def exact_limit_def)
  moreover have "sys_inv \<lparr>sys_world = ?w, sys_conns = Map.empty\<rparr>" using start_world_inv by (simp add: sys_inv_def)
  ultimately show ?thesis by (auto simp: accounted_def)
qed

lemma total_on_file:
  assumes rel: "ledger_rel w L" and num: "numbered user_id (users w)"
  shows "ledger_total L = (\<Sum>u \<leftarrow> users w. rupees (wallet_balance u))"
proof -
  have mem: "L (user_id u) \<noteq> None \<and> fst (the (L (user_id u))) = rupees (wallet_balance u)" if "u \<in> set (users w)" for u
  proof -
    have r: "read_user (user_id u) w = Some u" using member_read [OF num that] .
    then obtain b h where "L (user_id u) = Some (b, h)"
      using ledger_rel_None [OF rel, of "user_id u"] by (cases "L (user_id u)") auto
    with ledger_rel_Some [OF rel this] r show ?thesis by (auto simp: exact_wallet_def)
  qed
  have dom: "dom L = set (map user_id (users w))"
  proof (rule set_eqI)
    fix i
    show "i \<in> dom L \<longleftrightarrow> i \<in> set (map user_id (users w))"
    proof
      assume "i \<in> dom L"
      then obtain b h where "L i = Some (b, h)" by auto
      from ledger_rel_Some [OF rel this] obtain u where "read_user i w = Some u" by blast
      then show "i \<in> set (map user_id (users w))" using ut.rd_mem ut.rd_ident [OF num] by (metis image_eqI list.set_map)
    qed (use mem in auto)
  qed
  have "(\<Sum>u \<leftarrow> users w. rupees (wallet_balance u)) = (\<Sum>u \<leftarrow> users w. fst (the (L (user_id u))))"
    using mem by (intro arg_cong [of _ _ sum_list] map_cong) simp_all
  also have "\<dots> = (\<Sum>i \<leftarrow> map user_id (users w). fst (the (L i)))" by (simp add: comp_def)
  also have "\<dots> = ledger_total L"
    unfolding ledger_total_def dom using numbered_distinct [OF num] by (rule sum_list_distinct_conv_sum_set)
  finally show ?thesis ..
qed

section \<open>Properties\<close>

text \<open>C1: Every rupee in the system was deposited: start from a seeded data directory and let any number
  of clients log in, deposit, bid, create, close, file disputes, administer and hang up, and the timer
  run, in any order, with whole amounts and less than \<open>2 ^ 52\<close> rupees deposited (and no change of
  password and no refund). At every moment the balances on file add up to exactly what was deposited, each
  user's hold is the sum of the current bids of the open auctions the user leads and within
  the balance, and the leader of every open auction can pay.\<close>

theorem balances_are_deposits:
  assumes "trading popen (start_world popen (\<lambda>_. True) t) n s" and "w = sys_world s"
  shows "(\<Sum>u \<leftarrow> users w. rupees (wallet_balance u)) = n \<and>
    (\<forall>u \<in> set (users w). wallet_hold u = rs (held (user_id u) (auctions w)) \<and> wallet_hold u \<le> wallet_balance u) \<and>
    (\<forall>a \<in> set (auctions w). auction_status a = AUCTION_OPEN \<and> highest_bidder_id a \<noteq> 0 \<longrightarrow>
      fst (settle_payment (highest_bidder_id a) (current_bid a) w) = 0)"
proof -
  from trading_accounted [OF assms(1) start_accounted] obtain L where
    inv: "world_inv w" and es: "escrow w L" "ledger_total L = n"
    by (auto simp: accounted_def sys_inv_def assms(2))
  note P = world_inv_parts [OF inv] and E = escrowD [OF es(1)]
  have "wallet_hold u = rs (held (user_id u) (auctions w)) \<and> wallet_hold u \<le> wallet_balance u"
    if u: "u \<in> set (users w)" for u
  proof -
    have r: "read_user (user_id u) w = Some u" using member_read [OF P(9) u] .
    then obtain b h where bh: "L (user_id u) = Some (b, h)"
      using ledger_rel_None [OF E(1), of "user_id u"] by (cases "L (user_id u)") auto
    from ledger_rel_Some [OF E(1) bh] E(3) [OF bh] r show ?thesis by (auto simp: exact_wallet_def)
  qed
  moreover have "fst (settle_payment (highest_bidder_id a) (current_bid a) w) = 0"
    if "a \<in> set (auctions w)" "auction_status a = AUCTION_OPEN" "highest_bidder_id a \<noteq> 0" for a
    using leader_pays [OF es(1) tables_inv [OF inv]] that by simp
  moreover have "(\<Sum>u \<leftarrow> users w. rupees (wallet_balance u)) = n"
    using total_on_file [OF E(1) P(9)] es(2) by simp
  ultimately show ?thesis by blast
qed


theorem balances_are_deposits_witness:
  "\<exists>s. trading sample_shell (start_world sample_shell (\<lambda>_. True) 65) 100 s \<and>
     (\<Sum>u \<leftarrow> users (sys_world s). rupees (wallet_balance u)) = 100"
proof -
  let ?t = "trading sample_shell (start_world sample_shell (\<lambda>_. True) 65)"
  let ?q = "\<lparr>deposit_amount = rs 100\<rparr>" and ?s = "\<lparr>sys_world = admin_world, sys_conns = [7 \<mapsto> admin_conn]\<rparr>"
  have "?t 0 \<lparr>sys_world = seeded, sys_conns = [7 \<mapsto> new_conn 7]\<rparr>"
    using trading.step [OF trading.nothing sys_step.connect [of 7 "\<lparr>sys_world = seeded, sys_conns = Map.empty\<rparr>"]]
    by (simp add: seeded_def)
  from trading.step [OF this login_step [of "\<lambda>c. ordinary"]] have 1: "?t 0 ?s" by simp
  obtain c' w' where sv: "serve_request sample_shell (RQ_DEPOSIT ?q) admin_conn admin_world = (c', w')" by fastforce
  have paid: "paid_in admin_conn ?q = 100" by (simp add: paid_in_def admin_conn_def)
  from trading_accounted [OF 1 start_accounted] have inv: "world_inv admin_world" "room admin_world" "conn_ok admin_world admin_conn"
    by (auto simp: accounted_def sys_inv_def)
  have "users_file w' = users_file (snd (credit_wallet 1 (rs 100) admin_world)) \<or> users_file w' = users_file admin_world"
    "auctions_file w' = auctions_file admin_world" "disputes_file w' = disputes_file admin_world"
    using sv by (auto simp: serve_request_def admin_conn_def handle_deposit_world Let_def case_prod_beta)
  then have "room w'"
    using inv(2) accounts_kept_length [OF cw.op_accounts [OF world_inv_parts(9) [OF inv(1)]], of 1 "rs 100"]
    by (auto simp: room_def)
  then have 2: "?t 100 \<lparr>sys_world = w', sys_conns = (sys_conns ?s)(7 \<mapsto> c')\<rparr>"
    using trading.deposit [OF 1, of 7 admin_conn ?q c' w'] sv
    by (simp add: paid whole_def exact_limit_def) (simp add: admin_conn_def)
  from balances_are_deposits [OF 2 refl] 2 show ?thesis by blast
qed

end
