(* ===== verification/File_Scans.thy ===== *)
theory File_Scans
  imports Server
begin

text \<open>
  The loops that read a data file from its beginning while other threads go on writing to it: the
  lists of auctions, bids, disputes, users and feedback, the timer's search for expired auctions, and
  the two loops that rewrite records in place (the winning flag in \<^verbatim>\<open>bids.dat\<close>, the review flag in
  \<^verbatim>\<open>feedback.dat\<close>). They take at most a \<^verbatim>\<open>fcntl\<close> lock, which does not exclude a thread of the same process,
  and no mutex of \<^verbatim>\<open>file_io.h\<close>. So each \<^verbatim>\<open>read\<close> and each \<^verbatim>\<open>write\<close> of a record is a step here, and between
  any two of them other threads may append a record, write one in place, or take a step of such a
  loop of their own. The other theories treat each loop as one step.

  The theory shows that a loop that nobody disturbs does what the one-step loop does, what a disturbed
  listing still promises, and that the rewriting loops never damage or lose a record.
\<close>

section \<open>A loop in steps\<close>

datatype 'r scan =
    Collect nat "'r \<Rightarrow> bool"
      \<comment> \<open>\<^verbatim>\<open>while (read(fd, &r, sizeof r) == sizeof r && count < limit) if (P r) list[count++] = r;\<close>\<close>
  | Rewrite "'r \<Rightarrow> bool" "'r \<Rightarrow> 'r"
      \<comment> \<open>\<^verbatim>\<open>while (read(...) == sizeof r)\<close>, and where \<open>P r\<close>, change \<open>r\<close>, \<^verbatim>\<open>lseek\<close> back and \<^verbatim>\<open>write\<close>\<close>

datatype 'r scan_phase =
    SC_read nat "'r list" \<comment> \<open>the position in records and what has been collected\<close>
  | SC_write nat 'r \<comment> \<open>about to write the changed record back\<close>
  | SC_done "'r list"

fun scan_act :: "'r scan \<Rightarrow> 'r scan_phase \<times> 'r list \<Rightarrow> 'r scan_phase \<times> 'r list" where
  "scan_act (Collect limit P) (SC_read k found, xs) =
     (if k < length xs \<and> length found < limit
      then (SC_read (k + 1) (if P (xs ! k) then found @ [xs ! k] else found), xs)
      else (SC_done found, xs))"
| "scan_act (Rewrite P f) (SC_read k found, xs) =
     (if k < length xs
      then if P (xs ! k) then (SC_write k (f (xs ! k)), xs) else (SC_read (k + 1) found, xs)
      else (SC_done found, xs))"
| "scan_act K (SC_write k r, xs) = (SC_read (k + 1) [], xs[k := r])"
| "scan_act K (SC_done found, xs) = (SC_done found, xs)"

definition view_auctions_scan :: "Auction scan" where
  "view_auctions_scan = Collect 256 (\<lambda>a. \<not> auction_deleted a \<and> auction_status a = AUCTION_OPEN)"

definition my_bids_scan :: "User \<Rightarrow> Bid scan" where
  "my_bids_scan u = Collect 256 (\<lambda>b. bidder_id b = user_id u)"

definition view_disputes_scan :: "Dispute scan" where
  "view_disputes_scan = Collect 128 (\<lambda>d. dispute_status d = DISPUTE_OPEN)"

definition list_users_scan :: "User scan" where
  \<comment> \<open>the digest of a collected record is cleared in the copy\<close>
  "list_users_scan = Collect 512 (\<lambda>u. \<not> user_deleted u)"

definition expired_scan :: "time_t \<Rightarrow> Auction scan" where
  \<comment> \<open>the identifiers of the collected records are kept\<close>
  "expired_scan t = Collect 64 (\<lambda>a. auction_status a = AUCTION_OPEN \<and> end_time a \<le> t)"

definition unreviewed_scan :: "Feedback scan" where
  "unreviewed_scan = Collect 256 (\<lambda>f. \<not> reviewed f)"

definition review_scan :: "Feedback scan" where
  "review_scan = Rewrite (\<lambda>f. \<not> reviewed f) (\<lambda>f. f\<lparr>reviewed := True\<rparr>)"

definition mark_scan :: "Auction \<Rightarrow> Bid scan" where
  "mark_scan a =
     Rewrite (\<lambda>b. bid_auction_id b = auction_id a \<and> bidder_id b = highest_bidder_id a) (\<lambda>b. b\<lparr>is_winning := True\<rparr>)"

section \<open>Undisturbed loops\<close>

lemma collect_alone:
  assumes "k \<le> length xs"
  shows "\<exists>n. (scan_act (Collect limit P) ^^ n) (SC_read k found, xs) =
    (SC_done (collect_loop limit P found (drop k xs)), xs)"
  using assms
proof (induction "length xs - k" arbitrary: k found)
  case 0
  then have "drop k xs = []" "\<not> k < length xs" by simp_all
  then show ?case by (intro exI [of _ 1]) simp
next
  case (Suc d)
  then have k: "k < length xs" by simp
  then have dr: "drop k xs = xs ! k # drop (Suc k) xs" by (simp add: Cons_nth_drop_Suc)
  show ?case
  proof (cases "length found < limit")
    case False
    then show ?thesis using dr by (intro exI [of _ 1]) simp
  next
    case True
    let ?found = "if P (xs ! k) then found @ [xs ! k] else found"
    from Suc k obtain n where "(scan_act (Collect limit P) ^^ n) (SC_read (Suc k) ?found, xs) =
      (SC_done (collect_loop limit P ?found (drop (Suc k) xs)), xs)" by fastforce
    then show ?thesis using True k dr by (intro exI [of _ "Suc n"]) (simp add: funpow_swap1)
  qed
qed

lemma collected_alone:
  "Q (collect_loop limit P [] xs) \<Longrightarrow>
   \<exists>n found. (scan_act (Collect limit P) ^^ n) (SC_read 0 [], xs) = (SC_done found, xs) \<and> Q found"
  using collect_alone [of 0 xs limit P "[]"] by auto

lemma rewrite_alone:
  assumes "k \<le> length xs"
  shows "\<exists>n. (scan_act (Rewrite P f) ^^ n) (SC_read k [], xs) =
    (SC_done [], take k xs @ map (\<lambda>r. if P r then f r else r) (drop k xs))"
  using assms
proof (induction "length xs - k" arbitrary: k xs)
  case 0
  then have "drop k xs = []" "\<not> k < length xs" by simp_all
  then show ?case by (intro exI [of _ 1]) simp
next
  case (Suc d)
  then have k: "k < length xs" by simp
  then have dr: "drop k xs = xs ! k # drop (Suc k) xs" by (simp add: Cons_nth_drop_Suc)
  let ?r = "if P (xs ! k) then f (xs ! k) else xs ! k"
  have xs: "xs[k := ?r] = take k xs @ ?r # drop (Suc k) xs" using k by (simp add: upd_conv_take_nth_drop)
  from Suc k have "\<exists>n. (scan_act (Rewrite P f) ^^ n) (SC_read (Suc k) [], xs[k := ?r]) =
      (SC_done [], take (Suc k) (xs[k := ?r]) @ map (\<lambda>r. if P r then f r else r) (drop (Suc k) (xs[k := ?r])))"
    by (intro Suc.hyps(1)) simp_all
  then obtain n where n: "(scan_act (Rewrite P f) ^^ n) (SC_read (Suc k) [], xs[k := ?r]) =
      (SC_done [], take k xs @ map (\<lambda>r. if P r then f r else r) (drop k xs))"
    using k by (auto simp: take_Suc_conv_app_nth dr)
  show ?case
  proof (cases "P (xs ! k)")
    case True
    with n k show ?thesis by (intro exI [of _ "Suc (Suc n)"]) (simp add: funpow_swap1)
  next
    case False
    with n k show ?thesis by (intro exI [of _ "Suc n"]) (simp add: funpow_swap1)
  qed
qed

section \<open>Interleavings\<close>

record 'r shared_file =
  sf_file :: "'r list"
  sf_log :: "'r list" \<comment> \<open>what the file held at the beginning and what has been appended since\<close>
  sf_scans :: "nat \<Rightarrow> ('r scan \<times> 'r scan_phase) option"

inductive file_step :: "('r scan \<Rightarrow> bool) \<Rightarrow> ('r \<Rightarrow> bool) \<Rightarrow> ('r \<Rightarrow> 'r \<Rightarrow> bool) \<Rightarrow> 'r shared_file \<Rightarrow> 'r shared_file \<Rightarrow> bool"
  for kinds :: "'r scan \<Rightarrow> bool" and fresh :: "'r \<Rightarrow> bool" and changes :: "'r \<Rightarrow> 'r \<Rightarrow> bool" where
  begin_scan: "sf_scans s t = None \<Longrightarrow> kinds K \<Longrightarrow>
     file_step kinds fresh changes s (s\<lparr>sf_scans := (sf_scans s)(t \<mapsto> (K, SC_read 0 []))\<rparr>)"
| scan: "sf_scans s t = Some (K, p) \<Longrightarrow> scan_act K (p, sf_file s) = (p', xs) \<Longrightarrow>
     file_step kinds fresh changes s (s\<lparr>sf_file := xs, sf_scans := (sf_scans s)(t \<mapsto> (K, p'))\<rparr>)"
| append: "fresh r \<Longrightarrow>
     file_step kinds fresh changes s (s\<lparr>sf_file := sf_file s @ [r], sf_log := sf_log s @ [r]\<rparr>)"
| overwrite: "k < length (sf_file s) \<Longrightarrow> changes (sf_file s ! k) r \<Longrightarrow>
     file_step kinds fresh changes s (s\<lparr>sf_file := (sf_file s)[k := r]\<rparr>)"

inductive file_run :: "('r scan \<Rightarrow> bool) \<Rightarrow> ('r \<Rightarrow> bool) \<Rightarrow> ('r \<Rightarrow> 'r \<Rightarrow> bool) \<Rightarrow> 'r shared_file \<Rightarrow> 'r list list \<Rightarrow>
    'r shared_file \<Rightarrow> bool"
  \<comment> \<open>a run with the contents the file has had on the way\<close>
  for kinds :: "'r scan \<Rightarrow> bool" and fresh :: "'r \<Rightarrow> bool" and changes :: "'r \<Rightarrow> 'r \<Rightarrow> bool" and start :: "'r shared_file" where
  here: "file_run kinds fresh changes start [sf_file start] start"
| further: "file_run kinds fresh changes start fs s \<Longrightarrow> file_step kinds fresh changes s s' \<Longrightarrow>
     file_run kinds fresh changes start (fs @ [sf_file s']) s'"

definition no_scans :: "'r list \<Rightarrow> 'r shared_file" where
  "no_scans xs = \<lparr>sf_file = xs, sf_log = xs, sf_scans = (\<lambda>_. None)\<rparr>"


section \<open>Loops that rewrite\<close>

text \<open>The contract of a file whose records change in a flag only: what a rewriting loop stores has the
  flag set and is otherwise the record it read. Then the file is at every moment the log, up to the
  flags, and a flag that was set stays set.\<close>

locale flagged_file =
  fixes norm :: "'r \<Rightarrow> 'r" and flag :: "'r \<Rightarrow> bool" and kinds :: "'r scan \<Rightarrow> bool"
  assumes stores_flag: "kinds (Rewrite P f) \<Longrightarrow> norm (f r) = norm r \<and> flag (f r)"
begin

definition up_to_flags :: "'r shared_file \<Rightarrow> bool" where
  "up_to_flags s \<longleftrightarrow>
     map norm (sf_file s) = map norm (sf_log s) \<and>
     (\<forall>k < length (sf_log s). flag (sf_log s ! k) \<longrightarrow> flag (sf_file s ! k)) \<and>
     (\<forall>t K p. sf_scans s t = Some (K, p) \<longrightarrow> kinds K) \<and>
     (\<forall>t K k r. sf_scans s t = Some (K, SC_write k r) \<longrightarrow>
        k < length (sf_file s) \<and> norm r = norm (sf_file s ! k) \<and> flag r)"

lemma same_length: "up_to_flags s \<Longrightarrow> length (sf_file s) = length (sf_log s)"
  unfolding up_to_flags_def by (metis length_map)

lemma act_quiet:
  assumes "up_to_flags s" and "sf_scans s t = Some (K, p)" and "scan_act K (p, sf_file s) = (p', xs)"
    and "\<And>k r. p \<noteq> SC_write k r"
  shows "xs = sf_file s \<and> (\<forall>k r. p' = SC_write k r \<longrightarrow>
    k < length (sf_file s) \<and> norm r = norm (sf_file s ! k) \<and> flag r)"
proof -
  have "kinds K" using assms(1,2) by (auto simp: up_to_flags_def)
  with assms(3,4) stores_flag show ?thesis
    by (cases K; cases p) (auto split: if_splits)
qed

lemma act_write:
  assumes inv: "up_to_flags s" and t: "sf_scans s t = Some (K, SC_write k r)"
  shows "up_to_flags (s\<lparr>sf_file := (sf_file s)[k := r], sf_scans := (sf_scans s)(t \<mapsto> (K, SC_read (k + 1) []))\<rparr>)"
proof -
  have k: "k < length (sf_file s)" "norm r = norm (sf_file s ! k)" "flag r" using inv t by (auto simp: up_to_flags_def)
  then have "map norm ((sf_file s)[k := r]) = map norm (sf_file s)"
    by (simp add: map_update list_update_same_conv)
  moreover have "norm ((sf_file s)[k := r] ! j) = norm (sf_file s ! j)" if "j < length (sf_file s)" for j
    using k by (cases "j = k") simp_all
  moreover have "flag (sf_file s ! j) \<longrightarrow> flag ((sf_file s)[k := r] ! j)" if "j < length (sf_file s)" for j
    using k that by (cases "j = k") simp_all
  moreover have "kinds K" using inv t by (auto simp: up_to_flags_def)
  ultimately show ?thesis using inv same_length [OF inv] unfolding up_to_flags_def by (auto split: if_splits)
qed

lemma step_flags:
  assumes inv: "up_to_flags s" and st: "file_step kinds fresh (\<lambda>_ _. False) s s'"
  shows "up_to_flags s'"
  using st
proof cases
  case (begin_scan t K)
  with inv show ?thesis by (auto simp: up_to_flags_def)
next
  case (scan t K p p' xs)
  show ?thesis
  proof (cases "\<exists>k r. p = SC_write k r")
    case True
    then obtain k r where p: "p = SC_write k r" by blast
    with scan act_write [OF inv, of t K k r] show ?thesis by (cases K) auto
  next
    case False
    with act_quiet [OF inv scan(2,3)] have x: "xs = sf_file s" "\<And>k r. p' = SC_write k r \<Longrightarrow>
      k < length (sf_file s) \<and> norm r = norm (sf_file s ! k) \<and> flag r" by blast+
    have "kinds K" using inv scan(2) by (auto simp: up_to_flags_def)
    with inv x scan(1) show ?thesis unfolding up_to_flags_def by (auto split: if_splits)
  qed
next
  case (append r)
  with inv same_length [OF inv] show ?thesis
    unfolding up_to_flags_def by (auto simp: nth_append less_Suc_eq)
next
  case (overwrite k r)
  then show ?thesis by simp
qed

lemma run_flags: "file_run kinds fresh (\<lambda>_ _. False) (no_scans xs) fs s \<Longrightarrow> up_to_flags s"
proof (induction rule: file_run.induct)
  case here
  show ?case by (simp add: up_to_flags_def no_scans_def)
next
  case (further fs s s')
  then show ?case using step_flags by blast
qed

lemma all_flagged:
  assumes inv: "up_to_flags s" and fl: "\<forall>r \<in> set (sf_log s). flag r"
    and same: "\<And>q r. norm q = norm r \<Longrightarrow> flag q \<Longrightarrow> flag r \<Longrightarrow> q = r"
  shows "sf_file s = sf_log s"
proof (rule nth_equalityI)
  show "length (sf_file s) = length (sf_log s)" using inv by (rule same_length)
next
  fix k assume k: "k < length (sf_file s)"
  then have l: "k < length (sf_log s)" using same_length [OF inv] by simp
  from inv have m: "map norm (sf_file s) = map norm (sf_log s)"
    and f: "\<forall>k < length (sf_log s). flag (sf_log s ! k) \<longrightarrow> flag (sf_file s ! k)"
    unfolding up_to_flags_def by blast+
  from arg_cong [OF m, of "\<lambda>xs. xs ! k"] k l have "norm (sf_file s ! k) = norm (sf_log s ! k)" by simp
  moreover have "flag (sf_file s ! k)" using f fl l by simp
  moreover have "flag (sf_log s ! k)" using fl l by simp
  ultimately show "sf_file s ! k = sf_log s ! k" by (rule same)
qed

end

definition bid_scans :: "Bid scan \<Rightarrow> bool" where
  "bid_scans K \<longleftrightarrow> (\<exists>u. K = my_bids_scan u) \<or> (\<exists>a. K = mark_scan a)"

definition feedback_scans :: "Feedback scan \<Rightarrow> bool" where
  "feedback_scans K \<longleftrightarrow> K = unreviewed_scan \<or> K = review_scan"

interpretation bid_log: flagged_file "\<lambda>b. b\<lparr>is_winning := True\<rparr>" is_winning bid_scans
  by unfold_locales (auto simp: bid_scans_def my_bids_scan_def mark_scan_def)

interpretation feedback_log: flagged_file "\<lambda>f. f\<lparr>reviewed := True\<rparr>" reviewed feedback_scans
  by unfold_locales (auto simp: feedback_scans_def unreviewed_scan_def review_scan_def)

lemma bid_flag_set: "is_winning b \<Longrightarrow> b\<lparr>is_winning := True\<rparr> = (b :: Bid)"
  by (cases b) simp

lemma run_fresh:
  "file_run kinds fresh changes (no_scans xs) fs s \<Longrightarrow> \<forall>r \<in> set (sf_log s). r \<in> set xs \<or> fresh r"
proof (induction rule: file_run.induct)
  case here
  then show ?case by (simp add: no_scans_def)
next
  case (further fs s s')
  from further.hyps(2) further.IH show ?case by cases auto
qed

lemma run_log: "file_run kinds fresh changes (no_scans xs) fs s \<Longrightarrow> \<exists>new. sf_log s = xs @ new"
proof (induction rule: file_run.induct)
  case here
  then show ?case by (simp add: no_scans_def)
next
  case (further fs s s')
  from further.hyps(2) further.IH show ?case by cases auto
qed

section \<open>Loops that list\<close>

definition listed :: "'r list list \<Rightarrow> ('r \<Rightarrow> bool) \<Rightarrow> nat \<Rightarrow> nat list \<Rightarrow> 'r list \<Rightarrow> bool" where
  \<comment> \<open>what a listing promises of the first \<open>n\<close> positions, over the contents \<open>fs\<close> the file has had: \<open>found\<close>
    holds records that stood at the increasing positions \<open>ks\<close>, among them each position whose record
    matched all the time, whatever changed in it\<close>
  "listed fs P n ks found \<longleftrightarrow>
     length ks = length found \<and> sorted_wrt (<) ks \<and> (\<forall>i \<in> set ks. i < n) \<and>
     (\<forall>j < length found. P (found ! j) \<and> (\<exists>xs \<in> set fs. ks ! j < length xs \<and> xs ! (ks ! j) = found ! j)) \<and>
     (\<forall>i < n. (\<forall>xs \<in> set fs. i < length xs \<and> P (xs ! i)) \<longrightarrow> i \<in> set ks)"

lemma listed_mono: "listed fs P n ks found \<Longrightarrow> set fs \<subseteq> set gs \<Longrightarrow> listed gs P n ks found"
  unfolding listed_def by blast

lemma listed_read:
  assumes l: "listed fs P k ks found" and xs: "xs \<in> set fs" "k < length xs"
  shows "listed fs P (Suc k) (if P (xs ! k) then ks @ [k] else ks) (if P (xs ! k) then found @ [xs ! k] else found)"
proof (cases "P (xs ! k)")
  case True
  with l xs show ?thesis
    unfolding listed_def by (auto simp: sorted_wrt_append nth_append less_Suc_eq)
next
  case False
  have "(\<forall>ys \<in> set fs. i < length ys \<and> P (ys ! i)) \<longrightarrow> i \<in> set ks" if "i < Suc k" for i
    using l xs False that unfolding listed_def less_Suc_eq by blast
  with False l show ?thesis unfolding listed_def by (auto simp: less_SucI)
qed

definition listing_so_far :: "'r list list \<Rightarrow> nat \<Rightarrow> ('r \<Rightarrow> bool) \<Rightarrow> 'r scan_phase \<Rightarrow> bool" where
  "listing_so_far fs limit P p \<longleftrightarrow>
     (case p of
        SC_read k found \<Rightarrow> (\<exists>ks. listed fs P k ks found) \<and> length found \<le> limit
      | SC_write k r \<Rightarrow> False
      | SC_done found \<Rightarrow> length found \<le> limit \<and>
          (\<exists>n ks. listed fs P n ks found \<and> (length found = limit \<or> (\<exists>xs \<in> set fs. length xs \<le> n))))"

lemma listing_mono: "listing_so_far fs limit P p \<Longrightarrow> set fs \<subseteq> set gs \<Longrightarrow> listing_so_far gs limit P p"
  unfolding listing_so_far_def by (auto split: scan_phase.splits dest: listed_mono)

lemma listing_act:
  assumes l: "listing_so_far fs limit P p" and xs: "xs \<in> set fs" and act: "scan_act (Collect limit P) (p, xs) = (p', xs')"
  shows "xs' = xs \<and> listing_so_far fs limit P p'"
proof (cases p)
  case (SC_read k found)
  with l obtain ks where ks: "listed fs P k ks found" "length found \<le> limit" by (auto simp: listing_so_far_def)
  show ?thesis
  proof (cases "k < length xs \<and> length found < limit")
    case True
    with listed_read [OF ks(1) xs(1)]
    have "\<exists>ks. listed fs P (Suc k) ks (if P (xs ! k) then found @ [xs ! k] else found)" by blast
    moreover have "xs' = xs" "p' = SC_read (Suc k) (if P (xs ! k) then found @ [xs ! k] else found)"
      using True act SC_read by auto
    ultimately show ?thesis using True by (simp add: listing_so_far_def)
  next
    case False
    then have "length found = limit \<or> (\<exists>xs \<in> set fs. length xs \<le> k)" using ks(2) xs by force
    then have "\<exists>n ks. listed fs P n ks found \<and> (length found = limit \<or> (\<exists>xs \<in> set fs. length xs \<le> n))"
      using ks(1) by blast
    moreover have "xs' = xs" "p' = SC_done found" using False act SC_read by auto
    ultimately show ?thesis using ks(2) by (simp add: listing_so_far_def)
  qed
next
  case (SC_write k r)
  with l show ?thesis by (simp add: listing_so_far_def)
next
  case (SC_done found)
  with l act show ?thesis by auto
qed

lemma run_listing:
  assumes "file_run kinds fresh changes start fs s" and "sf_scans start t = Some (Collect limit P, SC_read 0 [])"
  shows "sf_file s \<in> set fs \<and> (\<exists>p. sf_scans s t = Some (Collect limit P, p) \<and> listing_so_far fs limit P p)"
  using assms
proof (induction rule: file_run.induct)
  case here
  then show ?case by (auto simp: listing_so_far_def listed_def)
next
  case (further fs s s')
  then obtain p where p: "sf_scans s t = Some (Collect limit P, p)" "listing_so_far fs limit P p"
    and f: "sf_file s \<in> set fs" by blast
  have m: "listing_so_far (fs @ [sf_file s']) limit P p'" if "listing_so_far fs limit P p'" for p'
    using that by (rule listing_mono) auto
  from further.hyps(2) have "\<exists>p'. sf_scans s' t = Some (Collect limit P, p') \<and> listing_so_far fs limit P p'"
  proof cases
    case (scan t' K q q' xs)
    with p listing_act [OF p(2) f, of q' xs] show ?thesis by (cases "t' = t") auto
  qed (use p in auto)
  with m show ?case by auto
qed

section \<open>Sample runs\<close>

lemma rewrite_overtaken:
  \<comment> \<open>a record is appended between the \<^verbatim>\<open>read\<close> and the \<^verbatim>\<open>write\<close> of a rewriting loop\<close>
  assumes "kinds (Rewrite P f)" and "P r" and "fresh q"
  shows "\<exists>fs s. file_run kinds fresh changes (no_scans [r]) fs s \<and> sf_file s = [f r, q] \<and> sf_log s = [r, q]"
proof -
  let ?s = "no_scans [r]"
  note r1 = file_run.further [OF file_run.here file_step.begin_scan [of ?s 0 kinds "Rewrite P f"]]
  note r2 = file_run.further [OF r1 file_step.scan [of _ 0 "Rewrite P f" "SC_read 0 []" "SC_write 0 (f r)" "[r]"]]
  note r3 = file_run.further [OF r2 file_step.append [of fresh q]]
  note r4 = file_run.further [OF r3 file_step.scan [of _ 0 "Rewrite P f" "SC_write 0 (f r)" "SC_read 1 []" "[f r, q]"]]
  show ?thesis by (rule exI, rule exI, rule conjI, rule r4) (use assms in \<open>simp_all add: no_scans_def\<close>)
qed

lemma listing_overtaken:
  \<comment> \<open>two records are read; then one is changed but still matches, the other stops matching, and a
    third is appended and read\<close>
  assumes "P q" "P q'" "P r" "\<not> P r'" "P t" and "changes q q'" "changes r r'" "fresh t"
  shows "\<exists>fs. file_run kinds fresh changes
      \<lparr>sf_file = [q, r], sf_log = [q, r], sf_scans = [0 \<mapsto> (Collect 256 P, SC_read 0 [])]\<rparr> fs
      \<lparr>sf_file = [q', r', t], sf_log = [q, r, t], sf_scans = [0 \<mapsto> (Collect 256 P, SC_done [q, r, t])]\<rparr> \<and>
    set fs = {[q, r], [q', r], [q', r'], [q', r', t]}"
proof -
  let ?K = "Collect 256 P"
  let ?s = "\<lparr>sf_file = [q, r], sf_log = [q, r], sf_scans = [0 \<mapsto> (?K, SC_read 0 [])]\<rparr>"
  note r1 = file_run.further [OF file_run.here file_step.scan [of ?s 0 ?K "SC_read 0 []" "SC_read 1 [q]" "[q, r]"]]
  note r2 = file_run.further [OF r1 file_step.scan [of _ 0 ?K "SC_read 1 [q]" "SC_read 2 [q, r]" "[q, r]"]]
  note r3 = file_run.further [OF r2 file_step.overwrite [of 0 _ changes q']]
  note r4 = file_run.further [OF r3 file_step.overwrite [of 1 _ changes r']]
  note r5 = file_run.further [OF r4 file_step.append [of fresh t]]
  note r6 = file_run.further [OF r5 file_step.scan [of _ 0 ?K "SC_read 2 [q, r]" "SC_read 3 [q, r, t]" "[q', r', t]"]]
  note r7 = file_run.further [OF r6 file_step.scan [of _ 0 ?K "SC_read 3 [q, r, t]" "SC_done [q, r, t]" "[q', r', t]"]]
  have "file_run kinds fresh changes ?s
    [[q, r], [q, r], [q, r], [q', r], [q', r'], [q', r', t], [q', r', t], [q', r', t]]
    \<lparr>sf_file = [q', r', t], sf_log = [q, r, t], sf_scans = [0 \<mapsto> (?K, SC_done [q, r, t])]\<rparr>"
    using r7 assms by (simp add: numeral_2_eq_2 numeral_3_eq_3)
  moreover have "set [[q, r], [q, r], [q, r], [q', r], [q', r'], [q', r', t], [q', r', t], [q', r', t]] =
    {[q, r], [q', r], [q', r'], [q', r', t]}" by simp
  ultimately show ?thesis by blast
qed

definition sample_flag_bid :: "u32 \<Rightarrow> Bid" where
  "sample_flag_bid i = \<lparr>bid_id = i, bid_auction_id = 7, bidder_id = 9, bid_amount = rs 50, placed_at = 1000,
     is_winning = True\<rparr>"

definition sample_flag_note :: "u32 \<Rightarrow> Feedback" where
  "sample_flag_note i = \<lparr>feedback_id = i, from_user_id = 3, about_auction_id = 7, feedback_message = ''fine'',
     submitted_at = 1000, reviewed = False\<rparr>"

section \<open>Properties\<close>

text \<open>C36: A loop over a file that no other thread writes to meanwhile, taken one
  \<^verbatim>\<open>read\<close> or \<^verbatim>\<open>write\<close> of a record at a time, ends,
  and the handlers do in one step what their loops do: the answers to the requests for open
  auctions, own bids, open disputes and users (with the digests cleared) carry what the loop has
  collected; the timer closes the auctions its loop has found; a settlement leaves
  \<^verbatim>\<open>bids.dat\<close> as its loop does; and the moderator is sent what the first
  loop has collected of the feedback while the file is left as by the second.\<close>

theorem loops_alone:
  assumes "auctions_file w = Some as" and "bids_file w = Some bs" and "disputes_file w = Some ds"
    and "feedback_file w = Some gs" and "users_file w = Some us"
    and "writable w FILE_BIDS" and "writable w FILE_FEEDBACK"
  shows "(\<exists>n found. (scan_act view_auctions_scan ^^ n) (SC_read 0 [], as) = (SC_done found, as) \<and>
      handle_view_auctions fd w = send_msg fd MSG_VIEW_AUCTIONS_RESP ERR_OK (P_Auctions found) w) \<and>
    (\<exists>n found. (scan_act (my_bids_scan u) ^^ n) (SC_read 0 [], bs) = (SC_done found, bs) \<and>
      handle_view_my_bids fd u w = send_msg fd MSG_VIEW_MY_BIDS_RESP ERR_OK (P_Bids found) w) \<and>
    (\<exists>n found. (scan_act view_disputes_scan ^^ n) (SC_read 0 [], ds) = (SC_done found, ds) \<and>
      handle_view_disputes fd w = send_msg fd MSG_VIEW_DISPUTES_RESP ERR_OK (P_Disputes found) w) \<and>
    (\<exists>n found. (scan_act list_users_scan ^^ n) (SC_read 0 [], us) = (SC_done found, us) \<and>
      handle_list_users fd w = send_msg fd MSG_LIST_USERS_RESP ERR_OK (P_Users (map hide_password found)) w) \<and>
    (\<exists>n found. (scan_act (expired_scan (now w)) ^^ n) (SC_read 0 [], as) = (SC_done found, as) \<and>
      timer_tick w = fold timer_close (map auction_id found) w) \<and>
    (\<exists>n xs. (scan_act (mark_scan a) ^^ n) (SC_read 0 [], bs) = (SC_done [], xs) \<and>
      mark_winning_bids a w = w\<lparr>bids_file := Some xs\<rparr>) \<and>
    (\<exists>n found m xs. (scan_act unreviewed_scan ^^ n) (SC_read 0 [], gs) = (SC_done found, gs) \<and>
      (scan_act review_scan ^^ m) (SC_read 0 [], gs) = (SC_done [], xs) \<and>
      handle_view_feedback fd w =
        send_msg fd MSG_VIEW_FEEDBACK_RESP ERR_OK (P_Feedbacks found) (w\<lparr>feedback_file := Some xs\<rparr>))"
proof (intro conjI)
  show "\<exists>n found. (scan_act view_auctions_scan ^^ n) (SC_read 0 [], as) = (SC_done found, as) \<and>
      handle_view_auctions fd w = send_msg fd MSG_VIEW_AUCTIONS_RESP ERR_OK (P_Auctions found) w"
    unfolding view_auctions_scan_def by (rule collected_alone) (simp add: handle_view_auctions_def assms(1))
  show "\<exists>n found. (scan_act (my_bids_scan u) ^^ n) (SC_read 0 [], bs) = (SC_done found, bs) \<and>
      handle_view_my_bids fd u w = send_msg fd MSG_VIEW_MY_BIDS_RESP ERR_OK (P_Bids found) w"
    unfolding my_bids_scan_def by (rule collected_alone) (simp add: handle_view_my_bids_def assms(2))
  show "\<exists>n found. (scan_act view_disputes_scan ^^ n) (SC_read 0 [], ds) = (SC_done found, ds) \<and>
      handle_view_disputes fd w = send_msg fd MSG_VIEW_DISPUTES_RESP ERR_OK (P_Disputes found) w"
    unfolding view_disputes_scan_def by (rule collected_alone) (simp add: handle_view_disputes_def assms(3))
  show "\<exists>n found. (scan_act list_users_scan ^^ n) (SC_read 0 [], us) = (SC_done found, us) \<and>
      handle_list_users fd w = send_msg fd MSG_LIST_USERS_RESP ERR_OK (P_Users (map hide_password found)) w"
    unfolding list_users_scan_def
    by (rule collected_alone) (simp add: handle_list_users_def collect_loop_take list_users_loop_take take_map assms(5))
  show "\<exists>n found. (scan_act (expired_scan (now w)) ^^ n) (SC_read 0 [], as) = (SC_done found, as) \<and>
      timer_tick w = fold timer_close (map auction_id found) w"
    unfolding expired_scan_def
    by (rule collected_alone) (simp add: timer_tick_def collect_loop_take expired_loop_take take_map assms(1))
  have "\<exists>n. (scan_act (mark_scan a) ^^ n) (SC_read 0 [], bs) = (SC_done [], mark_loop a 0 bs)"
    using rewrite_alone [of 0 bs] by (simp add: mark_scan_def mark_loop_prefix mark_def [abs_def])
  moreover have "mark_winning_bids a w = w\<lparr>bids_file := Some (mark_loop a 0 bs)\<rparr>"
    using assms(2,6) by (simp add: mark_winning_bids_def)
  ultimately show "\<exists>n xs. (scan_act (mark_scan a) ^^ n) (SC_read 0 [], bs) = (SC_done [], xs) \<and>
      mark_winning_bids a w = w\<lparr>bids_file := Some xs\<rparr>" by blast
  have r: "(if \<not> reviewed f then f\<lparr>reviewed := True\<rparr> else f) = f\<lparr>reviewed := True\<rparr>" for f :: Feedback
    by (cases f) simp
  have "\<exists>m. (scan_act review_scan ^^ m) (SC_read 0 [], gs) = (SC_done [], review_loop 0 gs)"
    using rewrite_alone [of 0 gs "\<lambda>f. \<not> reviewed f" "\<lambda>f. f\<lparr>reviewed := True\<rparr>"]
    unfolding r by (simp add: review_scan_def review_loop_prefix)
  moreover have "\<exists>n. (scan_act unreviewed_scan ^^ n) (SC_read 0 [], gs) =
      (SC_done (collect_loop 256 (\<lambda>f. \<not> reviewed f) [] gs), gs)"
    using collect_alone [of 0 gs] by (simp add: unreviewed_scan_def)
  moreover have "handle_view_feedback fd w = send_msg fd MSG_VIEW_FEEDBACK_RESP ERR_OK
      (P_Feedbacks (collect_loop 256 (\<lambda>f. \<not> reviewed f) [] gs)) (w\<lparr>feedback_file := Some (review_loop 0 gs)\<rparr>)"
    using assms(4,7) by (simp add: handle_view_feedback_def Let_def)
  ultimately show "\<exists>n found m xs. (scan_act unreviewed_scan ^^ n) (SC_read 0 [], gs) = (SC_done found, gs) \<and>
      (scan_act review_scan ^^ m) (SC_read 0 [], gs) = (SC_done [], xs) \<and>
      handle_view_feedback fd w =
        send_msg fd MSG_VIEW_FEEDBACK_RESP ERR_OK (P_Feedbacks found) (w\<lparr>feedback_file := Some xs\<rparr>)" by blast
qed

theorem loops_alone_witness:
  "let w = sample_world\<lparr>bids_file := Some [sample_flag_bid 1], disputes_file := Some [], feedback_file := Some [sample_flag_note 1]\<rparr>
   in \<exists>n found. (scan_act (expired_scan (now w)) ^^ n) (SC_read 0 [], auctions w) = (SC_done found, auctions w) \<and>
     timer_tick w = fold timer_close (map auction_id found) w"
proof -
  let ?w = "sample_world\<lparr>bids_file := Some [sample_flag_bid 1], disputes_file := Some [],
    feedback_file := Some [sample_flag_note 1]\<rparr>"
  have "auctions_file ?w = Some (auctions ?w)" "users_file ?w = Some (users ?w)" by (simp_all add: sample_world_def)
  moreover have "bids_file ?w = Some [sample_flag_bid 1]" "disputes_file ?w = Some []"
    "feedback_file ?w = Some [sample_flag_note 1]" "writable ?w FILE_BIDS" "writable ?w FILE_FEEDBACK" by simp_all
  ultimately show ?thesis unfolding Let_def using loops_alone [of ?w] by blast
qed

text \<open>C33: Whatever the interleaving of appends, listings and rewriting loops, \<^verbatim>\<open>bids.dat\<close> holds at every
  moment exactly the bids that were there and have been placed since, in order, although settlements
  write whole records back that they have read before: a bid is stored with its winning flag set, so a
  settlement stores what is there already. \<^verbatim>\<open>feedback.dat\<close> likewise loses, repeats and alters no record
  but for its review flag, and a review flag once set stays set.\<close>

theorem scans_keep_the_log:
  assumes "file_run bid_scans is_winning (\<lambda>_ _. False) (no_scans bs) fs s" and "\<forall>b \<in> set bs. is_winning b"
    and "file_run feedback_scans (\<lambda>f. \<not> reviewed f) (\<lambda>_ _. False) (no_scans gs) fs' s'"
  shows "sf_file s = sf_log s \<and> (\<exists>new. sf_log s' = gs @ new) \<and>
    map (\<lambda>f. f\<lparr>reviewed := True\<rparr>) (sf_file s') = map (\<lambda>f. f\<lparr>reviewed := True\<rparr>) (sf_log s') \<and>
    (\<forall>k < length gs. reviewed (gs ! k) \<longrightarrow> reviewed (sf_file s' ! k))"
proof -
  note b = bid_log.run_flags [OF assms(1)] and g = feedback_log.run_flags [OF assms(3)]
  have "\<forall>r \<in> set (sf_log s). is_winning r" using run_fresh [OF assms(1)] assms(2) by blast
  then have "sf_file s = sf_log s" by (rule bid_log.all_flagged [OF b]) (metis bid_flag_set)
  moreover obtain new where "sf_log s' = gs @ new" using run_log [OF assms(3)] by blast
  ultimately show ?thesis using g unfolding feedback_log.up_to_flags_def by (auto simp: nth_append)
qed

theorem scans_keep_the_log_witness:
  "\<exists>(s :: Bid shared_file) (s' :: Feedback shared_file). sf_log s = [sample_flag_bid 1, sample_flag_bid 2] \<and> sf_file s = sf_log s \<and>
     sf_file s' = [(sample_flag_note 1)\<lparr>reviewed := True\<rparr>, sample_flag_note 2] \<and>
     map (\<lambda>f. f\<lparr>reviewed := True\<rparr>) (sf_file s') = map (\<lambda>f. f\<lparr>reviewed := True\<rparr>) (sf_log s')"
proof -
  let ?a = "zero_Auction\<lparr>auction_id := 7, highest_bidder_id := 9\<rparr>"
  have "bid_scans (mark_scan ?a)" unfolding bid_scans_def by blast
  then obtain fs s where s: "file_run bid_scans is_winning (\<lambda>_ _. False) (no_scans [sample_flag_bid 1]) fs s"
    "sf_log s = [sample_flag_bid 1, sample_flag_bid 2]"
    using rewrite_overtaken [of bid_scans "\<lambda>b. bid_auction_id b = auction_id ?a \<and> bidder_id b = highest_bidder_id ?a"
        "\<lambda>b. b\<lparr>is_winning := True\<rparr>" "sample_flag_bid 1" is_winning "sample_flag_bid 2" "\<lambda>_ _. False"]
    by (auto simp: mark_scan_def sample_flag_bid_def)
  obtain fs' s' where s': "file_run feedback_scans (\<lambda>f. \<not> reviewed f) (\<lambda>_ _. False) (no_scans [sample_flag_note 1]) fs' s'"
    "sf_file s' = [(sample_flag_note 1)\<lparr>reviewed := True\<rparr>, sample_flag_note 2]"
    using rewrite_overtaken [of feedback_scans "\<lambda>f. \<not> reviewed f" "\<lambda>f. f\<lparr>reviewed := True\<rparr>" "sample_flag_note 1"
        "\<lambda>f. \<not> reviewed f" "sample_flag_note 2" "\<lambda>_ _. False"]
    by (auto simp: feedback_scans_def review_scan_def sample_flag_note_def)
  have "\<forall>b \<in> set [sample_flag_bid 1]. is_winning b" by (simp add: sample_flag_bid_def)
  from scans_keep_the_log [OF s(1) this s'(1)] s(2) s'(2) show ?thesis by blast
qed

text \<open>C35: A listing made while other threads append to the file and write records in place is
  regular. The records it returns satisfied its test when they were read, and stood at increasing
  positions of the file, so none is returned twice. A position whose record satisfied the test from
  the beginning to the end of the listing is returned, whatever else was written to it meanwhile,
  unless the array was full: the list of open auctions omits no auction that stayed open, although
  bids raised it, and the timer finds each auction that was due and stayed open.\<close>

theorem listing_is_regular:
  assumes "file_run kinds fresh changes start fs s"
    and "sf_scans start t = Some (Collect limit P, SC_read 0 [])" and "sf_scans s t = Some (K, SC_done found)"
  shows "length found \<le> limit \<and>
    (\<exists>ks. length ks = length found \<and> sorted_wrt (<) ks \<and>
      (\<forall>j < length found. P (found ! j) \<and> (\<exists>xs \<in> set fs. ks ! j < length xs \<and> xs ! (ks ! j) = found ! j)) \<and>
      (length found < limit \<longrightarrow>
        (\<forall>i. (\<forall>xs \<in> set fs. i < length xs \<and> P (xs ! i)) \<longrightarrow> i \<in> set ks)))"
proof -
  from run_listing [OF assms(1,2)] assms(3) have "listing_so_far fs limit P (SC_done found)" by auto
  then obtain n ks where l: "length found \<le> limit" "listed fs P n ks found"
    "length found = limit \<or> (\<exists>xs \<in> set fs. length xs \<le> n)" unfolding listing_so_far_def by auto
  have "i \<in> set ks" if "length found < limit" "\<forall>xs \<in> set fs. i < length xs \<and> P (xs ! i)" for i
  proof -
    from that l(3) have "i < n" by fastforce
    with that l(2) show ?thesis unfolding listed_def by blast
  qed
  with l(1,2) show ?thesis unfolding listed_def by blast
qed

theorem listing_is_regular_witness:
  \<comment> \<open>the first of two open auctions gets a bid, the second is closed, a third is created: the list holds all three\<close>
  "let q = sample_auction 1 AUCTION_OPEN 0 100 0 60; q' = sample_auction 1 AUCTION_OPEN 0 150 4 60;
     r = sample_auction 2 AUCTION_OPEN 0 100 0 60; r' = r\<lparr>auction_status := AUCTION_CLOSED\<rparr>;
     t = sample_auction 3 AUCTION_OPEN 0 100 0 90;
     P = (\<lambda>a. \<not> auction_deleted a \<and> auction_status a = AUCTION_OPEN)
   in \<exists>fs ks. file_run (\<lambda>K. K = view_auctions_scan) P (\<lambda>a b. auction_id a = auction_id b)
        \<lparr>sf_file = [q, r], sf_log = [q, r], sf_scans = [0 \<mapsto> (view_auctions_scan, SC_read 0 [])]\<rparr> fs
        \<lparr>sf_file = [q', r', t], sf_log = [q, r, t], sf_scans = [0 \<mapsto> (view_auctions_scan, SC_done [q, r, t])]\<rparr> \<and>
      (\<forall>xs \<in> set fs. filter P xs \<noteq> [q, r, t]) \<and> length ks = 3 \<and> sorted_wrt (<) ks \<and> (0 :: nat) \<in> set ks"
proof -
  let ?q = "sample_auction 1 AUCTION_OPEN 0 100 0 60" and ?q' = "sample_auction 1 AUCTION_OPEN 0 150 4 60"
    and ?r = "sample_auction 2 AUCTION_OPEN 0 100 0 60" and ?t = "sample_auction 3 AUCTION_OPEN 0 100 0 90"
    and ?P = "\<lambda>a :: Auction. \<not> auction_deleted a \<and> auction_status a = AUCTION_OPEN"
  let ?r' = "?r\<lparr>auction_status := AUCTION_CLOSED\<rparr>"
  have P: "?P ?q" "?P ?q'" "?P ?r" "\<not> ?P ?r'" "?P ?t" by (simp_all add: sample_auction_def zero_Auction_def)
  have id: "auction_id ?q = auction_id ?q'" "auction_id ?r = auction_id ?r'" by (simp_all add: sample_auction_def)
  obtain fs where fs: "file_run (\<lambda>K. K = view_auctions_scan) ?P (\<lambda>a b. auction_id a = auction_id b)
      \<lparr>sf_file = [?q, ?r], sf_log = [?q, ?r], sf_scans = [0 \<mapsto> (view_auctions_scan, SC_read 0 [])]\<rparr> fs
      \<lparr>sf_file = [?q', ?r', ?t], sf_log = [?q, ?r, ?t], sf_scans = [0 \<mapsto> (view_auctions_scan, SC_done [?q, ?r, ?t])]\<rparr>"
    "set fs = {[?q, ?r], [?q', ?r], [?q', ?r'], [?q', ?r', ?t]}"
    using listing_overtaken [of ?P ?q ?q' ?r ?r' ?t "\<lambda>a b. auction_id a = auction_id b" ?P
        "\<lambda>K. K = view_auctions_scan"] P id
    unfolding view_auctions_scan_def by blast
  from listing_is_regular [OF fs(1), of 0 256 ?P view_auctions_scan "[?q, ?r, ?t]"] obtain ks :: "nat list" where
    ks: "length ks = length [?q, ?r, ?t]" "sorted_wrt (<) ks"
    "\<forall>i. (\<forall>xs \<in> set fs. i < length xs \<and> ?P (xs ! i)) \<longrightarrow> i \<in> set ks"
    by (auto simp: view_auctions_scan_def)
  have "\<forall>xs \<in> set fs. 0 < length xs \<and> ?P (xs ! 0)" using P by (simp add: fs(2))
  with ks(3) have "0 \<in> set ks" by blast
  moreover have "\<forall>xs \<in> set fs. filter ?P xs \<noteq> [?q, ?r, ?t]" using P by (simp add: fs(2))
  ultimately show ?thesis unfolding Let_def using fs(1) ks(1,2)
    by (intro exI [of _ fs] exI [of _ ks]) simp
qed

end
